(* ===== verification/Prelude.thy ===== *)
theory Prelude
  imports Main "HOL-Library.AList" "HOL-Library.Multiset" "HOL-Library.Sublist"
begin

text \<open>
  Shared vocabulary of the development: Go maps and the order in which \<open>range\<close> visits
  them, the \<open>strings\<close> and \<open>fmt\<close> functions the program uses, and generic lemmas on
  lists and finite maps. Go strings are byte strings; \<^typ>\<open>string\<close> is a list of
  8-bit characters, so lengths count bytes as \<open>len\<close> does.
\<close>

named_theorems gomap_simps \<open>lookups, keys and lengths of Go maps\<close>
named_theorems gostr_simps \<open>characterisations of the string functions\<close>

lemma all_less_SucI: "P 0 \<Longrightarrow> (\<And>i. i < k \<Longrightarrow> P (Suc i)) \<Longrightarrow> i < Suc k \<Longrightarrow> P i"
  by (cases i) auto

lemma mset_concat_map: "mset (concat (map f xs)) = (\<Sum>x \<in># mset xs. mset (f x))"
  by (induction xs) auto

section \<open>Go maps\<close>

text \<open>
  A \<open>map[string]T\<close> is an association list with distinct keys. Reading is \<^const>\<open>map_of\<close>,
  assignment is \<^const>\<open>AList.update\<close>, \<open>len\<close> is \<^const>\<open>length\<close>.
\<close>

type_synonym 'v gomap = "(string \<times> 'v) list"

abbreviation gm_keys :: "'v gomap \<Rightarrow> string list" where
  "gm_keys m \<equiv> map fst m"

definition gm_wf :: "'v gomap \<Rightarrow> bool" where
  "gm_wf m \<longleftrightarrow> distinct (gm_keys m)"

text \<open>
  \<open>for k, v := range m\<close> visits the keys in an order the language leaves open, and which may
  differ from one loop to the next. Each loop of the program has a name, and an iteration
  order says, for each of them, in which order a list of keys is visited. Go promises that every
  key is visited exactly once: \<open>fair_order\<close>.
\<close>

datatype site =
    R_CompileServices | R_CompileEnv string | R_CompileNetworks | R_CompileVolumes
  | R_ValidateServices | R_ExecVolumes | R_ExecServices | R_ExecEnv string
  | R_BuildArgs string | R_HasBuild | R_DeployServices | R_Processes

type_synonym iter_order = "site \<Rightarrow> string list \<Rightarrow> string list"

definition fair_order :: "iter_order \<Rightarrow> bool" where
  "fair_order \<pi> \<longleftrightarrow> (\<forall>s ks. mset (\<pi> s ks) = mset ks)"

definition gm_range :: "iter_order \<Rightarrow> site \<Rightarrow> 'v gomap \<Rightarrow> 'v gomap" where
  "gm_range \<pi> s m =
     List.map_filter (\<lambda>k. map_option (Pair k) (map_of m k)) (\<pi> s (gm_keys m))"

text \<open>Two concrete orders, used by the examples: as stored, and reversed.\<close>

definition stored_order :: iter_order where
  "stored_order s ks = ks"

definition reversed_order :: iter_order where
  "reversed_order s ks = rev ks"

lemma fair_stored [simp]: "fair_order stored_order"
  by (simp add: fair_order_def stored_order_def)

lemma fair_reversed [simp]: "fair_order reversed_order"
  by (simp add: fair_order_def reversed_order_def)

lemma gm_wf_Nil [simp]: "gm_wf []"
  by (simp add: gm_wf_def)

lemma gm_wf_update [simp]: "gm_wf m \<Longrightarrow> gm_wf (AList.update k v m)"
  by (simp add: gm_wf_def distinct_update)

lemma map_of_mem_iff: "gm_wf m \<Longrightarrow> map_of m k = Some v \<longleftrightarrow> (k, v) \<in> set m"
  by (simp add: gm_wf_def map_of_eq_Some_iff)

lemma map_filter_keys:
  assumes "gm_wf m"
  shows "List.map_filter (\<lambda>k. map_option (Pair k) (map_of m k)) (gm_keys m) = m"
proof -
  have "List.map_filter (\<lambda>k. map_option (Pair k) (map_of m k)) (gm_keys xs) = xs"
    if "set xs \<subseteq> set m" for xs
    using that assms
    by (induction xs) (auto simp: List.map_filter_simps map_of_mem_iff [THEN iffD2])
  then show ?thesis by blast
qed

lemma mset_map_filter: "mset xs = mset ys \<Longrightarrow> mset (List.map_filter f xs) = mset (List.map_filter f ys)"
  unfolding List.map_filter_def
  by (metis mset_filter mset_map)

text \<open>A fair loop visits the entries of the map, each once: a permutation of the map.\<close>

lemma mset_gm_range: "fair_order \<pi> \<Longrightarrow> gm_wf m \<Longrightarrow> mset (gm_range \<pi> s m) = mset m"
  unfolding gm_range_def fair_order_def
  by (metis map_filter_keys mset_map_filter)

lemma set_gm_range [simp]: "fair_order \<pi> \<Longrightarrow> gm_wf m \<Longrightarrow> set (gm_range \<pi> s m) = set m"
  by (metis mset_gm_range set_mset_mset)

lemma length_gm_range [simp]: "fair_order \<pi> \<Longrightarrow> gm_wf m \<Longrightarrow> length (gm_range \<pi> s m) = length m"
  by (metis mset_gm_range size_mset)

lemma gm_wf_mset: "mset m = mset m' \<Longrightarrow> gm_wf m \<longleftrightarrow> gm_wf m'"
  unfolding gm_wf_def by (rule mset_eq_imp_distinct_iff) simp

lemma gm_wf_range [simp]: "fair_order \<pi> \<Longrightarrow> gm_wf m \<Longrightarrow> gm_wf (gm_range \<pi> s m)"
  by (metis mset_gm_range gm_wf_mset)

lemma map_of_eq_set: "gm_wf m \<Longrightarrow> gm_wf m' \<Longrightarrow> set m = set m' \<Longrightarrow> map_of m = map_of m'"
  by (rule ext) (metis map_of_mem_iff not_None_eq)

lemma map_of_gm_range [simp]:
  assumes "fair_order \<pi>" and "gm_wf m"
  shows "map_of (gm_range \<pi> s m) = map_of m"
  by (rule map_of_eq_set) (use assms in simp_all)

lemma map_of_update_eq [gomap_simps]:
  "map_of (AList.update k v m) = (map_of m)(k \<mapsto> v)"
  by (rule update_conv')

lemma gm_keys_update_new [gomap_simps]:
  "k \<notin> set (gm_keys m) \<Longrightarrow> AList.update k v m = m @ [(k, v)]"
  by (induction m) auto

text \<open>Building a map by assigning the entries of another one, key by key, copies it.\<close>

fun gm_build :: "('a \<Rightarrow> 'b) \<Rightarrow> 'a gomap \<Rightarrow> 'b gomap \<Rightarrow> 'b gomap" where
  "gm_build f [] acc = acc"
| "gm_build f ((k, v) # m) acc = gm_build f m (AList.update k (f v) acc)"

lemma map_of_gm_build:
  "gm_wf m \<Longrightarrow> map_of (gm_build f m acc) k =
     (case map_of m k of Some v \<Rightarrow> Some (f v) | None \<Rightarrow> map_of acc k)"
proof (induction f m acc rule: gm_build.induct)
  case (2 f k' v m acc)
  then have "map_of m k' = None" and "gm_wf m"
    by (auto simp: gm_wf_def map_of_eq_None_iff image_iff)
  with 2 show ?case
    by (auto simp: gomap_simps split: option.splits)
qed simp

lemma gm_wf_build [simp]: "gm_wf acc \<Longrightarrow> gm_wf (gm_build f m acc)"
  by (induction f m acc rule: gm_build.induct) auto

section \<open>Strings\<close>

text \<open>\<open>strings.HasPrefix\<close>, \<open>strings.TrimPrefix\<close>, \<open>strings.Contains\<close>.\<close>

definition HasPrefix :: "string \<Rightarrow> string \<Rightarrow> bool" where
  "HasPrefix s p \<longleftrightarrow> take (length p) s = p"

definition TrimPrefix :: "string \<Rightarrow> string \<Rightarrow> string" where
  "TrimPrefix s p = (if HasPrefix s p then drop (length p) s else s)"

fun Contains :: "string \<Rightarrow> string \<Rightarrow> bool" where
  "Contains [] sub \<longleftrightarrow> sub = []"
| "Contains (c # s) sub \<longleftrightarrow> HasPrefix (c # s) sub \<or> Contains s sub"

text \<open>
  \<open>strings.SplitN(s, sep, 2)\<close> for a one-byte separator, and \<open>strings.Cut\<close>, which also says
  whether the separator was found.
\<close>

definition SplitN2 :: "char \<Rightarrow> string \<Rightarrow> string list" where
  "SplitN2 sep s =
     (if sep \<in> set s then [takeWhile (\<lambda>c. c \<noteq> sep) s, tl (dropWhile (\<lambda>c. c \<noteq> sep) s)] else [s])"

definition Cut :: "char \<Rightarrow> string \<Rightarrow> string \<times> string \<times> bool" where
  "Cut sep s =
     (if sep \<in> set s then (takeWhile (\<lambda>c. c \<noteq> sep) s, tl (dropWhile (\<lambda>c. c \<noteq> sep) s), True)
      else (s, [], False))"

lemma HasPrefix_iff [gostr_simps]: "HasPrefix s p \<longleftrightarrow> (\<exists>t. s = p @ t)"
  unfolding HasPrefix_def by (metis append_eq_conv_conj)

lemma HasPrefix_append [simp]: "HasPrefix (p @ t) p"
  by (simp add: HasPrefix_def)

lemma HasPrefix_Nil [simp]: "HasPrefix s []"
  by (simp add: HasPrefix_def)

lemma Contains_iff [gostr_simps]: "Contains s sub \<longleftrightarrow> (\<exists>a b. s = a @ sub @ b)"
proof (induction s)
  case (Cons c s)
  show ?case
    by (simp add: Cons.IH HasPrefix_iff) (metis append_Cons append_Nil list.exhaust list.inject)
qed simp

lemma takeWhile_sep: "sep \<notin> set a \<Longrightarrow> takeWhile (\<lambda>c. c \<noteq> sep) (a @ sep # b) = a"
  by (induction a) auto

lemma dropWhile_sep: "sep \<notin> set a \<Longrightarrow> dropWhile (\<lambda>c. c \<noteq> sep) (a @ sep # b) = sep # b"
  by (induction a) auto

lemma split_at_sep: "sep \<in> set s \<Longrightarrow>
    takeWhile (\<lambda>c. c \<noteq> sep) s @ sep # tl (dropWhile (\<lambda>c. c \<noteq> sep) s) = s"
  by (induction s) auto

lemma SplitN2_cases:
  obtains (whole) "sep \<notin> set s" "SplitN2 sep s = [s]"
  | (parts) a b where "SplitN2 sep s = [a, b]" "s = a @ sep # b" "sep \<notin> set a"
proof (cases "sep \<in> set s")
  case True
  then have "s = takeWhile (\<lambda>c. c \<noteq> sep) s @ sep # tl (dropWhile (\<lambda>c. c \<noteq> sep) s)"
    by (simp add: split_at_sep)
  moreover have "sep \<notin> set (takeWhile (\<lambda>c. c \<noteq> sep) s)"
    by (auto dest: set_takeWhileD)
  ultimately show ?thesis by (intro parts) (use True in \<open>auto simp: SplitN2_def\<close>)
next
  case False
  then show ?thesis using whole by (simp add: SplitN2_def)
qed

lemma SplitN2_append [simp]: "sep \<notin> set a \<Longrightarrow> SplitN2 sep (a @ sep # b) = [a, b]"
  by (simp add: SplitN2_def takeWhile_sep dropWhile_sep)

text \<open>
  \<open>strings.TrimSpace\<close>: the encodings of the Unicode white space characters, removed at both ends.
\<close>

definition space_runes :: "string list" where
  "space_runes =
     map (\<lambda>n. [char_of (n::nat)]) [9, 10, 11, 12, 13, 32] @
     map (map (char_of :: nat \<Rightarrow> char))
       ([[0xC2, 0x85], [0xC2, 0xA0], [0xE1, 0x9A, 0x80]] @
        map (\<lambda>n. [0xE2, 0x80, n]) ([0x80..<0x8B] @ [0xA8, 0xA9, 0xAF]) @
        [[0xE2, 0x81, 0x9F], [0xE3, 0x80, 0x80]])"

function strip_prefixes :: "string list \<Rightarrow> string \<Rightarrow> string" where
  "strip_prefixes ps s =
     (case List.find (\<lambda>p. p \<noteq> [] \<and> HasPrefix s p) ps of
        None \<Rightarrow> s
      | Some p \<Rightarrow> strip_prefixes ps (drop (length p) s))"
  by pat_completeness auto
termination
proof (relation "measure (\<lambda>(ps, s). length s)")
  fix ps s p
  assume "List.find (\<lambda>p. p \<noteq> [] \<and> HasPrefix s p) ps = Some p"
  then have "p \<noteq> []" "HasPrefix s p" by (auto simp: find_Some_iff)
  then show "((ps, drop (length p) s), (ps, s)) \<in> measure (\<lambda>(ps, s). length s)"
    by (auto simp: HasPrefix_iff)
qed simp

declare strip_prefixes.simps [simp del]

definition TrimSpace :: "string \<Rightarrow> string" where
  "TrimSpace s =
     rev (strip_prefixes (map rev space_runes) (rev (strip_prefixes space_runes s)))"

text \<open>
  \<open>utf8.ValidString\<close>: the byte sequences protobuf strings and JSON text can carry unchanged.
\<close>

definition byte_in :: "nat \<Rightarrow> nat \<Rightarrow> char \<Rightarrow> bool" where
  "byte_in lo hi c \<longleftrightarrow> lo \<le> of_char c \<and> of_char c \<le> hi"

abbreviation cont_byte :: "char \<Rightarrow> bool" where
  "cont_byte \<equiv> byte_in 0x80 0xBF"

function (sequential) utf8_valid :: "string \<Rightarrow> bool" where
  "utf8_valid [] \<longleftrightarrow> True"
| "utf8_valid (a # s) \<longleftrightarrow>
     (if byte_in 0 0x7F a then utf8_valid s
      else case s of
        b # s2 \<Rightarrow>
          if byte_in 0xC2 0xDF a then cont_byte b \<and> utf8_valid s2
          else (case s2 of
            c # s3 \<Rightarrow>
              if byte_in 0xE0 0xEF a then
                (if byte_in 0xE0 0xE0 a then byte_in 0xA0 0xBF b
                 else if byte_in 0xED 0xED a then byte_in 0x80 0x9F b else cont_byte b) \<and>
                cont_byte c \<and> utf8_valid s3
              else (case s3 of
                d # s4 \<Rightarrow>
                  byte_in 0xF0 0xF4 a \<and>
                  (if byte_in 0xF0 0xF0 a then byte_in 0x90 0xBF b
                   else if byte_in 0xF4 0xF4 a then byte_in 0x80 0x8F b else cont_byte b) \<and>
                  cont_byte c \<and> cont_byte d \<and> utf8_valid s4
              | [] \<Rightarrow> False)
          | [] \<Rightarrow> False)
      | [] \<Rightarrow> False)"
  by pat_completeness auto
termination by (relation "measure length") auto

lemma utf8_valid_ascii: "list_all (byte_in 0 0x7F) s \<Longrightarrow> utf8_valid s"
  by (induction s) auto

section \<open>Decimal rendering: the \<open>%d\<close> verb\<close>

definition digit :: "nat \<Rightarrow> char" where
  "digit n = char_of (48 + n)"

fun show_nat :: "nat \<Rightarrow> string" where
  "show_nat n = (if n < 10 then [digit n] else show_nat (n div 10) @ [digit (n mod 10)])"

declare show_nat.simps [simp del]

definition show_int :: "int \<Rightarrow> string" where
  "show_int i = (if i < 0 then CHR ''-'' # show_nat (nat (- i)) else show_nat (nat i))"

definition digit_val :: "char \<Rightarrow> nat" where
  "digit_val c = of_char c - 48"

definition read_nat :: "string \<Rightarrow> nat" where
  "read_nat s = foldl (\<lambda>n c. 10 * n + digit_val c) 0 s"

lemma digit_val_digit [simp]: "n < 10 \<Longrightarrow> digit_val (digit n) = n"
  by (simp add: digit_val_def digit_def)

lemma read_show_nat [simp]: "read_nat (show_nat n) = n"
proof (induction n rule: show_nat.induct)
  case (1 n)
  then show ?case
    by (subst show_nat.simps) (auto simp: read_nat_def)
qed

lemma show_nat_inj: "show_nat m = show_nat n \<Longrightarrow> m = n"
  by (metis read_show_nat)

end
