(* ===== verification/World.thy ===== *)
theory World
  imports Prelude "HOL-Library.Word"
begin

text \<open>
  The outside world. Every call that leaves the process (gRPC to the kernel, the Docker API,
  HTTP downloads, child processes, sleeping) is recorded in a \<^emph>\<open>history\<close>, oldest call first. The answers come
  from the environment: functions of the history and of the call's arguments, so they may differ
  from call to call in any way. An operation of the program takes the history and returns its
  result with the longer history. The theory also holds the contract such operations share and
  its lemmas for loops and for retries.
\<close>

section \<open>Calls\<close>

text \<open>
  Values of a \<open>map[string]interface{}\<close> payload. Only the shapes the program builds itself, and
  those the JSON decoder produces for a request body, occur.
\<close>

datatype gval =
    VNull
  | VStr string
  | VInt int
  | VBool bool
  | VNum string \<comment> \<open>a \<open>float64\<close>, by its literal\<close>
  | VList "gval list"
  | VMap "(string \<times> gval) list"

type_synonym payload = "gval gomap"

record emit_request =
  EventType :: string
  EntityKind :: string
  EntityId :: string
  Payload :: payload

text \<open>Entries of a tar archive, as \<open>archive/tar\<close> reads and writes them.\<close>

datatype entry_type = TypeDir | TypeReg | TypeSymlink | TypeOther

record tar_entry =
  te_Name :: string
  te_Typeflag :: entry_type
  te_Linkname :: string
  te_Mode :: "32 word" \<comment> \<open>\<open>hdr.FileInfo().Mode()\<close>\<close>
  te_Data :: string
  te_DataError :: "string option" \<comment> \<open>a read error after \<open>te_Data\<close>\<close>

record volume_options =
  vo_Name :: string
  vo_Driver :: string
  vo_Labels :: "string gomap"

record build_options =
  bo_Tags :: "string list"
  bo_Dockerfile :: string
  bo_BuildArgs :: "string gomap"
  bo_Remove :: bool
  bo_Labels :: "string gomap"

record port_binding =
  HostIP :: string
  HostPort :: string

record container_config =
  co_Name :: string
  co_Image :: string
  co_Env :: "string list"
  co_ExposedPorts :: "unit gomap"
  co_Labels :: "string gomap"
  co_Binds :: "string list"
  co_PortBindings :: "port_binding list gomap"
  co_RestartPolicy :: string
  co_CapDrop :: "string list"
  co_CapAdd :: "string list"
  co_Memory :: int
  co_NanoCPUs :: int
  co_PidsLimit :: int
  co_ReadonlyRootfs :: bool
  co_Tmpfs :: "string gomap"

record process_request =
  pr_Command :: string
  pr_Args :: "string list"
  pr_Env :: "string gomap"
  pr_WorkingDir :: string
  pr_TimeoutSeconds :: nat

datatype call =
    KEmitEvent emit_request
  | KSubscribeLocal "string list" nat
  | KRecv
  | KGetKV string
  | KPutKV string string
  | KGetSecret string
  | KRunProcess process_request
  | KSignPayload string
  | DPing
  | DVolumeCreate volume_options
  | DImagePull string
  | DImageBuild "tar_entry list" "string option" build_options
      \<comment> \<open>the build context: its entries, and the error its stream ends with\<close>
  | DContainerRemove string bool
  | DContainerCreate container_config
  | DContainerStart string
  | DContainerInspect string
  | DContainerLogs string string
  | DContainerList bool
  | DContainerStop string int
  | HttpGet string "string gomap" \<comment> \<open>URL and request headers\<close>
  | ProcStart string "string list" \<comment> \<open>executable and environment\<close>
  | ProcInterrupt int \<comment> \<open>SIGINT to a process id\<close>
  | ProcKill int
  | Sleep int \<comment> \<open>nanoseconds, as a \<open>time.Duration\<close>\<close>

type_synonym history = "call list"
type_synonym 'a action = "history \<Rightarrow> 'a \<times> history"

definition second :: int where
  "second = 1000000000"

section \<open>Loops over effectful operations\<close>

text \<open>
  \<open>for _, x := range xs { ... op(x) ... }\<close>, collecting the results in order.
\<close>

fun for_each :: "('i \<Rightarrow> 'o action) \<Rightarrow> 'i list \<Rightarrow> 'o list action" where
  "for_each op [] h = ([], h)"
| "for_each op (x # xs) h =
     (let (r, h1) = op x h; (rs, h2) = for_each op xs h1 in (r # rs, h2))"

lemma length_for_each: "length (fst (for_each op xs h)) = length xs"
  by (induction xs arbitrary: h) (auto simp: split_beta Let_def)

text \<open>
  The contract of an operation: whatever the history, it only appends calls, and its argument,
  its result and the appended calls are related as \<open>spec\<close> says. The loop then appends one
  segment of calls for each item, in order.
\<close>

locale logged_op =
  fixes op :: "'i \<Rightarrow> history \<Rightarrow> 'o \<times> history"
    and spec :: "'i \<Rightarrow> 'o \<Rightarrow> call list \<Rightarrow> bool"
  assumes op_spec: "\<exists>cs. snd (op x h) = h @ cs \<and> spec x (fst (op x h)) cs"
begin

lemma op_obtain:
  obtains r cs where "op x h = (r, h @ cs)" "spec x r cs"
  by (metis op_spec prod.collapse)

lemma for_each_spec:
  "\<exists>ts. map fst ts = xs \<and>
        for_each op xs h = (map (fst \<circ> snd) ts, h @ concat (map (snd \<circ> snd) ts)) \<and>
        (\<forall>(x, r, cs) \<in> set ts. spec x r cs)"
proof (induction xs arbitrary: h)
  case Nil
  show ?case by (intro exI [of _ "[]"]) simp
next
  case (Cons x xs)
  obtain r cs where 1: "op x h = (r, h @ cs)" "spec x r cs"
    by (rule op_obtain)
  obtain ts where 2: "map fst ts = xs"
      "for_each op xs (h @ cs) = (map (fst \<circ> snd) ts, (h @ cs) @ concat (map (snd \<circ> snd) ts))"
      "\<forall>(x, r, cs) \<in> set ts. spec x r cs"
    using Cons.IH by blast
  show ?case
    by (intro exI [of _ "(x, r, cs) # ts"]) (use 1 2 in \<open>auto simp: Let_def comp_def\<close>)
qed

lemma for_each_obtain:
  obtains ts where "map fst ts = xs"
    "for_each op xs h = (map (fst \<circ> snd) ts, h @ concat (map (snd \<circ> snd) ts))"
    "\<And>x r cs. (x, r, cs) \<in> set ts \<Longrightarrow> spec x r cs"
  using for_each_spec by (smt (verit, best) case_prodD)

end

section \<open>Retries\<close>

text \<open>
  The shape of the two emit loops of the event subscriber: up to \<open>bound\<close> attempts, sleeping
  \<open>2 ^ (attempt - 1)\<close> seconds before each but the first, and returning at the first success.
  The result says whether an attempt succeeded.
\<close>

definition backoff_sleep :: "nat \<Rightarrow> history \<Rightarrow> history" where
  "backoff_sleep attempt h = (if attempt > 0 then h @ [Sleep (2 ^ (attempt - 1) * second)] else h)"

fun retry_from :: "'e option action \<Rightarrow> nat \<Rightarrow> nat \<Rightarrow> bool action" where
  "retry_from emit 0 attempt h = (False, h)"
| "retry_from emit (Suc left) attempt h =
     (case emit (backoff_sleep attempt h) of
        (Some e, h1) \<Rightarrow> retry_from emit left (Suc attempt) h1
      | (None, h1) \<Rightarrow> (True, h1))"

text \<open>
  An emitter answers an attempt with \<open>ans\<close> and, when its request can be built at all
  (\<open>sent\<close>), appends that one request; otherwise it fails without a call. The retry loop then
  makes the attempts \<open>a, a + 1, \<dots>\<close> up to the first success.
\<close>

locale emitter =
  fixes emit :: "history \<Rightarrow> 'e option \<times> history"
    and ans :: "history \<Rightarrow> 'e option"
    and sent :: bool
    and req :: call
  assumes emit_eq: "emit h = (ans h, if sent then h @ [req] else h)"
    and unsent_fails: "\<not> sent \<Longrightarrow> ans h \<noteq> None"
begin

definition attempts :: "nat \<Rightarrow> nat \<Rightarrow> call list" where
  "attempts a n =
     concat (map (\<lambda>i. backoff_sleep i [] @ (if sent then [req] else [])) [a..<a + n])"

definition before :: "nat \<Rightarrow> history \<Rightarrow> nat \<Rightarrow> history" where
  "before a h i = backoff_sleep (a + i) (h @ attempts a i)"

lemma attempts_0 [simp]: "attempts a 0 = []"
  by (simp add: attempts_def)

lemma attempts_Suc: "attempts a (Suc n) =
    backoff_sleep a [] @ (if sent then [req] else []) @ attempts (Suc a) n"
  by (simp add: attempts_def upt_conv_Cons del: upt_Suc)

lemma backoff_append: "backoff_sleep a h = h @ backoff_sleep a []"
  by (simp add: backoff_sleep_def)

lemma before_Suc: "before (Suc a) (h @ attempts a 1) i = before a h (Suc i)"
  by (simp add: before_def attempts_Suc)

lemma retry_spec:
  "\<exists>ok n. retry_from emit left a h = (ok, h @ attempts a n) \<and> n \<le> left \<and>
     (ok \<longrightarrow> 0 < n \<and> ans (before a h (n - 1)) = None \<and> (\<forall>i<n - 1. ans (before a h i) \<noteq> None)) \<and>
     (\<not> ok \<longrightarrow> n = left \<and> (\<forall>i<left. ans (before a h i) \<noteq> None))"
proof (induction left arbitrary: a h)
  case 0
  show ?case by (intro exI [of _ False] exI [of _ 0]) simp
next
  case (Suc left)
  have b0: "before a h 0 = backoff_sleep a h" by (simp add: before_def)
  have e: "emit (backoff_sleep a h) = (ans (before a h 0), h @ attempts a 1)"
    using unsent_fails
    by (simp add: emit_eq b0 attempts_Suc) (simp add: backoff_append [of a h])
  show ?case
  proof (cases "ans (before a h 0)")
    case None
    then show ?thesis by (intro exI [of _ True] exI [of _ 1]) (simp add: e)
  next
    case (Some x)
    obtain ok n where IH: "retry_from emit left (Suc a) (h @ attempts a 1) =
        (ok, (h @ attempts a 1) @ attempts (Suc a) n)" "n \<le> left"
      "ok \<Longrightarrow> 0 < n \<and> ans (before a h n) = None \<and> (\<forall>i<n - 1. ans (before a h (Suc i)) \<noteq> None)"
      "\<not> ok \<Longrightarrow> n = left \<and> (\<forall>i<left. ans (before a h (Suc i)) \<noteq> None)"
      using Suc.IH [of "Suc a" "h @ attempts a 1"] unfolding before_Suc
      by (metis Suc_pred')
    have r: "retry_from emit (Suc left) a h = (ok, h @ attempts a (Suc n))"
      using IH(1) by (simp add: e Some attempts_Suc)
    have b0: "ans (before a h 0) \<noteq> None" using Some by simp
    show ?thesis
    proof (cases ok)
      case True
      have "\<forall>i<n. ans (before a h i) \<noteq> None"
        using IH(3) [OF True] b0 all_less_SucI [where k = "n - 1" and P = "\<lambda>i. ans (before a h i) \<noteq> None"]
        by simp
      with r IH(2,3) True show ?thesis
        by (intro exI [of _ True] exI [of _ "Suc n"]) simp
    next
      case False
      have "\<forall>i<Suc left. ans (before a h i) \<noteq> None"
        using IH(4) [OF False] b0 all_less_SucI [where k = left and P = "\<lambda>i. ans (before a h i) \<noteq> None"]
        by simp
      with r IH(4) False show ?thesis
        by (intro exI [of _ False] exI [of _ "Suc n"]) simp
    qed
  qed
qed

lemma count_attempts: "req \<notin> range Sleep \<Longrightarrow> count_list (attempts a n) req = (if sent then n else 0)"
  by (induction n arbitrary: a) (auto simp: attempts_Suc backoff_sleep_def)

text \<open>A loop that fails used up all its attempts; one that succeeds ends with its request.\<close>

lemma retry_lost:
  assumes "retry_from emit left a h = (False, h')"
  shows "h' = h @ attempts a left" "i < left \<Longrightarrow> ans (before a h i) \<noteq> None"
  using retry_spec [of left a h] assms by auto

lemma retry_delivered:
  assumes "retry_from emit left a h = (True, h')"
  obtains n where "n < left" "h' = h @ attempts a (Suc n)" "ans (before a h n) = None"
    "\<And>i. i < n \<Longrightarrow> ans (before a h i) \<noteq> None"
  using retry_spec [of left a h] assms that
  by (metis Pair_inject Suc_pred' less_eq_Suc_le)

end

end
