(* ===== verification/Syscall_Client.thy ===== *)
theory Syscall_Client
  imports World
begin

text \<open>
  The kernel syscall client (\<open>internal/syscall/client.go\<close>): thin wrappers over the kernel's
  gRPC services. The services and \<open>structpb.NewStruct\<close> are not part of the repository and
  are the record \<open>kernel\<close>, a parameter of every operation. Each wrapper builds its request,
  makes one call and turns a failure into an error of its own; logging is left out.
\<close>

section \<open>The kernel services\<close>

record process_response =
  ExitCode :: int
  Stdout :: string
  Stderr :: string

record kernel =
  k_struct_error :: "payload \<Rightarrow> string option" \<comment> \<open>why \<open>structpb.NewStruct\<close> rejects a payload\<close>
  k_emit :: "history \<Rightarrow> emit_request \<Rightarrow> string option"
  k_subscribe :: "history \<Rightarrow> string list \<Rightarrow> nat \<Rightarrow> string option"
  k_get_kv :: "history \<Rightarrow> string \<Rightarrow> string + string"
  k_put_kv :: "history \<Rightarrow> string \<Rightarrow> string \<Rightarrow> string option"
  k_run_process :: "history \<Rightarrow> process_request \<Rightarrow> string + process_response"
  k_sign :: "history \<Rightarrow> string \<Rightarrow> string + string \<times> string"
  k_get_secret :: "history \<Rightarrow> string \<Rightarrow> string + string"

datatype syscall_error =
    MarshalPayload string
  | EmitFailed string
  | SubscribeFailed string
  | GetKVFailed string
  | PutKVFailed string
  | RunProcessFailed string
  | SignFailed string
  | GetSecretFailed string

fun syscall_error_text :: "syscall_error \<Rightarrow> string" where
  "syscall_error_text (MarshalPayload e) = ''failed to marshal payload: '' @ e"
| "syscall_error_text (EmitFailed e) = ''failed to emit event: '' @ e"
| "syscall_error_text (SubscribeFailed e) = ''failed to subscribe to events: '' @ e"
| "syscall_error_text (GetKVFailed e) = ''failed to get kv: '' @ e"
| "syscall_error_text (PutKVFailed e) = ''failed to put kv: '' @ e"
| "syscall_error_text (RunProcessFailed e) = ''failed to run process: '' @ e"
| "syscall_error_text (SignFailed e) = ''failed to sign payload: '' @ e"
| "syscall_error_text (GetSecretFailed e) = ''failed to get secret: '' @ e"

section \<open>Operations\<close>

definition deployment_event :: "string \<Rightarrow> string \<Rightarrow> payload \<Rightarrow> emit_request" where
  "deployment_event eventType deploymentID payload =
     \<lparr>EventType = eventType, EntityKind = ''deployment'', EntityId = deploymentID, Payload = payload\<rparr>"

definition EmitDeploymentEvent ::
    "kernel \<Rightarrow> string \<Rightarrow> string \<Rightarrow> payload \<Rightarrow> syscall_error option action" where
  "EmitDeploymentEvent K eventType deploymentID payload h =
     (case k_struct_error K payload of
        Some e \<Rightarrow> (Some (MarshalPayload e), h)
      | None \<Rightarrow>
          (let req = deployment_event eventType deploymentID payload;
               h1 = h @ [KEmitEvent req]
           in case k_emit K h req of
                Some e \<Rightarrow> (Some (EmitFailed e), h1)
              | None \<Rightarrow> (None, h1)))"

definition subscribed_events :: "string list" where
  "subscribed_events =
     [''deployments.apply.server.request'', ''deployments.delete.server.request'',
      ''deployment.created'', ''deployment.updated'', ''deployment.deleted'',
      ''deployment.completed'', ''deployment.failed'']"

definition SubscribeDeploymentEvents :: "kernel \<Rightarrow> syscall_error option action" where
  "SubscribeDeploymentEvents K h =
     (let h1 = h @ [KSubscribeLocal subscribed_events 100]
      in case k_subscribe K h subscribed_events 100 of
           Some e \<Rightarrow> (Some (SubscribeFailed e), h1)
         | None \<Rightarrow> (None, h1))"

definition deployment_key :: "string \<Rightarrow> string" where
  "deployment_key deploymentID = ''/deployments/'' @ deploymentID"

definition GetDeploymentState :: "kernel \<Rightarrow> string \<Rightarrow> (syscall_error + string) action" where
  "GetDeploymentState K deploymentID h =
     (let key = deployment_key deploymentID;
          h1 = h @ [KGetKV key]
      in case k_get_kv K h key of
           Inl e \<Rightarrow> (Inl (GetKVFailed e), h1)
         | Inr v \<Rightarrow> (Inr v, h1))"

definition SaveDeploymentState :: "kernel \<Rightarrow> string \<Rightarrow> string \<Rightarrow> syscall_error option action" where
  "SaveDeploymentState K deploymentID state h =
     (let key = deployment_key deploymentID;
          h1 = h @ [KPutKV key state]
      in case k_put_kv K h key state of
           Some e \<Rightarrow> (Some (PutKVFailed e), h1)
         | None \<Rightarrow> (None, h1))"

definition RunProcess ::
    "kernel \<Rightarrow> string \<Rightarrow> string list \<Rightarrow> string gomap \<Rightarrow> string \<Rightarrow> nat \<Rightarrow>
       (syscall_error + process_response) action" where
  "RunProcess K command args env workingDir timeoutSeconds h =
     (let req = \<lparr>pr_Command = command, pr_Args = args, pr_Env = env,
                 pr_WorkingDir = workingDir, pr_TimeoutSeconds = timeoutSeconds\<rparr>;
          h1 = h @ [KRunProcess req]
      in case k_run_process K h req of
           Inl e \<Rightarrow> (Inl (RunProcessFailed e), h1)
         | Inr resp \<Rightarrow> (Inr resp, h1))"

definition SignPayload :: "kernel \<Rightarrow> string \<Rightarrow> (syscall_error + string \<times> string) action" where
  "SignPayload K payload h =
     (let h1 = h @ [KSignPayload payload]
      in case k_sign K h payload of
           Inl e \<Rightarrow> (Inl (SignFailed e), h1)
         | Inr (sig, alg) \<Rightarrow> (Inr (sig, alg), h1))"

definition GetSecret :: "kernel \<Rightarrow> string \<Rightarrow> (syscall_error + string) action" where
  "GetSecret K key h =
     (let h1 = h @ [KGetSecret key]
      in case k_get_secret K h key of
           Inl e \<Rightarrow> (Inl (GetSecretFailed e), h1)
         | Inr v \<Rightarrow> (Inr v, h1))"

section \<open>Contracts\<close>

text \<open>
  The client is an emitter for every event: the retry loops of the event subscriber rest on
  this interpretation.
\<close>

definition emit_answer :: "kernel \<Rightarrow> string \<Rightarrow> string \<Rightarrow> payload \<Rightarrow> history \<Rightarrow> syscall_error option" where
  "emit_answer K t d p h = fst (EmitDeploymentEvent K t d p h)"

interpretation kernel_emit: emitter
  "EmitDeploymentEvent K t d p" "emit_answer K t d p" "k_struct_error K p = None"
  "KEmitEvent (deployment_event t d p)"
  by unfold_locales
     (auto simp: EmitDeploymentEvent_def emit_answer_def Let_def split: option.splits)

text \<open>Fetching a secret is one call, whose answer is the kernel's.\<close>

interpretation kernel_secret: logged_op "GetSecret K"
  "\<lambda>key r cs. cs = [KGetSecret key]"
  by unfold_locales (simp add: GetSecret_def Let_def split: sum.splits)

text \<open>
  The cluster KV keeps what was stored last: \<open>kv_stored\<close> reads off a history the value of the
  last accepted \<open>PutKV\<close> for a key, and a coherent kernel answers a read with it or with an error.
\<close>

fun kv_stored_rev :: "kernel \<Rightarrow> call list \<Rightarrow> string \<Rightarrow> string option" where
  "kv_stored_rev K [] key = None"
| "kv_stored_rev K (c # cs) key =
     (case c of
        KPutKV k v \<Rightarrow>
          if k = key \<and> k_put_kv K (rev cs) k v = None then Some v else kv_stored_rev K cs key
      | _ \<Rightarrow> kv_stored_rev K cs key)"

definition kv_stored :: "kernel \<Rightarrow> history \<Rightarrow> string \<Rightarrow> string option" where
  "kv_stored K h key = kv_stored_rev K (rev h) key"

definition kv_coherent :: "kernel \<Rightarrow> bool" where
  "kv_coherent K \<longleftrightarrow>
     (\<forall>h key v w. kv_stored K h key = Some v \<longrightarrow> k_get_kv K h key = Inr w \<longrightarrow> w = v)"

lemma kv_stored_snoc:
  "kv_stored K (h @ [c]) key =
     (case c of
        KPutKV k v \<Rightarrow> if k = key \<and> k_put_kv K h k v = None then Some v else kv_stored K h key
      | _ \<Rightarrow> kv_stored K h key)"
  by (cases c) (auto simp: kv_stored_def)

lemma deployment_key_inj: "deployment_key a = deployment_key b \<longleftrightarrow> a = b"
  by (simp add: deployment_key_def)

lemma SaveDeploymentState_cases:
  obtains (failed) e where "SaveDeploymentState K d s h =
      (Some (PutKVFailed e), h @ [KPutKV (deployment_key d) s])"
  | (saved) "SaveDeploymentState K d s h = (None, h @ [KPutKV (deployment_key d) s])"
    "k_put_kv K h (deployment_key d) s = None"
  by (cases "k_put_kv K h (deployment_key d) s")
     (auto simp: SaveDeploymentState_def Let_def)

lemma saved_is_stored:
  assumes "SaveDeploymentState K d s h = (None, h')"
  shows "kv_stored K h' (deployment_key d) = Some s"
  using assms by (cases rule: SaveDeploymentState_cases [of K d s h]) (auto simp: kv_stored_snoc)

lemma save_keeps_others:
  assumes "d' \<noteq> d"
  shows "kv_stored K (snd (SaveDeploymentState K d s h)) (deployment_key d') =
    kv_stored K h (deployment_key d')"
  using assms
  by (cases rule: SaveDeploymentState_cases [of K d s h]) (auto simp: kv_stored_snoc deployment_key_inj)

section \<open>A sample kernel\<close>

text \<open>
  A kernel for the examples: it accepts every call, knows the secrets \<open>db/pass\<close> and \<open>token\<close>,
  and answers reads with what was stored.
\<close>

definition sample_kernel :: kernel where
  "sample_kernel =
     \<lparr>k_struct_error = \<lambda>p. None,
      k_emit = \<lambda>h r. None,
      k_subscribe = \<lambda>h ts n. None,
      k_get_kv = \<lambda>h key. Inl ''not found'',
      k_put_kv = \<lambda>h key v. None,
      k_run_process = \<lambda>h r. Inl ''no exec'',
      k_sign = \<lambda>h p. Inl ''no identity'',
      k_get_secret = \<lambda>h key.
        if key = ''db/pass'' then Inr ''pw'' else if key = ''token'' then Inr ''tk'' else Inl ''not found''\<rparr>"

lemmas sample_kernel_simps = sample_kernel_def EmitDeploymentEvent_def GetSecret_def
  SaveDeploymentState_def GetDeploymentState_def SubscribeDeploymentEvents_def

end
