(* ===== verification/Deployment.thy ===== *)
theory Deployment
  imports Syscall_Client "HOL-Library.List_Lexorder" "HOL-Library.Char_ord"
begin

text \<open>
  The deployment package (\<open>internal/deployment/handler.go\<close>): the specification types and the
  handler that persists a specification in the cluster KV, announces it and its exposed services
  through kernel events, and reads it back. JSON text is produced and read by \<open>encoding/json\<close>,
  the record \<open>json_codec\<close>; the value that is encoded follows the struct tags and is
  defined here.
\<close>

section \<open>Specifications\<close>

record BuildConfig =
  bc_Context :: string
  bc_Dockerfile :: string
  bc_Args :: "string gomap"

record SourceRef =
  src_Type :: string
  src_Owner :: string
  src_Repo :: string
  src_Ref :: string
  src_LocalPath :: string
  src_ArchiveURL :: string
  src_Token :: string

record ExposeConfig =
  ex_Port :: int
  ex_Hostname :: string

record ServiceSpec =
  ss_Image :: string
  ss_Build :: "BuildConfig option"
  ss_Ports :: "string list"
  ss_Environment :: "string gomap"
  ss_Volumes :: "string list"
  ss_Networks :: "string list"
  ss_Expose :: "ExposeConfig option"

record NetworkSpec =
  ns_Driver :: string
  ns_Name :: string

record VolumeSpec =
  vs_Driver :: string
  vs_Name :: string
  vs_Config :: "string gomap"

record DeploymentSpec =
  ds_ID :: string
  ds_Slug :: string
  ds_Version :: string
  ds_Source :: "SourceRef option"
  ds_ServiceMap :: "ServiceSpec gomap option" \<comment> \<open>\<open>None\<close> is the nil map\<close>
  ds_Networks :: "NetworkSpec gomap"
  ds_Volumes :: "VolumeSpec gomap"

text \<open>The services as \<open>len\<close> and \<open>range\<close> see them: a nil map is empty.\<close>

definition ds_Services :: "DeploymentSpec \<Rightarrow> ServiceSpec gomap" where
  "ds_Services d = (case ds_ServiceMap d of None \<Rightarrow> [] | Some m \<Rightarrow> m)"

lemma ds_Services_simps [simp]:
  "ds_Services \<lparr>ds_ID = i, ds_Slug = s, ds_Version = v, ds_Source = src, ds_ServiceMap = Some m,
     ds_Networks = ns, ds_Volumes = vs\<rparr> = m"
  "ds_Services (d\<lparr>ds_ServiceMap := Some m\<rparr>) = m"
  by (simp_all add: ds_Services_def)

text \<open>\<open>Redacted\<close> copies a source reference with its token masked.\<close>

definition Redacted :: "SourceRef option \<Rightarrow> SourceRef option" where
  "Redacted s =
     (case s of
        None \<Rightarrow> None
      | Some c \<Rightarrow> Some (if src_Token c \<noteq> [] then c\<lparr>src_Token := ''***''\<rparr> else c))"

section \<open>The JSON value of a specification\<close>

text \<open>
  The struct tags: field names, and \<open>omitempty\<close> where the source has it. Without \<open>omitempty\<close>, which
  is the case of the services, a nil map is encoded as \<open>null\<close>.
\<close>

definition str_omitempty :: "string \<Rightarrow> string \<Rightarrow> payload" where
  "str_omitempty k s = (if s = [] then [] else [(k, VStr s)])"

definition map_omitempty :: "string \<Rightarrow> ('v \<Rightarrow> gval) \<Rightarrow> 'v gomap \<Rightarrow> payload" where
  "map_omitempty k f m = (if m = [] then [] else [(k, VMap (map (map_prod id f) m))])"

definition list_omitempty :: "string \<Rightarrow> string list \<Rightarrow> payload" where
  "list_omitempty k xs = (if xs = [] then [] else [(k, VList (map VStr xs))])"

definition ptr_omitempty :: "string \<Rightarrow> ('v \<Rightarrow> payload) \<Rightarrow> 'v option \<Rightarrow> payload" where
  "ptr_omitempty k f p = (case p of None \<Rightarrow> [] | Some v \<Rightarrow> [(k, VMap (f v))])"

definition build_json :: "BuildConfig \<Rightarrow> payload" where
  "build_json b = str_omitempty ''context'' (bc_Context b) @
     str_omitempty ''dockerfile'' (bc_Dockerfile b) @ map_omitempty ''args'' VStr (bc_Args b)"

definition source_json :: "SourceRef \<Rightarrow> payload" where
  "source_json s = [(''type'', VStr (src_Type s))] @
     str_omitempty ''owner'' (src_Owner s) @ str_omitempty ''repo'' (src_Repo s) @
     str_omitempty ''ref'' (src_Ref s) @ str_omitempty ''local_path'' (src_LocalPath s) @
     [(''archive_url'', VStr (src_ArchiveURL s))] @ str_omitempty ''token'' (src_Token s)"

definition expose_json :: "ExposeConfig \<Rightarrow> payload" where
  "expose_json e = [(''port'', VInt (ex_Port e))] @ str_omitempty ''hostname'' (ex_Hostname e)"

definition service_json :: "ServiceSpec \<Rightarrow> payload" where
  "service_json s =
     str_omitempty ''image'' (ss_Image s) @ ptr_omitempty ''build'' build_json (ss_Build s) @
     list_omitempty ''ports'' (ss_Ports s) @
     map_omitempty ''environment'' VStr (ss_Environment s) @
     list_omitempty ''volumes'' (ss_Volumes s) @ list_omitempty ''networks'' (ss_Networks s) @
     ptr_omitempty ''expose'' expose_json (ss_Expose s)"

definition network_json :: "NetworkSpec \<Rightarrow> payload" where
  "network_json n = [(''driver'', VStr (ns_Driver n)), (''name'', VStr (ns_Name n))]"

definition volume_json :: "VolumeSpec \<Rightarrow> payload" where
  "volume_json v = [(''driver'', VStr (vs_Driver v)), (''name'', VStr (vs_Name v))] @
     map_omitempty ''config'' VStr (vs_Config v)"

definition spec_json :: "DeploymentSpec \<Rightarrow> payload" where
  "spec_json d =
     [(''id'', VStr (ds_ID d)), (''slug'', VStr (ds_Slug d)), (''version'', VStr (ds_Version d))] @
     ptr_omitempty ''source'' source_json (ds_Source d) @
     [(''services'', case ds_ServiceMap d of
         None \<Rightarrow> VNull
       | Some m \<Rightarrow> VMap (map (map_prod id (VMap \<circ> service_json)) m))] @
     map_omitempty ''networks'' (VMap \<circ> network_json) (ds_Networks d) @
     map_omitempty ''volumes'' (VMap \<circ> volume_json) (ds_Volumes d)"

record json_codec =
  json_Marshal :: "payload \<Rightarrow> string + string"
  json_Unmarshal :: "string \<Rightarrow> string + payload"

section \<open>The handler\<close>

datatype deployment_error =
    MarshalSpec string
  | SaveState syscall_error
  | EmitEvent syscall_error
  | ExposeEvent syscall_error
  | GetState syscall_error
  | UnmarshalState string

fun deployment_error_text :: "deployment_error \<Rightarrow> string" where
  "deployment_error_text (MarshalSpec e) = ''failed to marshal deployment spec: '' @ e"
| "deployment_error_text (SaveState e) = ''failed to save state: '' @ syscall_error_text e"
| "deployment_error_text (EmitEvent e) = ''failed to emit event: '' @ syscall_error_text e"
| "deployment_error_text (ExposeEvent e) =
     ''failed to emit service exposure event: '' @ syscall_error_text e"
| "deployment_error_text (GetState e) = ''failed to get deployment state: '' @ syscall_error_text e"
| "deployment_error_text (UnmarshalState e) = ''failed to unmarshal deployment state: '' @ e"

definition exposure_payload :: "string \<Rightarrow> string \<Rightarrow> int \<Rightarrow> string \<Rightarrow> payload" where
  "exposure_payload deploymentID serviceName targetPort containerID =
     [(''deployment_id'', VStr deploymentID), (''service_name'', VStr serviceName),
      (''port'', VInt targetPort), (''container_id'', VStr containerID)]"

definition EmitServiceExposure ::
    "kernel \<Rightarrow> string \<Rightarrow> string \<Rightarrow> int \<Rightarrow> string \<Rightarrow> deployment_error option action" where
  "EmitServiceExposure K deploymentID serviceName targetPort containerID h =
     (case EmitDeploymentEvent K ''deployment.service.exposed'' deploymentID
             (exposure_payload deploymentID serviceName targetPort containerID) h of
        (Some e, h1) \<Rightarrow> (Some (ExposeEvent e), h1)
      | (None, h1) \<Rightarrow> (None, h1))"

text \<open>The body of the exposure loop: services without \<open>expose\<close> are skipped, errors are logged.\<close>

definition expose_one :: "kernel \<Rightarrow> string \<Rightarrow> string \<times> ServiceSpec \<Rightarrow> unit action" where
  "expose_one K deploymentID = (\<lambda>(svcName, svc) h.
     (case ss_Expose svc of
        None \<Rightarrow> ((), h)
      | Some ex \<Rightarrow> ((), snd (EmitServiceExposure K deploymentID svcName (ex_Port ex) [] h))))"

definition created_payload :: "DeploymentSpec \<Rightarrow> payload" where
  "created_payload spec =
     [(''slug'', VStr (ds_Slug spec)), (''version'', VStr (ds_Version spec)),
      (''services'', VInt (int (length (ds_Services spec))))]"

definition Deploy ::
    "kernel \<Rightarrow> json_codec \<Rightarrow> iter_order \<Rightarrow> DeploymentSpec \<Rightarrow> deployment_error option action" where
  "Deploy K J \<pi> spec h =
     (case json_Marshal J (spec_json spec) of
        Inl e \<Rightarrow> (Some (MarshalSpec e), h)
      | Inr stateBytes \<Rightarrow>
          (case SaveDeploymentState K (ds_ID spec) stateBytes h of
             (Some e, h1) \<Rightarrow> (Some (SaveState e), h1)
           | (None, h1) \<Rightarrow>
               (case EmitDeploymentEvent K ''deployment.created'' (ds_ID spec) (created_payload spec) h1 of
                  (Some e, h2) \<Rightarrow> (Some (EmitEvent e), h2)
                | (None, h2) \<Rightarrow>
                    (None, snd (for_each (expose_one K (ds_ID spec))
                                  (gm_range \<pi> R_DeployServices (ds_Services spec)) h2)))))"

definition Delete :: "kernel \<Rightarrow> string \<Rightarrow> deployment_error option action" where
  "Delete K deploymentID h =
     (case EmitDeploymentEvent K ''deployment.deleted'' deploymentID
             [(''deployment_id'', VStr deploymentID)] h of
        (Some e, h1) \<Rightarrow> (Some (EmitEvent e), h1)
      | (None, h1) \<Rightarrow> (None, h1))"

definition GetStatus ::
    "kernel \<Rightarrow> json_codec \<Rightarrow> string \<Rightarrow> (deployment_error + payload) action" where
  "GetStatus K J deploymentID h =
     (case GetDeploymentState K deploymentID h of
        (Inl e, h1) \<Rightarrow> (Inl (GetState e), h1)
      | (Inr stateBytes, h1) \<Rightarrow>
          (case json_Unmarshal J stateBytes of
             Inl e \<Rightarrow> (Inl (UnmarshalState e), h1)
           | Inr state \<Rightarrow> (Inr state, h1)))"

section \<open>What a round trip through JSON text keeps\<close>

text \<open>
  Decoding into \<open>map[string]interface{}\<close> turns numbers into \<open>float64\<close>; maps have no order,
  so values are compared after sorting their keys. The documented behaviour of the codec is
  stated for values JSON text carries unchanged: UTF-8 strings, integers a \<open>float64\<close> holds
  exactly, maps with distinct keys.
\<close>

fun decoded :: "gval \<Rightarrow> gval" where
  "decoded (VInt i) = VNum (show_int i)"
| "decoded (VList xs) = VList (map decoded xs)"
| "decoded (VMap m) = VMap (map (\<lambda>(k, v). (k, decoded v)) m)"
| "decoded v = v"

fun canon :: "gval \<Rightarrow> gval" where
  "canon (VList xs) = VList (map canon xs)"
| "canon (VMap m) = VMap (sort_key fst (map (\<lambda>(k, v). (k, canon v)) m))"
| "canon v = v"

fun json_plain :: "gval \<Rightarrow> bool" where
  "json_plain (VStr s) \<longleftrightarrow> utf8_valid s"
| "json_plain (VInt i) \<longleftrightarrow> \<bar>i\<bar> \<le> 2 ^ 53"
| "json_plain (VList xs) \<longleftrightarrow> (\<forall>x \<in> set xs. json_plain x)"
| "json_plain (VMap m) \<longleftrightarrow>
     distinct (map fst m) \<and> (\<forall>(k, v) \<in> set m. utf8_valid k \<and> json_plain v)"
| "json_plain _ \<longleftrightarrow> True"

definition codec_ok :: "json_codec \<Rightarrow> bool" where
  "codec_ok J \<longleftrightarrow>
     (\<forall>p s. json_plain (VMap p) \<longrightarrow> json_Marshal J p = Inr s \<longrightarrow>
        (\<exists>q. json_Unmarshal J s = Inr q \<and> canon (VMap q) = canon (decoded (VMap p))))"

section \<open>Lemmas\<close>

text \<open>Only an accepted write changes what the KV holds.\<close>

lemma kv_stored_no_put:
  "list_all (\<lambda>c. \<forall>k v. c \<noteq> KPutKV k v) cs \<Longrightarrow> kv_stored K (h @ cs) key = kv_stored K h key"
proof (induction cs rule: rev_induct)
  case (snoc c cs)
  then show ?case
    by (cases c) (auto simp: kv_stored_snoc simp flip: append_assoc)
qed simp

lemma kv_stored_other:
  "\<forall>v. KPutKV key v \<notin> set cs \<Longrightarrow> kv_stored K (h @ cs) key = kv_stored K h key"
proof (induction cs rule: rev_induct)
  case (snoc c cs)
  then show ?case
    by (cases c) (auto simp: kv_stored_snoc simp flip: append_assoc)
qed simp

lemma EmitDeploymentEvent_calls:
  "snd (EmitDeploymentEvent K t d p h) =
     (if k_struct_error K p = None then h @ [KEmitEvent (deployment_event t d p)] else h)"
  using kernel_emit.emit_eq [of K t d p h] by simp

lemma emit_keeps_kv: "kv_stored K (snd (EmitDeploymentEvent K t d p h)) key = kv_stored K h key"
  by (simp add: EmitDeploymentEvent_calls kv_stored_no_put)

definition exposure_call :: "string \<Rightarrow> string \<Rightarrow> ExposeConfig \<Rightarrow> call" where
  "exposure_call d svcName ex =
     KEmitEvent (deployment_event ''deployment.service.exposed'' d
                   (exposure_payload d svcName (ex_Port ex) []))"

text \<open>What one iteration of the exposure loop sends.\<close>

fun expose_calls :: "kernel \<Rightarrow> string \<Rightarrow> string \<times> ServiceSpec \<Rightarrow> call list" where
  "expose_calls K d (svcName, svc) =
     (case ss_Expose svc of
        None \<Rightarrow> []
      | Some ex \<Rightarrow>
          if k_struct_error K (exposure_payload d svcName (ex_Port ex) []) = None
          then [exposure_call d svcName ex] else [])"

lemma EmitServiceExposure_calls:
  "snd (EmitServiceExposure K d svcName p c h) =
     snd (EmitDeploymentEvent K ''deployment.service.exposed'' d (exposure_payload d svcName p c) h)"
  by (simp add: EmitServiceExposure_def split: prod.splits option.splits)

lemma expose_one_calls: "snd (expose_one K d x h) = h @ expose_calls K d x"
  by (cases x)
     (simp add: expose_one_def EmitServiceExposure_calls EmitDeploymentEvent_calls exposure_call_def
        split: option.splits)

interpretation expose_loop: logged_op "expose_one K d" "\<lambda>x _ cs. cs = expose_calls K d x"
  by unfold_locales (simp add: expose_one_calls)

text \<open>The exposures announced for a specification, in the order its services are given.\<close>

definition exposures :: "kernel \<Rightarrow> string \<Rightarrow> ServiceSpec gomap \<Rightarrow> call list" where
  "exposures K d svcs = concat (map (expose_calls K d) svcs)"

lemma expose_loop_calls:
  "snd (for_each (expose_one K d) svcs h) = h @ exposures K d svcs"
proof -
  obtain ts where ts: "map fst ts = svcs"
      "for_each (expose_one K d) svcs h = (map (fst \<circ> snd) ts, h @ concat (map (snd \<circ> snd) ts))"
      "\<And>x r cs. (x, r, cs) \<in> set ts \<Longrightarrow> cs = expose_calls K d x"
    using expose_loop.for_each_obtain by blast
  have "map (snd \<circ> snd) ts = map (expose_calls K d \<circ> fst) ts"
    using ts(3) by auto
  with ts(1,2) show ?thesis by (auto simp: exposures_def)
qed

lemma exposures_mset: "mset xs = mset ys \<Longrightarrow> mset (exposures K d xs) = mset (exposures K d ys)"
  by (simp add: exposures_def mset_concat_map)

lemma Deploy_cases [consumes 1, case_names marshal save emit ok]:
  assumes "Deploy K J \<pi> spec h = (r, h')"
  obtains e where "r = Some (MarshalSpec e)" "h' = h"
  | s e where "json_Marshal J (spec_json spec) = Inr s" "r = Some (SaveState e)"
      "h' = h @ [KPutKV (deployment_key (ds_ID spec)) s]"
  | s e h1 where "json_Marshal J (spec_json spec) = Inr s" "r = Some (EmitEvent e)"
      "SaveDeploymentState K (ds_ID spec) s h = (None, h1)"
      "h' = snd (EmitDeploymentEvent K ''deployment.created'' (ds_ID spec) (created_payload spec) h1)"
  | s h1 where "json_Marshal J (spec_json spec) = Inr s" "r = None"
      "SaveDeploymentState K (ds_ID spec) s h = (None, h1)"
      "h1 = h @ [KPutKV (deployment_key (ds_ID spec)) s]"
      "h' = h1 @ [KEmitEvent (deployment_event ''deployment.created'' (ds_ID spec) (created_payload spec))]
             @ exposures K (ds_ID spec) (gm_range \<pi> R_DeployServices (ds_Services spec))"
proof (cases "json_Marshal J (spec_json spec)")
  case (Inl e)
  then show ?thesis using that(1) assms by (auto simp: Deploy_def)
next
  case (Inr s)
  note marshal = this
  show ?thesis
  proof (cases rule: SaveDeploymentState_cases [of K "ds_ID spec" s h])
    case (failed e)
    then show ?thesis using that(2) [OF marshal] assms marshal by (auto simp: Deploy_def)
  next
    case saved
    obtain r2 h2 where em: "EmitDeploymentEvent K ''deployment.created'' (ds_ID spec)
        (created_payload spec) (h @ [KPutKV (deployment_key (ds_ID spec)) s]) = (r2, h2)"
      by fastforce
    show ?thesis
    proof (cases r2)
      case None
      then have "h2 = (h @ [KPutKV (deployment_key (ds_ID spec)) s]) @
          [KEmitEvent (deployment_event ''deployment.created'' (ds_ID spec) (created_payload spec))]"
        using em by (auto simp: EmitDeploymentEvent_def Let_def split: option.splits)
      then show ?thesis
        using that(4) [OF marshal _ saved(1) refl] assms marshal saved em None
        by (simp add: Deploy_def expose_loop_calls)
    next
      case (Some e)
      then show ?thesis
        using that(3) [OF marshal _ saved(1), of e] assms marshal saved em
        by (auto simp: Deploy_def)
    qed
  qed
qed

lemma exposures_no_put: "list_all (\<lambda>c. \<forall>k v. c \<noteq> KPutKV k v) (exposures K d svcs)"
  by (auto simp: exposures_def exposure_call_def list_all_iff split: option.splits)

lemma Deploy_stores:
  assumes "Deploy K J \<pi> spec h = (None, h')"
  obtains s where "json_Marshal J (spec_json spec) = Inr s"
    "kv_stored K h' (deployment_key (ds_ID spec)) = Some s"
  using assms
proof (cases rule: Deploy_cases)
  case (ok s h1)
  have "kv_stored K h1 (deployment_key (ds_ID spec)) = Some s"
    using ok(3) by (rule saved_is_stored)
  then have "kv_stored K h' (deployment_key (ds_ID spec)) = Some s"
    by (simp add: ok(5) kv_stored_no_put exposures_no_put)
  with ok(1) show ?thesis by (rule that)
qed auto

lemma GetStatus_calls: "snd (GetStatus K J d h) = h @ [KGetKV (deployment_key d)]"
  by (auto simp: GetStatus_def GetDeploymentState_def Let_def split: sum.splits prod.splits)

lemma GetStatus_Inr:
  assumes "GetStatus K J d h = (Inr st, h')"
  obtains s where "k_get_kv K h (deployment_key d) = Inr s" "json_Unmarshal J s = Inr st"
  using assms
  by (auto simp: GetStatus_def GetDeploymentState_def Let_def split: sum.splits prod.splits)

section \<open>Properties\<close>

text \<open>
  C8. What \<open>Deploy\<close> stored is what \<open>GetStatus\<close> reads back: as long as nobody writes the
  deployment's key in between, the read either reports the kernel's own error or returns a
  value equal to the specification's JSON value, up to the order of map keys and the decoding
  of numbers. It never fails to decode what it finds.
\<close>
theorem Deploy_GetStatus:
  assumes "Deploy K J \<pi> spec h = (None, h1)"
    and "kv_coherent K" and "codec_ok J" and "json_plain (VMap (spec_json spec))"
    and "\<forall>v. KPutKV (deployment_key (ds_ID spec)) v \<notin> set cs"
  shows "(\<exists>e. fst (GetStatus K J (ds_ID spec) (h1 @ cs)) = Inl (GetState (GetKVFailed e))) \<or>
    (\<exists>st. fst (GetStatus K J (ds_ID spec) (h1 @ cs)) = Inr st \<and>
       canon (VMap st) = canon (decoded (VMap (spec_json spec))))"
proof -
  obtain s where s: "json_Marshal J (spec_json spec) = Inr s"
      "kv_stored K h1 (deployment_key (ds_ID spec)) = Some s"
    using assms(1) by (rule Deploy_stores)
  have kept: "kv_stored K (h1 @ cs) (deployment_key (ds_ID spec)) = Some s"
    using kv_stored_other [OF assms(5)] s(2) by simp
  obtain q where q: "json_Unmarshal J s = Inr q" "canon (VMap q) = canon (decoded (VMap (spec_json spec)))"
    using assms(3,4) s(1) unfolding codec_ok_def by blast
  show ?thesis
  proof (cases "k_get_kv K (h1 @ cs) (deployment_key (ds_ID spec))")
    case (Inl e)
    then show ?thesis by (simp add: GetStatus_def GetDeploymentState_def Let_def)
  next
    case (Inr w)
    then have "w = s" using assms(2) kept unfolding kv_coherent_def by blast
    with Inr q show ?thesis by (simp add: GetStatus_def GetDeploymentState_def Let_def)
  qed
qed

definition kv_kernel :: kernel where
  "kv_kernel = sample_kernel\<lparr>k_get_kv := \<lambda>h key.
     case kv_stored sample_kernel h key of None \<Rightarrow> Inl ''not found'' | Some v \<Rightarrow> Inr v\<rparr>"

lemma kv_stored_kernel: "kv_stored kv_kernel h key = kv_stored sample_kernel h key"
proof (induction h rule: rev_induct)
  case Nil
  show ?case by (simp add: kv_stored_def)
next
  case (snoc c h)
  have "k_put_kv kv_kernel = k_put_kv sample_kernel" by (simp add: kv_kernel_def)
  with snoc show ?case by (cases c) (auto simp: kv_stored_snoc)
qed

definition web_spec :: DeploymentSpec where
  "web_spec =
     \<lparr>ds_ID = ''d1'', ds_Slug = ''shop'', ds_Version = ''2'', ds_Source = None,
      ds_ServiceMap = Some
        [(''web'', \<lparr>ss_Image = ''nginx'', ss_Build = None, ss_Ports = [''80:80''], ss_Environment = [],
             ss_Volumes = [], ss_Networks = [], ss_Expose = Some \<lparr>ex_Port = 80, ex_Hostname = []\<rparr>\<rparr>),
         (''db'', \<lparr>ss_Image = ''postgres'', ss_Build = None, ss_Ports = [], ss_Environment = [],
             ss_Volumes = [], ss_Networks = [], ss_Expose = None\<rparr>)],
      ds_Networks = [], ds_Volumes = []\<rparr>"

definition one_doc_codec :: json_codec where
  "one_doc_codec =
     \<lparr>json_Marshal = \<lambda>p. if p = spec_json web_spec then Inr ''doc'' else Inl ''unsupported'',
      json_Unmarshal = \<lambda>s. if s = ''doc''
        then Inr (map (\<lambda>(k, v). (k, decoded v)) (spec_json web_spec)) else Inl ''syntax''\<rparr>"

lemma one_doc_codec_ok: "codec_ok one_doc_codec"
  by (auto simp: codec_ok_def one_doc_codec_def split: if_splits)

definition web_calls :: "call list" where
  "web_calls =
     [KPutKV ''/deployments/d1'' ''doc'',
      KEmitEvent (deployment_event ''deployment.created'' ''d1''
        [(''slug'', VStr ''shop''), (''version'', VStr ''2''), (''services'', VInt 2)]),
      KEmitEvent (deployment_event ''deployment.service.exposed'' ''d1''
        [(''deployment_id'', VStr ''d1''), (''service_name'', VStr ''web''), (''port'', VInt 80),
         (''container_id'', VStr [])])]"

lemma web_deployed: "Deploy kv_kernel one_doc_codec stored_order web_spec [] = (None, web_calls)"
  by code_simp

theorem Deploy_GetStatus_witness:
  "(\<exists>e. fst (GetStatus kv_kernel one_doc_codec (ds_ID web_spec) (web_calls @ [])) =
      Inl (GetState (GetKVFailed e))) \<or>
    (\<exists>st. fst (GetStatus kv_kernel one_doc_codec (ds_ID web_spec) (web_calls @ [])) = Inr st \<and>
       canon (VMap st) = canon (decoded (VMap (spec_json web_spec))))"
proof (rule Deploy_GetStatus [OF web_deployed _ one_doc_codec_ok])
  show "kv_coherent kv_kernel"
    by (simp add: kv_coherent_def kv_stored_kernel) (simp add: kv_kernel_def)
  show "json_plain (VMap (spec_json web_spec))" by code_simp
qed simp

text \<open>
  The state is stored before anything is announced: a deployment that emits an event has
  first, as its first call, written the specification's JSON text under its own key, and the
  kernel accepted the write.
\<close>
theorem Deploy_saves_first:
  assumes "Deploy K J \<pi> spec h = (r, h @ cs)" and "KEmitEvent q \<in> set cs"
  shows "\<exists>s rest. cs = KPutKV (deployment_key (ds_ID spec)) s # rest \<and>
    json_Marshal J (spec_json spec) = Inr s \<and> k_put_kv K h (deployment_key (ds_ID spec)) s = None"
  using assms(1)
proof (cases rule: Deploy_cases)
  case (emit s e h1)
  then show ?thesis using assms(2)
    by (cases rule: SaveDeploymentState_cases [of K "ds_ID spec" s h])
       (auto simp: EmitDeploymentEvent_calls split: if_splits)
next
  case (ok s h1)
  then show ?thesis
    by (cases rule: SaveDeploymentState_cases [of K "ds_ID spec" s h]) auto
qed (use assms(2) in auto)

theorem Deploy_saves_first_witness:
  "\<exists>s rest. web_calls = KPutKV (deployment_key (ds_ID web_spec)) s # rest \<and>
    json_Marshal one_doc_codec (spec_json web_spec) = Inr s \<and>
    k_put_kv kv_kernel [] (deployment_key (ds_ID web_spec)) s = None"
  by (rule Deploy_saves_first [of kv_kernel one_doc_codec stored_order web_spec "[]" None web_calls
        "deployment_event ''deployment.created'' ''d1''
           [(''slug'', VStr ''shop''), (''version'', VStr ''2''), (''services'', VInt 2)]"])
     (use web_deployed in simp, simp add: web_calls_def)

text \<open>
  A successful deployment announces itself once and then every exposed service once, with its
  port and no other: whatever the iteration order, the calls after the two fixed ones are a
  permutation of the exposures of the specification. A failed announcement of a service does not
  fail the deployment.
\<close>
theorem Deploy_announces:
  assumes "Deploy K J \<pi> spec h = (None, h')" and "fair_order \<pi>" and "gm_wf (ds_Services spec)"
    and "\<forall>p. k_struct_error K p = None"
  shows "\<exists>s es. h' = h @ [KPutKV (deployment_key (ds_ID spec)) s,
        KEmitEvent (deployment_event ''deployment.created'' (ds_ID spec) (created_payload spec))] @ es \<and>
      mset es = mset (concat (map (\<lambda>(name, svc).
        case ss_Expose svc of
          None \<Rightarrow> []
        | Some ex \<Rightarrow> [KEmitEvent (deployment_event ''deployment.service.exposed'' (ds_ID spec)
            (exposure_payload (ds_ID spec) name (ex_Port ex) []))]) (ds_Services spec)))"
  using assms(1)
proof (cases rule: Deploy_cases)
  case (ok s h1)
  have "mset (exposures K (ds_ID spec) (gm_range \<pi> R_DeployServices (ds_Services spec))) =
      mset (exposures K (ds_ID spec) (ds_Services spec))"
    by (rule exposures_mset [OF mset_gm_range [OF assms(2,3)]])
  moreover have "exposures K (ds_ID spec) svcs = concat (map (\<lambda>(name, svc).
        case ss_Expose svc of
          None \<Rightarrow> []
        | Some ex \<Rightarrow> [KEmitEvent (deployment_event ''deployment.service.exposed'' (ds_ID spec)
            (exposure_payload (ds_ID spec) name (ex_Port ex) []))]) svcs)" for svcs
    using assms(4)
    by (auto simp: exposures_def exposure_call_def intro!: arg_cong [where f = concat]
          split: option.splits)
  ultimately show ?thesis using ok(4,5) by auto
qed auto

theorem Deploy_announces_witness:
  "\<exists>s es. web_calls = [] @ [KPutKV (deployment_key (ds_ID web_spec)) s,
        KEmitEvent (deployment_event ''deployment.created'' (ds_ID web_spec) (created_payload web_spec))] @ es \<and>
      mset es = mset (concat (map (\<lambda>(name, svc).
        case ss_Expose svc of
          None \<Rightarrow> []
        | Some ex \<Rightarrow> [KEmitEvent (deployment_event ''deployment.service.exposed'' (ds_ID web_spec)
            (exposure_payload (ds_ID web_spec) name (ex_Port ex) []))]) (ds_Services web_spec)))"
  by (rule Deploy_announces [OF web_deployed fair_stored])
     (simp_all add: web_spec_def gm_wf_def kv_kernel_def sample_kernel_def)

text \<open>
  \<open>Delete\<close> announces a deletion and deletes nothing: whatever its outcome, the stored state
  of every deployment is what it was.
\<close>
theorem Delete_keeps_state:
  "kv_stored K (snd (Delete K d h)) (deployment_key d') = kv_stored K h (deployment_key d')"
proof -
  obtain r h1 where e: "EmitDeploymentEvent K ''deployment.deleted'' d
      [(''deployment_id'', VStr d)] h = (r, h1)" by fastforce
  then have "kv_stored K h1 (deployment_key d') = kv_stored K h (deployment_key d')"
    using emit_keeps_kv [of K "''deployment.deleted''" d "[(''deployment_id'', VStr d)]" h] by simp
  with e show ?thesis by (cases r) (simp_all add: Delete_def)
qed

text \<open>
  A redacted source reference reveals of the token only whether there is one: references that
  differ in their non-empty tokens have the same redacted copy, and nothing else is changed.
\<close>
theorem Redacted_masks:
  assumes "t1 = [] \<longleftrightarrow> t2 = []"
  shows "Redacted (Some (c\<lparr>src_Token := t1\<rparr>)) = Redacted (Some (c\<lparr>src_Token := t2\<rparr>)) \<and>
    (\<exists>c'. Redacted (Some c) = Some c' \<and> src_Token c' \<in> {[], ''***''} \<and> c'\<lparr>src_Token := src_Token c\<rparr> = c)"
  using assms by (cases c) (auto simp: Redacted_def)

definition sample_source :: SourceRef where
  "sample_source = \<lparr>src_Type = ''github'', src_Owner = ''o'', src_Repo = ''r'', src_Ref = [],
     src_LocalPath = [], src_ArchiveURL = ''u'', src_Token = ''ghp_1''\<rparr>"

theorem Redacted_masks_witness:
  "Redacted (Some (sample_source\<lparr>src_Token := ''ghp_1''\<rparr>)) =
     Redacted (Some (sample_source\<lparr>src_Token := ''ghp_2''\<rparr>)) \<and>
   (\<exists>c'. Redacted (Some sample_source) = Some c' \<and> src_Token c' \<in> {[], ''***''} \<and>
      c'\<lparr>src_Token := src_Token sample_source\<rparr> = sample_source)"
  by (rule Redacted_masks) simp

end
