(* ===== verification/Secrets.thy ===== *)
theory Secrets
  imports Deployment
begin

text \<open>
  Secret placeholders (\<open>secretPattern\<close> and \<open>resolveSecrets\<close> in \<open>internal/compiler/compiler.go\<close>).
  The regular expression and \<open>ReplaceAllStringFunc\<close> are modelled as the left-to-right scan they
  are; a declarative reading of a value as a list of tokens is the specification they are proved
  against, and the calls the kernel sees are read off the tokens.
\<close>

section \<open>Secret placeholders\<close>

text \<open>The class \<open>[a-zA-Z0-9_\-\.\/]\<close>.\<close>

definition secret_char :: "char \<Rightarrow> bool" where
  "secret_char c \<longleftrightarrow> byte_in 97 122 c \<or> byte_in 65 90 c \<or> byte_in 48 57 c \<or>
     c \<in> {CHR ''_'', CHR ''-'', CHR ''.'', CHR ''/''}"

abbreviation secret_open :: string where
  "secret_open \<equiv> ''${secret:''"

text \<open>
  \<open>\$\{secret:(class+)\}\<close> matched at the start of a string: the key, and what follows. The class
  has no closing brace, so the greedy repetition never has to give characters back.
\<close>

definition match_secret :: "string \<Rightarrow> (string \<times> string) option" where
  "match_secret s =
     (if HasPrefix s secret_open then
        (let r = drop (length secret_open) s;
             key = takeWhile secret_char r;
             r' = dropWhile secret_char r
         in if key \<noteq> [] \<and> HasPrefix r' ''}'' then Some (key, drop 1 r') else None)
      else None)"

definition placeholder :: "string \<Rightarrow> string" where
  "placeholder key = secret_open @ key @ ''}''"

lemma length_secret_open: "length secret_open = 9"
  by simp

lemma match_secret_Some:
  "match_secret s = Some (key, rest) \<longleftrightarrow>
     s = placeholder key @ rest \<and> key \<noteq> [] \<and> list_all secret_char key"
proof
  assume "match_secret s = Some (key, rest)"
  then have p: "HasPrefix s secret_open"
    and k: "key = takeWhile secret_char (drop 9 s)" "key \<noteq> []"
    and r: "HasPrefix (dropWhile secret_char (drop 9 s)) ''}''"
      "rest = drop 1 (dropWhile secret_char (drop 9 s))"
    unfolding match_secret_def length_secret_open Let_def by (auto split: if_splits)
  have "s = secret_open @ drop 9 s"
    using p by (auto simp: HasPrefix_iff)
  also have "drop 9 s = key @ dropWhile secret_char (drop 9 s)"
    using k(1) by simp
  also have "dropWhile secret_char (drop 9 s) = ''}'' @ rest"
    using r by (auto simp: HasPrefix_iff)
  finally have "s = placeholder key @ rest" by (simp add: placeholder_def)
  moreover have "list_all secret_char key"
    unfolding k(1) list_all_iff by (blast dest: set_takeWhileD)
  ultimately show "s = placeholder key @ rest \<and> key \<noteq> [] \<and> list_all secret_char key"
    using k(2) by blast
next
  assume a: "s = placeholder key @ rest \<and> key \<noteq> [] \<and> list_all secret_char key"
  then have d: "drop 9 s = key @ CHR ''}'' # rest" by (simp add: placeholder_def)
  have b: "\<not> secret_char CHR ''}''" by (simp add: secret_char_def byte_in_def)
  have "takeWhile secret_char (drop 9 s) = key" "dropWhile secret_char (drop 9 s) = CHR ''}'' # rest"
    unfolding d using a b by (auto simp: list_all_iff takeWhile_append2 dropWhile_append2)
  moreover have "HasPrefix s secret_open"
    using a by (simp add: placeholder_def HasPrefix_def)
  ultimately show "match_secret s = Some (key, rest)"
    using a unfolding match_secret_def length_secret_open Let_def by (simp add: HasPrefix_def)
qed

lemma match_secret_shorter: "match_secret s = Some (key, rest) \<Longrightarrow> length rest < length s"
  by (auto simp: match_secret_Some placeholder_def)

text \<open>
  \<open>ReplaceAllStringFunc\<close>: the matches from left to right, each replaced by what the callback
  returns; the callback may read and write variables of the enclosing function.
\<close>

function replace_all :: "(string \<Rightarrow> 's \<Rightarrow> string \<times> 's) \<Rightarrow> string \<Rightarrow> 's \<Rightarrow> string \<times> 's" where
  "replace_all repl [] st = ([], st)"
| "replace_all repl (c # s) st =
     (case match_secret (c # s) of
        Some (key, rest) \<Rightarrow>
          (let (r, st1) = repl (placeholder key) st; (t, st2) = replace_all repl rest st1
           in (r @ t, st2))
      | None \<Rightarrow> (let (t, st1) = replace_all repl s st in (c # t, st1)))"
  by pat_completeness auto
termination
  by (relation "measure (\<lambda>(repl, s, st). length s)") (auto dest: match_secret_shorter)

text \<open>\<open>FindStringSubmatch\<close>, reduced to the key of the leftmost match.\<close>

fun find_submatch :: "string \<Rightarrow> string option" where
  "find_submatch [] = None"
| "find_submatch (c # s) =
     (case match_secret (c # s) of Some (key, rest) \<Rightarrow> Some key | None \<Rightarrow> find_submatch s)"

declare replace_all.simps(2) [simp del]

section \<open>Resolving secrets\<close>

datatype compile_error =
    NilSpec
  | MissingID
  | ResolveSecret string string syscall_error \<comment> \<open>secret key, variable\<close>
  | ServiceSecrets string compile_error

text \<open>\<open>quote\<close> is \<open>strconv.Quote\<close>, the \<open>%q\<close> verb.\<close>

fun compile_error_text :: "(string \<Rightarrow> string) \<Rightarrow> compile_error \<Rightarrow> string" where
  "compile_error_text quote NilSpec = ''deployment spec is nil''"
| "compile_error_text quote MissingID = ''deployment spec missing ID''"
| "compile_error_text quote (ResolveSecret secretKey key e) =
     ''failed to resolve secret '' @ quote secretKey @ '' for env var '' @ quote key @ '': '' @
     syscall_error_text e"
| "compile_error_text quote (ServiceSecrets name e) =
     ''failed to resolve secrets for service '' @ name @ '': '' @ compile_error_text quote e"

text \<open>The callback: \<open>resolveErr\<close> and the history are the state it shares with the loop body.\<close>

definition resolve_match ::
    "kernel \<Rightarrow> string \<Rightarrow> string \<Rightarrow> compile_error option \<times> history \<Rightarrow>
       string \<times> compile_error option \<times> history" where
  "resolve_match K key match = (\<lambda>(resolveErr, h).
     (if resolveErr \<noteq> None then (match, resolveErr, h)
      else case find_submatch match of
        None \<Rightarrow> (match, resolveErr, h)
      | Some secretKey \<Rightarrow>
          (case GetSecret K secretKey h of
             (Inl e, h1) \<Rightarrow> (match, Some (ResolveSecret secretKey key e), h1)
           | (Inr secretValue, h1) \<Rightarrow> (secretValue, resolveErr, h1))))"

text \<open>The body of the loop for one variable.\<close>

definition resolve_var :: "kernel \<Rightarrow> string \<Rightarrow> string \<Rightarrow> (compile_error + string) action" where
  "resolve_var K key value h =
     (if \<not> Contains value secret_open then (Inr value, h)
      else
        (case replace_all (resolve_match K key) value (None, h) of
           (resolvedValue, Some resolveErr, h1) \<Rightarrow> (Inl resolveErr, h1)
         | (resolvedValue, None, h1) \<Rightarrow> (Inr resolvedValue, h1)))"

fun resolve_entries ::
    "kernel \<Rightarrow> string gomap \<Rightarrow> string gomap \<Rightarrow> (compile_error + string gomap) action" where
  "resolve_entries K [] resolved h = (Inr resolved, h)"
| "resolve_entries K ((key, value) # env) resolved h =
     (case resolve_var K key value h of
        (Inl resolveErr, h1) \<Rightarrow> (Inl resolveErr, h1)
      | (Inr resolvedValue, h1) \<Rightarrow>
          resolve_entries K env (AList.update key resolvedValue resolved) h1)"

definition resolveSecrets ::
    "kernel option \<Rightarrow> iter_order \<Rightarrow> string \<Rightarrow> string gomap \<Rightarrow> (compile_error + string gomap) action" where
  "resolveSecrets client \<pi> name env h =
     (case client of
        None \<Rightarrow> (Inr env, h)
      | Some K \<Rightarrow> resolve_entries K (gm_range \<pi> (R_CompileEnv name) env) [] h)"

section \<open>A value as tokens\<close>

text \<open>
  The declarative reading of an environment value: literal characters and references. It is the
  specification of the scan: no definition below mentions the callback or its state.
\<close>

datatype token = Lit char | Ref string

fun untoken :: "token \<Rightarrow> string" where
  "untoken (Lit c) = [c]"
| "untoken (Ref key) = placeholder key"

function tokenize :: "string \<Rightarrow> token list" where
  "tokenize [] = []"
| "tokenize (c # s) =
     (case match_secret (c # s) of
        Some (key, rest) \<Rightarrow> Ref key # tokenize rest
      | None \<Rightarrow> Lit c # tokenize s)"
  by pat_completeness auto
termination
  by (relation "measure length") (auto dest: match_secret_shorter)

declare tokenize.simps(2) [simp del]

definition refs :: "token list \<Rightarrow> string list" where
  "refs ts = concat (map (\<lambda>t. case t of Lit c \<Rightarrow> [] | Ref k \<Rightarrow> [k]) ts)"

lemma refs_simps [simp]:
  "refs [] = []" "refs (Lit c # ts) = refs ts" "refs (Ref k # ts) = k # refs ts"
  by (simp_all add: refs_def)

lemma refs_append [simp]: "refs (ts @ us) = refs ts @ refs us"
  by (simp add: refs_def)

definition valid_key :: "string \<Rightarrow> bool" where
  "valid_key k \<longleftrightarrow> k \<noteq> [] \<and> list_all secret_char k"

lemma match_secret_valid:
  "match_secret s = Some (key, rest) \<longleftrightarrow> s = placeholder key @ rest \<and> valid_key key"
  by (simp add: match_secret_Some valid_key_def)

lemma tokenize_Ref: "valid_key k \<Longrightarrow> tokenize (placeholder k @ s) = Ref k # tokenize s"
proof -
  assume "valid_key k"
  then have "match_secret (placeholder k @ s) = Some (k, s)" by (simp add: match_secret_valid)
  then show ?thesis
    by (cases "placeholder k @ s") (auto simp: tokenize.simps(2) placeholder_def)
qed

lemma tokenize_Lit: "match_secret (c # s) = None \<Longrightarrow> tokenize (c # s) = Lit c # tokenize s"
  by (simp add: tokenize.simps(2))

lemma tokenize_cases [case_names Nil Ref Lit]:
  obtains "s = []" | k r where "s = placeholder k @ r" "valid_key k" "match_secret s = Some (k, r)"
  | c r where "s = c # r" "match_secret s = None"
  by (cases s; cases "match_secret s") (auto simp: match_secret_valid)

lemma tokenize_induct [case_names Nil Ref Lit]:
  assumes "P []"
    and "\<And>k r. valid_key k \<Longrightarrow> P r \<Longrightarrow> P (placeholder k @ r)"
    and "\<And>c r. match_secret (c # r) = None \<Longrightarrow> P r \<Longrightarrow> P (c # r)"
  shows "P s"
proof (induction s rule: tokenize.induct)
  case (2 c s)
  show ?case
  proof (cases "match_secret (c # s)")
    case None
    then show ?thesis using 2 assms(3) by blast
  next
    case (Some kr)
    then obtain k r where "match_secret (c # s) = Some (k, r)" by (cases kr) auto
    then show ?thesis using 2 assms(2) by (auto simp: match_secret_valid)
  qed
qed (rule assms(1))

lemma untoken_tokenize: "concat (map untoken (tokenize s)) = s"
  by (induction s rule: tokenize_induct) (auto simp: tokenize_Ref tokenize_Lit)

lemma refs_valid: "k \<in> set (refs (tokenize s)) \<Longrightarrow> valid_key k"
  by (induction s rule: tokenize_induct) (auto simp: tokenize_Ref tokenize_Lit)

text \<open>A placeholder has a dollar sign at its start only, so two of them never overlap.\<close>

lemma no_dollar: "valid_key k \<Longrightarrow> CHR ''$'' \<notin> set (tl (placeholder k))"
proof
  assume k: "valid_key k" and d: "CHR ''$'' \<in> set (tl (placeholder k))"
  have "\<not> secret_char CHR ''$''" by (simp add: secret_char_def byte_in_def)
  then have "CHR ''$'' \<notin> set k" using k by (auto simp: valid_key_def list_all_iff)
  with d show False by (simp add: placeholder_def)
qed

lemma match_secret_before:
  assumes k: "valid_key k" and n: "match_secret (c # a) = None"
  shows "match_secret ((c # a) @ placeholder k @ b) = None"
proof (rule ccontr)
  assume "match_secret ((c # a) @ placeholder k @ b) \<noteq> None"
  then obtain k' r where m: "(c # a) @ placeholder k @ b = placeholder k' @ r" "valid_key k'"
    by (auto simp: match_secret_valid)
  then consider us where "c # a = placeholder k' @ us"
    | us where "(c # a) @ us = placeholder k'" "placeholder k @ b = us @ r"
    using append_eq_append_conv2 [THEN iffD1, OF m(1)] by blast
  then show False
  proof cases
    case 1
    then show False using n m(2) by (metis match_secret_valid option.discI)
  next
    case 2
    show False
    proof (cases us)
      case Nil
      then show False using 2 n m(2) by (metis append_Nil2 match_secret_valid option.discI)
    next
      case (Cons d us')
      then have "d = CHR ''$''" using 2(2) by (simp add: placeholder_def)
      moreover have "d \<in> set (tl (placeholder k'))"
        using 2(1) Cons by (metis append_Cons in_set_conv_decomp list.sel(3))
      ultimately show False using no_dollar [OF m(2)] by blast
    qed
  qed
qed

lemma tokenize_placeholder:
  assumes "valid_key k"
  shows "tokenize (a @ placeholder k @ b) = tokenize a @ Ref k # tokenize b"
proof (induction a rule: tokenize_induct)
  case Nil
  then show ?case using assms by (simp add: tokenize_Ref)
next
  case (Ref k' r)
  then show ?case by (simp add: tokenize_Ref)
next
  case (Lit c r)
  with match_secret_before [OF assms Lit(1)] show ?case
    by (simp add: tokenize_Lit)
qed

lemma tokenize_no_open: "\<not> Contains s secret_open \<Longrightarrow> tokenize s = map Lit s"
proof (induction s rule: tokenize_induct)
  case (Ref k r)
  then show ?case by (auto simp: Contains_iff placeholder_def)
next
  case (Lit c r)
  have "\<not> Contains r secret_open"
    using Lit.prems by (auto simp: Contains_iff) (metis append_Cons)
  with Lit show ?case by (simp add: tokenize_Lit)
qed simp

lemma find_submatch_placeholder: "valid_key k \<Longrightarrow> find_submatch (placeholder k) = Some k"
proof -
  assume "valid_key k"
  then have "match_secret (placeholder k) = Some (k, [])" by (simp add: match_secret_valid)
  then show ?thesis by (cases "placeholder k") (auto simp: placeholder_def)
qed

section \<open>Resolution against the token reading\<close>

text \<open>
  Substituting the references of a token list from left to right, stopping at the first that
  cannot be fetched: what the loop with its error flag is meant to compute.
\<close>

fun subst_tokens :: "(string \<Rightarrow> ('e + string) action) \<Rightarrow> (string \<Rightarrow> 'e \<Rightarrow> 'd) \<Rightarrow> token list \<Rightarrow>
    ('d + string) action" where
  "subst_tokens fetch err [] h = (Inr [], h)"
| "subst_tokens fetch err (Lit c # ts) h =
     (let (r, h1) = subst_tokens fetch err ts h in (map_sum id (Cons c) r, h1))"
| "subst_tokens fetch err (Ref k # ts) h =
     (case fetch k h of
        (Inl e, h1) \<Rightarrow> (Inl (err k e), h1)
      | (Inr v, h1) \<Rightarrow>
          (let (r, h2) = subst_tokens fetch err ts h1 in (map_sum id (append v) r, h2)))"

definition resolve_value :: "kernel \<Rightarrow> string \<Rightarrow> string \<Rightarrow> (compile_error + string) action" where
  "resolve_value K key value =
     subst_tokens (GetSecret K) (\<lambda>k e. ResolveSecret k key e) (tokenize value)"

lemma resolve_match_simps:
  "valid_key k \<Longrightarrow> GetSecret K k h = (Inr v, h1) \<Longrightarrow>
     resolve_match K key (placeholder k) (None, h) = (v, None, h1)"
  "valid_key k \<Longrightarrow> GetSecret K k h = (Inl e, h1) \<Longrightarrow>
     resolve_match K key (placeholder k) (None, h) = (placeholder k, Some (ResolveSecret k key e), h1)"
  "resolve_match K key m (Some e', h) = (m, Some e', h)"
  by (simp_all add: resolve_match_def find_submatch_placeholder)

text \<open>Once an error is recorded the rest of the value is copied and nothing is fetched.\<close>

lemma replace_all_failed:
  "replace_all (resolve_match K key) s (Some e, h) = (s, Some e, h)"
proof (induction s rule: tokenize_induct)
  case (Ref k r)
  then have "match_secret (placeholder k @ r) = Some (k, r)" by (simp add: match_secret_valid)
  moreover obtain c s where c: "placeholder k @ r = c # s" by (simp add: placeholder_def)
  ultimately show ?case
    using Ref.IH unfolding c by (simp add: replace_all.simps(2) resolve_match_simps) (simp flip: c)
next
  case (Lit c r)
  then show ?case by (simp add: replace_all.simps(2))
qed simp

lemma replace_all_resolves:
  "(case replace_all (resolve_match K key) s (None, h) of
      (v, None, h1) \<Rightarrow> (Inr v, h1) | (v, Some e, h1) \<Rightarrow> (Inl e, h1)) = resolve_value K key s h"
proof (induction s arbitrary: h rule: tokenize_induct)
  case Nil
  show ?case by (simp add: resolve_value_def)
next
  case (Ref k r)
  have m: "match_secret (placeholder k @ r) = Some (k, r)" using Ref by (simp add: match_secret_valid)
  obtain c s where c: "placeholder k @ r = c # s" by (simp add: placeholder_def)
  have s: "replace_all (resolve_match K key) (placeholder k @ r) st =
      (let (v, st1) = resolve_match K key (placeholder k) st;
           (t, st2) = replace_all (resolve_match K key) r st1 in (v @ t, st2))" for st
    using m unfolding c by (simp add: replace_all.simps(2))
  have t: "resolve_value K key (placeholder k @ r) h =
      (case GetSecret K k h of (Inl e, h1) \<Rightarrow> (Inl (ResolveSecret k key e), h1)
       | (Inr v, h1) \<Rightarrow> (let (r, h2) = resolve_value K key r h1 in (map_sum id (append v) r, h2)))"
    using Ref(1) unfolding resolve_value_def by (simp add: tokenize_Ref)
  obtain a h1 where g: "GetSecret K k h = (a, h1)" by fastforce
  show ?case
  proof (cases a)
    case (Inl e)
    then show ?thesis
      using Ref(1) g by (simp add: s t resolve_match_simps replace_all_failed)
  next
    case (Inr v)
    have "resolve_match K key (placeholder k) (None, h) = (v, None, h1)"
      using Ref(1) g Inr by (simp add: resolve_match_simps)
    then show ?thesis
      using Ref(2) [of h1, symmetric] g Inr
      by (simp add: s t Let_def split: prod.splits option.splits)
  qed
next
  case (Lit c r)
  have t: "resolve_value K key (c # r) h =
      (let (v, h1) = resolve_value K key r h in (map_sum id (Cons c) v, h1))"
    using Lit(1) unfolding resolve_value_def by (simp add: tokenize_Lit)
  show ?case
    using Lit(1) Lit(2) [of h, symmetric]
    by (simp add: t replace_all.simps(2) Let_def split: prod.splits option.splits)
qed

text \<open>
  The values fetched for a list of keys, each asked for after the ones before it, and a token
  list with its references filled in from left to right.
\<close>

fun fetched :: "(string \<Rightarrow> ('e + string) action) \<Rightarrow> (string \<Rightarrow> call) \<Rightarrow> string list \<Rightarrow>
    string list \<Rightarrow> history \<Rightarrow> bool" where
  "fetched fetch fetch_call [] vs h \<longleftrightarrow> vs = []"
| "fetched fetch fetch_call (k # ks) vs h \<longleftrightarrow>
     (case vs of
        [] \<Rightarrow> False
      | v # vs' \<Rightarrow> fst (fetch k h) = Inr v \<and> fetched fetch fetch_call ks vs' (h @ [fetch_call k]))"

fun fill :: "token list \<Rightarrow> string list \<Rightarrow> string" where
  "fill [] vs = []"
| "fill (Lit c # ts) vs = c # fill ts vs"
| "fill (Ref k # ts) vs = (case vs of [] \<Rightarrow> [] | v # vs' \<Rightarrow> v @ fill ts vs')"

text \<open>
  A source of secrets: a fetch is one call. Substitution then calls it for the references in
  order, for all of them exactly when it succeeds.
\<close>

locale secret_source =
  fixes fetch :: "string \<Rightarrow> history \<Rightarrow> ('e + string) \<times> history"
    and fetch_call :: "string \<Rightarrow> call"
  assumes fetch_one: "snd (fetch k h) = h @ [fetch_call k]"
begin

lemma subst_Inr:
  assumes "subst_tokens fetch err ts h = (Inr s, h')"
  obtains vs where "h' = h @ map fetch_call (refs ts)" "fetched fetch fetch_call (refs ts) vs h" "s = fill ts vs"
proof -
  have "\<exists>vs. h' = h @ map fetch_call (refs ts) \<and> fetched fetch fetch_call (refs ts) vs h \<and> s = fill ts vs"
    using assms
  proof (induction ts arbitrary: h s)
    case (Cons t ts)
    show ?case
    proof (cases t)
      case (Lit c)
      then obtain s' where "subst_tokens fetch err ts h = (Inr s', h')" "s = c # s'"
        using Cons.prems by (auto simp: Let_def split: prod.splits sum.splits) (metis map_sum.simps sum.distinct sum.inject sum.exhaust)
      with Cons.IH show ?thesis by (force simp: Lit)
    next
      case (Ref k)
      then obtain v s' where v: "fetch k h = (Inr v, h @ [fetch_call k])"
          "subst_tokens fetch err ts (h @ [fetch_call k]) = (Inr s', h')" "s = v @ s'"
        using Cons.prems fetch_one [of k h]
        by (cases "subst_tokens fetch err ts (h @ [fetch_call k])")
           (auto simp: Let_def split: prod.splits sum.splits, metis map_sum.simps sum.distinct sum.inject sum.exhaust)
      from Cons.IH [OF v(2)] obtain vs where
        "h' = (h @ [fetch_call k]) @ map fetch_call (refs ts)"
        "fetched fetch fetch_call (refs ts) vs (h @ [fetch_call k])" "s' = fill ts vs" by blast
      with v show ?thesis by (intro exI [of _ "v # vs"]) (simp add: Ref)
    qed
  qed simp
  then show ?thesis using that by blast
qed

lemma subst_Inl:
  assumes "subst_tokens fetch err ts h = (Inl d, h')"
  obtains ks k ks' e where "refs ts = ks @ k # ks'" "h' = h @ map fetch_call (ks @ [k])"
    "d = err k e" "fst (fetch k (h @ map fetch_call ks)) = Inl e"
proof -
  have "\<exists>ks k ks' e. refs ts = ks @ k # ks' \<and> h' = h @ map fetch_call (ks @ [k]) \<and>
      d = err k e \<and> fst (fetch k (h @ map fetch_call ks)) = Inl e"
    using assms
  proof (induction ts arbitrary: h)
    case (Cons t ts)
    show ?case
    proof (cases t)
      case (Lit c)
      then have "subst_tokens fetch err ts h = (Inl d, h')"
        using Cons.prems
        by (cases "subst_tokens fetch err ts h"; cases "fst (subst_tokens fetch err ts h)") auto
      with Cons.IH show ?thesis by (simp add: Lit)
    next
      case (Ref k)
      show ?thesis
      proof (cases "fetch k h")
        case (Pair a h1)
        then have h1: "h1 = h @ [fetch_call k]" using fetch_one [of k h] by simp
        show ?thesis
        proof (cases a)
          case (Inl e)
          then show ?thesis
            using Cons.prems Pair h1
            by (intro exI [of _ "[]"] exI [of _ k] exI [of _ "refs ts"] exI [of _ e]) (simp add: Ref)
        next
          case (Inr v)
          then have "subst_tokens fetch err ts h1 = (Inl d, h')"
            using Cons.prems Pair Ref
            by (cases "subst_tokens fetch err ts h1"; cases "fst (subst_tokens fetch err ts h1)") auto
          from Cons.IH [OF this] obtain ks k' ks' e where
            "refs ts = ks @ k' # ks'" "h' = h1 @ map fetch_call (ks @ [k'])"
            "d = err k' e" "fst (fetch k' (h1 @ map fetch_call ks)) = Inl e" by blast
          then show ?thesis
            by (intro exI [of _ "k # ks"] exI [of _ k'] exI [of _ ks'] exI [of _ e])
               (simp add: Ref h1)
        qed
      qed
    qed
  qed simp
  then show ?thesis using that by blast
qed

end

interpretation kernel_secrets: secret_source "GetSecret K" KGetSecret
  using kernel_secret.op_spec by unfold_locales auto

section \<open>Environments\<close>

lemma subst_tokens_Lits: "subst_tokens fetch err (map Lit s) h = (Inr s, h)"
  by (induction s) simp_all

lemma resolve_var_value: "resolve_var K key value h = resolve_value K key value h"
proof (cases "Contains value secret_open")
  case True
  have "resolve_var K key value h =
      (case replace_all (resolve_match K key) value (None, h) of
         (v, None, h1) \<Rightarrow> (Inr v, h1) | (v, Some e, h1) \<Rightarrow> (Inl e, h1))"
    using True by (simp add: resolve_var_def split: prod.splits option.splits)
  then show ?thesis by (simp add: replace_all_resolves)
next
  case False
  then show ?thesis
    by (simp add: resolve_var_def resolve_value_def tokenize_no_open subst_tokens_Lits)
qed

definition value_resolved :: "kernel \<Rightarrow> string \<Rightarrow> string \<Rightarrow> bool" where
  "value_resolved K value value' \<longleftrightarrow>
     (\<exists>h vs. fetched (GetSecret K) KGetSecret (refs (tokenize value)) vs h \<and>
             value' = fill (tokenize value) vs)"

definition env_resolved :: "kernel \<Rightarrow> string gomap \<Rightarrow> string gomap \<Rightarrow> bool" where
  "env_resolved K env env' \<longleftrightarrow>
     (\<forall>k. rel_option (value_resolved K) (map_of env k) (map_of env' k))"

definition env_refs :: "string gomap \<Rightarrow> string list" where
  "env_refs env = concat (map (\<lambda>(k, v). refs (tokenize v)) env)"

lemma env_refs_simps [simp]:
  "env_refs [] = []" "env_refs ((k, v) # env) = refs (tokenize v) @ env_refs env"
  by (simp_all add: env_refs_def)

lemma resolve_var_Inr:
  assumes "resolve_var K key value h = (Inr v, h')"
  shows "h' = h @ map KGetSecret (refs (tokenize value))" "value_resolved K value v"
  using assms unfolding resolve_var_value resolve_value_def value_resolved_def
  by (auto elim!: kernel_secrets.subst_Inr)

lemma resolve_var_Inl:
  assumes "resolve_var K key value h = (Inl d, h')"
  obtains ks k ks' e where "refs (tokenize value) = ks @ k # ks'"
    "h' = h @ map KGetSecret (ks @ [k])" "d = ResolveSecret k key e"
    "fst (GetSecret K k (h @ map KGetSecret ks)) = Inl e"
  using assms unfolding resolve_var_value resolve_value_def
  by (rule kernel_secrets.subst_Inl)

lemma resolve_entries_Inr:
  assumes "resolve_entries K env acc h = (Inr out, h')" and "gm_wf env"
  shows "h' = h @ map KGetSecret (env_refs env) \<and>
    (\<forall>k. case map_of env k of Some v \<Rightarrow> \<exists>v'. map_of out k = Some v' \<and> value_resolved K v v'
         | None \<Rightarrow> map_of out k = map_of acc k) \<and> (gm_wf acc \<longrightarrow> gm_wf out)"
  using assms
proof (induction env arbitrary: acc h)
  case (Cons kv env)
  obtain key val where kv: "kv = (key, val)" by fastforce
  obtain v h1 where r: "resolve_var K key val h = (Inr v, h1)"
      "resolve_entries K env (AList.update key v acc) h1 = (Inr out, h')"
    using Cons.prems(1) kv by (auto split: prod.splits sum.splits)
  have wf: "gm_wf env" "map_of env key = None"
    using Cons.prems(2) by (auto simp: kv gm_wf_def map_of_eq_None_iff)
  note IH = Cons.IH [OF r(2) wf(1)]
  have out: "case map_of env k of Some v \<Rightarrow> \<exists>v'. map_of out k = Some v' \<and> value_resolved K v v'
      | None \<Rightarrow> map_of out k = map_of (AList.update key v acc) k" for k
    using IH by blast
  have "case map_of (kv # env) k of Some v \<Rightarrow> \<exists>v'. map_of out k = Some v' \<and> value_resolved K v v'
      | None \<Rightarrow> map_of out k = map_of acc k" for k
    using out [of k] wf(2) resolve_var_Inr(2) [OF r(1)]
    by (cases "k = key"; cases "map_of env k") (auto simp: kv gomap_simps)
  moreover have "h' = h @ map KGetSecret (env_refs (kv # env))"
    using IH resolve_var_Inr(1) [OF r(1)] by (simp add: kv)
  moreover have "gm_wf acc \<longrightarrow> gm_wf out" using IH by simp
  ultimately show ?case by blast
qed simp

lemma resolve_entries_Inl:
  assumes "resolve_entries K env acc h = (Inl d, h')"
  obtains key val ks k ks' e where "(key, val) \<in> set env"
    "refs (tokenize val) = ks @ k # ks'" "d = ResolveSecret k key e"
    "\<exists>h0. h' = (h @ map KGetSecret h0) @ [KGetSecret k] \<and>
       fst (GetSecret K k (h @ map KGetSecret h0)) = Inl e"
proof -
  have "\<exists>key val ks k ks' e h0. (key, val) \<in> set env \<and>
    refs (tokenize val) = ks @ k # ks' \<and> d = ResolveSecret k key e \<and>
    h' = (h @ map KGetSecret h0) @ [KGetSecret k] \<and>
    fst (GetSecret K k (h @ map KGetSecret h0)) = Inl e"
    using assms
  proof (induction env arbitrary: acc h)
    case (Cons kv env)
    obtain key val where kv: "kv = (key, val)" by fastforce
    obtain r h1 where r: "resolve_var K key val h = (r, h1)" by fastforce
    show ?case
    proof (cases r)
      case (Inl e)
      then have "resolve_var K key val h = (Inl d, h')" using Cons.prems r kv by simp
      then obtain ks k ks' e where "refs (tokenize val) = ks @ k # ks'"
          "h' = h @ map KGetSecret (ks @ [k])" "d = ResolveSecret k key e"
          "fst (GetSecret K k (h @ map KGetSecret ks)) = Inl e"
        by (rule resolve_var_Inl)
      then show ?thesis unfolding kv by fastforce
    next
      case (Inr v)
      then have h1: "h1 = h @ map KGetSecret (refs (tokenize val))"
        using r resolve_var_Inr(1) by blast
      have "resolve_entries K env (AList.update key v acc) h1 = (Inl d, h')"
        using Cons.prems r kv Inr by simp
      from Cons.IH [OF this] obtain key' val' ks k ks' e h0 where
        "(key', val') \<in> set env" "refs (tokenize val') = ks @ k # ks'"
        "d = ResolveSecret k key' e" "h' = (h1 @ map KGetSecret h0) @ [KGetSecret k]"
        "fst (GetSecret K k (h1 @ map KGetSecret h0)) = Inl e" by blast
      then show ?thesis
        by (intro exI [of _ key'] exI [of _ val'] exI [of _ ks] exI [of _ k] exI [of _ ks']
              exI [of _ e] exI [of _ "refs (tokenize val) @ h0"]) (simp add: h1)
    qed
  qed simp
  then show ?thesis using that by blast
qed

lemma run_replace_all:
  assumes "valid_key k"
  shows "replace_all repl (a @ placeholder k @ b) st =
    (let (x, st1) = replace_all repl a st;
         (y, st2) = repl (placeholder k) st1;
         (z, st3) = replace_all repl b st2 in (x @ y @ z, st3))"
proof -
  have ref: "replace_all repl (placeholder k' @ r) st =
      (let (y, st1) = repl (placeholder k') st; (z, st2) = replace_all repl r st1 in (y @ z, st2))"
    if "valid_key k'" for k' r st
  proof -
    have m: "match_secret (placeholder k' @ r) = Some (k', r)"
      using that by (simp add: match_secret_valid)
    obtain c s where c: "placeholder k' @ r = c # s" by (simp add: placeholder_def)
    show ?thesis using m unfolding c by (simp add: replace_all.simps(2))
  qed
  show ?thesis
  proof (induction a arbitrary: st rule: tokenize_induct)
    case Nil
    show ?case using ref [OF assms] by (simp add: split_beta Let_def)
  next
    case (Ref k' r)
    then show ?case using ref [OF Ref(1)] by (simp add: split_beta Let_def)
  next
    case (Lit c r)
    with match_secret_before [OF assms Lit(1)] show ?case
      by (simp add: replace_all.simps(2) split_beta Let_def)
  qed
qed

section \<open>Properties\<close>

text \<open>
  C12. Resolving a variable (guard, regular expression, callback and error flag) is the
  left-to-right substitution of the references of the value, stopping at the first the kernel
  refuses; and the token reading it is stated over loses nothing of the value.
\<close>
theorem resolve_var_refines:
  "resolve_var K key val h =
     subst_tokens (GetSecret K) (\<lambda>k e. ResolveSecret k key e) (tokenize val) h \<and>
   concat (map untoken (tokenize val)) = val"
  by (simp add: resolve_var_value resolve_value_def untoken_tokenize)

text \<open>
  Every well-formed placeholder is replaced wherever it stands: the scan of a text around
  it is the scan of what precedes it, the callback on the placeholder, and the scan of what
  follows, in this order and with the callback's state passed along.
\<close>
theorem replace_all_placeholder:
  assumes "valid_key k"
  shows "replace_all repl (a @ placeholder k @ b) st =
    (let (x, st1) = replace_all repl a st;
         (y, st2) = repl (placeholder k) st1;
         (z, st3) = replace_all repl b st2 in (x @ y @ z, st3))"
  using assms by (rule run_replace_all)

theorem replace_all_placeholder_witness:
  "replace_all (\<lambda>m n. (''X'', Suc n)) (''a-'' @ placeholder ''db/p.w-d_1'' @ ''-${secret:}'') (0::nat) =
     (''a-X-${secret:}'', 1)"
proof -
  have k: "valid_key ''db/p.w-d_1''"
    by (simp add: valid_key_def secret_char_def byte_in_def)
  have "replace_all (\<lambda>m n. (''X'', Suc n)) ''a-'' (0::nat) = (''a-'', 0)"
    and "replace_all (\<lambda>m n. (''X'', Suc n)) ''-${secret:}'' (1::nat) = (''-${secret:}'', 1)"
    by code_simp+
  then show ?thesis
    by (subst replace_all_placeholder [OF k]) simp
qed

text \<open>
  A value whose placeholder is malformed (here a blank before the key, which the comment on
  \<open>resolveSecrets\<close> would have fail) is passed on as it is, without an error and without a call.
\<close>
theorem malformed_placeholder_kept:
  "Contains ''${secret: key}'' secret_open \<and>
   resolve_var K key ''${secret: key}'' h = (Inr ''${secret: key}'', h)"
proof -
  have "tokenize ''${secret: key}'' = map Lit ''${secret: key}''" by code_simp
  then have "resolve_var K key ''${secret: key}'' h = (Inr ''${secret: key}'', h)"
    by (simp only: resolve_var_value resolve_value_def subst_tokens_Lits)
  moreover have "Contains ''${secret: key}'' secret_open" by code_simp
  ultimately show ?thesis by blast
qed

end
