(* ===== verification/Compiler.thy ===== *)
theory Compiler
  imports Secrets
begin

text \<open>
  The compiler (\<open>internal/compiler/compiler.go\<close>): a specification becomes a graph of service,
  network and volume nodes, with the secrets of its environments resolved (theory Secrets), and a
  graph is checked before it runs.
\<close>

section \<open>Graphs\<close>

record ServiceNode =
  sn_Name :: string
  sn_Image :: string
  sn_Build :: "BuildConfig option"
  sn_Source :: "SourceRef option"
  sn_Environment :: "string gomap"
  sn_Ports :: "string list"
  sn_VolumeMounts :: "string list"
  sn_Networks :: "string list"
  sn_DependsOn :: "string list"

record NetworkNode =
  nn_Name :: string
  nn_Driver :: string

record VolumeNode =
  vn_Name :: string
  vn_Driver :: string

record CompiledGraph =
  g_DeploymentID :: string
  g_Version :: string
  g_Slug :: string
  g_Services :: "ServiceNode gomap"
  g_Networks :: "NetworkNode gomap"
  g_Volumes :: "VolumeNode gomap"

definition service_node ::
    "DeploymentSpec \<Rightarrow> string \<Rightarrow> ServiceSpec \<Rightarrow> string gomap \<Rightarrow> ServiceNode" where
  "service_node spec name svc resolvedEnv =
     \<lparr>sn_Name = name, sn_Image = ss_Image svc, sn_Build = ss_Build svc, sn_Source = ds_Source spec,
      sn_Environment = resolvedEnv, sn_Ports = ss_Ports svc, sn_VolumeMounts = ss_Volumes svc,
      sn_Networks = ss_Networks svc, sn_DependsOn = []\<rparr>"

fun compile_services ::
    "kernel option \<Rightarrow> iter_order \<Rightarrow> DeploymentSpec \<Rightarrow> ServiceSpec gomap \<Rightarrow> ServiceNode gomap \<Rightarrow>
       (compile_error + ServiceNode gomap) action" where
  "compile_services client \<pi> spec [] nodes h = (Inr nodes, h)"
| "compile_services client \<pi> spec ((name, svc) # svcs) nodes h =
     (case resolveSecrets client \<pi> name (ss_Environment svc) h of
        (Inl e, h1) \<Rightarrow> (Inl (ServiceSecrets name e), h1)
      | (Inr resolvedEnv, h1) \<Rightarrow>
          compile_services client \<pi> spec svcs
            (AList.update name (service_node spec name svc resolvedEnv) nodes) h1)"

definition network_node :: "NetworkSpec \<Rightarrow> NetworkNode" where
  "network_node net = \<lparr>nn_Name = ns_Name net, nn_Driver = ns_Driver net\<rparr>"

definition volume_node :: "VolumeSpec \<Rightarrow> VolumeNode" where
  "volume_node vol = \<lparr>vn_Name = vs_Name vol, vn_Driver = vs_Driver vol\<rparr>"

definition Compile ::
    "kernel option \<Rightarrow> iter_order \<Rightarrow> DeploymentSpec option \<Rightarrow> (compile_error + CompiledGraph) action" where
  "Compile client \<pi> spec_ptr h =
     (case spec_ptr of
        None \<Rightarrow> (Inl NilSpec, h)
      | Some spec \<Rightarrow>
          (if ds_ID spec = [] then (Inl MissingID, h)
           else
             (case compile_services client \<pi> spec
                     (gm_range \<pi> R_CompileServices (ds_Services spec)) [] h of
                (Inl e, h1) \<Rightarrow> (Inl e, h1)
              | (Inr services, h1) \<Rightarrow>
                  (Inr \<lparr>g_DeploymentID = ds_ID spec, g_Version = ds_Version spec,
                        g_Slug = ds_Slug spec, g_Services = services,
                        g_Networks =
                          gm_build network_node (gm_range \<pi> R_CompileNetworks (ds_Networks spec)) [],
                        g_Volumes =
                          gm_build volume_node (gm_range \<pi> R_CompileVolumes (ds_Volumes spec)) []\<rparr>,
                   h1))))"

datatype validate_error =
    NoDeploymentID
  | NoServices
  | NoImageNorBuild string
  | UnknownNetwork string string

fun validate_error_text :: "validate_error \<Rightarrow> string" where
  "validate_error_text NoDeploymentID = ''compiled graph missing deployment ID''"
| "validate_error_text NoServices = ''compiled graph has no services''"
| "validate_error_text (NoImageNorBuild name) =
     ''service '' @ name @ '' has no image and no build config''"
| "validate_error_text (UnknownNetwork name netName) =
     ''service '' @ name @ '' references unknown network '' @ netName"

fun check_networks :: "NetworkNode gomap \<Rightarrow> string \<Rightarrow> string list \<Rightarrow> validate_error option" where
  "check_networks nets name [] = None"
| "check_networks nets name (netName # rest) =
     (if map_of nets netName = None then Some (UnknownNetwork name netName)
      else check_networks nets name rest)"

fun check_services :: "NetworkNode gomap \<Rightarrow> ServiceNode gomap \<Rightarrow> validate_error option" where
  "check_services nets [] = None"
| "check_services nets ((name, svc) # svcs) =
     (if sn_Image svc = [] \<and> sn_Build svc = None then Some (NoImageNorBuild name)
      else case check_networks nets name (sn_Networks svc) of
        Some e \<Rightarrow> Some e
      | None \<Rightarrow> check_services nets svcs)"

definition Validate_graph :: "iter_order \<Rightarrow> CompiledGraph \<Rightarrow> validate_error option" where
  "Validate_graph \<pi> g =
     (if g_DeploymentID g = [] then Some NoDeploymentID
      else if length (g_Services g) = 0 then Some NoServices
      else check_services (g_Networks g) (gm_range \<pi> R_ValidateServices (g_Services g)))"

section \<open>Services and graphs\<close>

lemma env_resolved_entries:
  assumes "resolve_entries K env [] h = (Inr out, h')" and "gm_wf env"
  shows "env_resolved K env out"
  unfolding env_resolved_def
proof
  fix k
  have "case map_of env k of Some v \<Rightarrow> \<exists>v'. map_of out k = Some v' \<and> value_resolved K v v'
      | None \<Rightarrow> map_of out k = map_of [] k"
    using resolve_entries_Inr [OF assms] by blast
  then show "rel_option (value_resolved K) (map_of env k) (map_of out k)"
    by (cases "map_of env k") auto
qed

lemma resolveSecrets_Inr:
  assumes "resolveSecrets (Some K) \<pi> name env h = (Inr out, h')"
    and "fair_order \<pi>" and "gm_wf env"
  shows "h' = h @ map KGetSecret (env_refs (gm_range \<pi> (R_CompileEnv name) env))"
    and "env_resolved K env out" and "gm_wf out"
proof -
  have r: "resolve_entries K (gm_range \<pi> (R_CompileEnv name) env) [] h = (Inr out, h')"
    using assms(1) by (simp add: resolveSecrets_def)
  have wf: "gm_wf (gm_range \<pi> (R_CompileEnv name) env)" using assms by simp
  show "h' = h @ map KGetSecret (env_refs (gm_range \<pi> (R_CompileEnv name) env))"
    and "gm_wf out"
    using resolve_entries_Inr [OF r wf] by simp_all
  show "env_resolved K env out"
    using env_resolved_entries [OF r wf] assms by (simp add: env_resolved_def)
qed

definition spec_wf :: "DeploymentSpec \<Rightarrow> bool" where
  "spec_wf spec \<longleftrightarrow> gm_wf (ds_Services spec) \<and> gm_wf (ds_Networks spec) \<and> gm_wf (ds_Volumes spec) \<and>
     (\<forall>(name, svc) \<in> set (ds_Services spec). gm_wf (ss_Environment svc))"

definition services_refs :: "iter_order \<Rightarrow> ServiceSpec gomap \<Rightarrow> string list" where
  "services_refs \<pi> svcs =
     concat (map (\<lambda>(name, svc). env_refs (gm_range \<pi> (R_CompileEnv name) (ss_Environment svc))) svcs)"

lemma services_refs_simps [simp]:
  "services_refs \<pi> [] = []"
  "services_refs \<pi> ((name, svc) # svcs) =
     env_refs (gm_range \<pi> (R_CompileEnv name) (ss_Environment svc)) @ services_refs \<pi> svcs"
  by (simp_all add: services_refs_def)

text \<open>The node made for a service: its fields copied, its environment resolved.\<close>

definition node_for :: "kernel option \<Rightarrow> DeploymentSpec \<Rightarrow> string \<Rightarrow> ServiceSpec \<Rightarrow> ServiceNode \<Rightarrow> bool" where
  "node_for client spec name svc node \<longleftrightarrow>
     sn_Name node = name \<and> sn_Image node = ss_Image svc \<and> sn_Build node = ss_Build svc \<and>
     sn_Source node = ds_Source spec \<and> sn_Ports node = ss_Ports svc \<and>
     sn_VolumeMounts node = ss_Volumes svc \<and> sn_Networks node = ss_Networks svc \<and> sn_DependsOn node = [] \<and>
     gm_wf (sn_Environment node) \<and>
     (case client of
        None \<Rightarrow> sn_Environment node = ss_Environment svc
      | Some K \<Rightarrow> env_resolved K (ss_Environment svc) (sn_Environment node))"

lemma compile_services_Inr:
  assumes "compile_services client \<pi> spec svcs acc h = (Inr out, h')"
    and "fair_order \<pi>" and "gm_wf svcs" and "\<forall>(name, svc) \<in> set svcs. gm_wf (ss_Environment svc)"
  shows "h' = h @ (if client = None then [] else map KGetSecret (services_refs \<pi> svcs))
    \<and> (\<forall>n. case map_of svcs n of
            Some svc \<Rightarrow> \<exists>node. map_of out n = Some node \<and> node_for client spec n svc node
          | None \<Rightarrow> map_of out n = map_of acc n) \<and> (gm_wf acc \<longrightarrow> gm_wf out)"
  using assms
proof (induction svcs arbitrary: acc h)
  case (Cons ns svcs)
  obtain name svc where ns: "ns = (name, svc)" by fastforce
  obtain env' h1 where r: "resolveSecrets client \<pi> name (ss_Environment svc) h = (Inr env', h1)"
      "compile_services client \<pi> spec svcs
         (AList.update name (service_node spec name svc env') acc) h1 = (Inr out, h')"
    using Cons.prems(1) by (auto simp: ns split: prod.splits sum.splits)
  have wf: "gm_wf svcs" "map_of svcs name = None" "gm_wf (ss_Environment svc)"
    using Cons.prems(3,4) by (auto simp: ns gm_wf_def map_of_eq_None_iff)
  have IH: "h' = h1 @ (if client = None then [] else map KGetSecret (services_refs \<pi> svcs))"
      "gm_wf (AList.update name (service_node spec name svc env') acc) \<longrightarrow> gm_wf out"
    and out: "case map_of svcs n of
            Some svc \<Rightarrow> \<exists>node. map_of out n = Some node \<and> node_for client spec n svc node
          | None \<Rightarrow> map_of out n = map_of (AList.update name (service_node spec name svc env') acc) n" for n
    using Cons.IH [OF r(2) Cons.prems(2) wf(1)] Cons.prems(4) by auto
  have "node_for client spec name svc (service_node spec name svc env') \<and>
      h1 = h @ (if client = None then []
        else map KGetSecret (env_refs (gm_range \<pi> (R_CompileEnv name) (ss_Environment svc))))"
  proof (cases client)
    case None
    then show ?thesis using r(1) wf(3) by (simp add: node_for_def service_node_def resolveSecrets_def)
  next
    case (Some K)
    show ?thesis using resolveSecrets_Inr [OF r(1) [unfolded Some] Cons.prems(2) wf(3)] Some
      by (simp add: node_for_def service_node_def)
  qed
  then have node: "node_for client spec name svc (service_node spec name svc env')"
    and h1: "h1 = h @ (if client = None then []
        else map KGetSecret (env_refs (gm_range \<pi> (R_CompileEnv name) (ss_Environment svc))))" by blast+
  have "case map_of (ns # svcs) n of
            Some svc \<Rightarrow> \<exists>node. map_of out n = Some node \<and> node_for client spec n svc node
          | None \<Rightarrow> map_of out n = map_of acc n" for n
    using out [of n] wf(2) node
    by (cases "n = name"; cases "map_of svcs n") (auto simp: ns gomap_simps)
  then show ?case using IH h1 by (simp add: ns)
qed simp

lemma compile_services_Inl:
  assumes "compile_services client \<pi> spec svcs acc h = (Inl d, h')"
    and "fair_order \<pi>" and "\<forall>(name, svc) \<in> set svcs. gm_wf (ss_Environment svc)"
  shows "\<exists>K name svc key val k e ks. client = Some K \<and> (name, svc) \<in> set svcs \<and>
    (key, val) \<in> set (ss_Environment svc) \<and> k \<in> set (refs (tokenize val)) \<and>
    d = ServiceSecrets name (ResolveSecret k key e) \<and>
    h' = (h @ map KGetSecret ks) @ [KGetSecret k] \<and>
    fst (GetSecret K k (h @ map KGetSecret ks)) = Inl e"
  using assms
proof (induction svcs arbitrary: acc h)
  case (Cons ns svcs)
  obtain name svc where ns: "ns = (name, svc)" by fastforce
  have wf: "gm_wf (ss_Environment svc)" using Cons.prems(3) ns by simp
  obtain r h1 where r: "resolveSecrets client \<pi> name (ss_Environment svc) h = (r, h1)" by fastforce
  show ?case
  proof (cases r)
    case (Inl e)
    then obtain K where K: "client = Some K"
        "resolve_entries K (gm_range \<pi> (R_CompileEnv name) (ss_Environment svc)) [] h = (Inl e, h1)"
      using r by (auto simp: resolveSecrets_def split: option.splits)
    have d: "d = ServiceSecrets name e" "h' = h1" using Cons.prems(1) r Inl by (simp_all add: ns)
    show ?thesis
      using K(2)
      by (rule resolve_entries_Inl) (use K(1) d wf Cons.prems(2) ns in fastforce)
  next
    case (Inr env')
    have c: "compile_services client \<pi> spec svcs
        (AList.update name (service_node spec name svc env') acc) h1 = (Inl d, h')"
      using Cons.prems(1) r Inr by (simp add: ns)
    obtain K name' svc' key val k e ks where IH: "client = Some K" "(name', svc') \<in> set svcs"
        "(key, val) \<in> set (ss_Environment svc')" "k \<in> set (refs (tokenize val))"
        "d = ServiceSecrets name' (ResolveSecret k key e)"
        "h' = (h1 @ map KGetSecret ks) @ [KGetSecret k]"
        "fst (GetSecret K k (h1 @ map KGetSecret ks)) = Inl e"
      using Cons.IH [OF c Cons.prems(2)] Cons.prems(3) by fastforce
    have "resolveSecrets (Some K) \<pi> name (ss_Environment svc) h = (Inr env', h1)"
      using r Inr IH(1) by simp
    then have "h1 = h @ map KGetSecret (env_refs (gm_range \<pi> (R_CompileEnv name) (ss_Environment svc)))"
      using resolveSecrets_Inr(1) Cons.prems(2) wf by blast
    with IH show ?thesis
      by (intro exI [of _ K] exI [of _ name'] exI [of _ svc'] exI [of _ key] exI [of _ val]
            exI [of _ k] exI [of _ e]
            exI [of _ "env_refs (gm_range \<pi> (R_CompileEnv name) (ss_Environment svc)) @ ks"])
         simp
  qed
qed simp

lemma Compile_Inr:
  assumes "Compile client \<pi> (Some spec) h = (Inr g, h')" and "fair_order \<pi>" and "spec_wf spec"
  obtains out where "g = \<lparr>g_DeploymentID = ds_ID spec, g_Version = ds_Version spec, g_Slug = ds_Slug spec,
      g_Services = out,
      g_Networks = gm_build network_node (gm_range \<pi> R_CompileNetworks (ds_Networks spec)) [],
      g_Volumes = gm_build volume_node (gm_range \<pi> R_CompileVolumes (ds_Volumes spec)) []\<rparr>"
    "ds_ID spec \<noteq> []" "gm_wf out"
    "h' = h @ (if client = None then []
       else map KGetSecret (services_refs \<pi> (gm_range \<pi> R_CompileServices (ds_Services spec))))"
    "\<And>n. rel_option (node_for client spec n) (map_of (ds_Services spec) n) (map_of out n)"
proof -
  obtain out where g: "g = \<lparr>g_DeploymentID = ds_ID spec, g_Version = ds_Version spec,
      g_Slug = ds_Slug spec, g_Services = out,
      g_Networks = gm_build network_node (gm_range \<pi> R_CompileNetworks (ds_Networks spec)) [],
      g_Volumes = gm_build volume_node (gm_range \<pi> R_CompileVolumes (ds_Volumes spec)) []\<rparr>"
    and id: "ds_ID spec \<noteq> []"
    and c: "compile_services client \<pi> spec
        (gm_range \<pi> R_CompileServices (ds_Services spec)) [] h = (Inr out, h')"
    using assms(1) by (auto simp: Compile_def split: if_splits prod.splits sum.splits)
  have wf: "gm_wf (gm_range \<pi> R_CompileServices (ds_Services spec))"
      "\<forall>(name, svc) \<in> set (gm_range \<pi> R_CompileServices (ds_Services spec)). gm_wf (ss_Environment svc)"
    using assms(2,3) by (auto simp: spec_wf_def)
  note r = compile_services_Inr [OF c assms(2) wf]
  have "rel_option (node_for client spec n) (map_of (ds_Services spec) n) (map_of out n)" for n
  proof -
    have "case map_of (ds_Services spec) n of
            Some svc \<Rightarrow> \<exists>node. map_of out n = Some node \<and> node_for client spec n svc node
          | None \<Rightarrow> map_of out n = map_of [] n"
      using r assms(2,3) by (simp add: spec_wf_def)
    then show ?thesis by (cases "map_of (ds_Services spec) n") auto
  qed
  with g id r show ?thesis by (intro that) auto
qed

lemma map_of_copied:
  "fair_order \<pi> \<Longrightarrow> gm_wf m \<Longrightarrow> map_of (gm_build f (gm_range \<pi> s m) []) k = map_option f (map_of m k)"
  by (simp add: map_of_gm_build split: option.splits)

section \<open>Validation\<close>

definition service_ok :: "NetworkNode gomap \<Rightarrow> ServiceNode \<Rightarrow> bool" where
  "service_ok nets svc \<longleftrightarrow> (sn_Image svc \<noteq> [] \<or> sn_Build svc \<noteq> None) \<and>
     (\<forall>n \<in> set (sn_Networks svc). map_of nets n \<noteq> None)"

definition graph_ok :: "CompiledGraph \<Rightarrow> bool" where
  "graph_ok g \<longleftrightarrow> g_DeploymentID g \<noteq> [] \<and> g_Services g \<noteq> [] \<and>
     (\<forall>(name, svc) \<in> set (g_Services g). service_ok (g_Networks g) svc)"

lemma check_networks_None:
  "check_networks nets name ns = None \<longleftrightarrow> (\<forall>n \<in> set ns. map_of nets n \<noteq> None)"
  by (induction ns) auto

lemma check_services_Cons_None:
  "check_services nets ((name, svc) # svcs) = None \<longleftrightarrow>
     service_ok nets svc \<and> check_services nets svcs = None"
proof (cases "check_networks nets name (sn_Networks svc)")
  case None
  then have "\<forall>n \<in> set (sn_Networks svc). map_of nets n \<noteq> None" by (simp add: check_networks_None)
  with None show ?thesis by (auto simp: service_ok_def)
next
  case (Some e)
  then have "\<not> (\<forall>n \<in> set (sn_Networks svc). map_of nets n \<noteq> None)"
    by (metis check_networks_None option.discI)
  with Some show ?thesis by (auto simp: service_ok_def)
qed

lemma check_services_None:
  "check_services nets svcs = None \<longleftrightarrow> (\<forall>(name, svc) \<in> set svcs. service_ok nets svc)"
proof (induction svcs)
  case (Cons x svcs)
  then show ?case by (cases x) (simp only: check_services_Cons_None, simp)
qed simp

lemma check_networks_Some:
  "check_networks nets name ns = Some e \<Longrightarrow>
     \<exists>n \<in> set ns. e = UnknownNetwork name n \<and> map_of nets n = None"
  by (induction ns) (auto split: if_splits)

lemma check_services_Some:
  "check_services nets svcs = Some e \<Longrightarrow>
     \<exists>(name, svc) \<in> set svcs.
       (e = NoImageNorBuild name \<and> sn_Image svc = [] \<and> sn_Build svc = None) \<or>
       (\<exists>n \<in> set (sn_Networks svc). e = UnknownNetwork name n \<and> map_of nets n = None)"
  by (induction svcs)
     (auto split: if_splits option.splits dest!: check_networks_Some)

lemma Validate_graph_None:
  "fair_order \<pi> \<Longrightarrow> gm_wf (g_Services g) \<Longrightarrow> Validate_graph \<pi> g = None \<longleftrightarrow> graph_ok g"
  by (auto simp: Validate_graph_def graph_ok_def check_services_None)

section \<open>Properties\<close>

lemma mset_services_refs:
  assumes "fair_order \<pi>" and "gm_wf svcs" and "\<forall>(name, svc) \<in> set svcs. gm_wf (ss_Environment svc)"
  shows "mset (services_refs \<pi> (gm_range \<pi> R_CompileServices svcs)) =
    mset (concat (map (\<lambda>(name, svc). env_refs (ss_Environment svc)) svcs))"
proof -
  have e: "mset (env_refs (gm_range \<pi> s env)) = mset (env_refs env)"
    if "gm_wf env" for s and env :: "string gomap"
    using that assms(1) by (simp add: env_refs_def mset_concat_map mset_gm_range)
  have "mset (services_refs \<pi> (gm_range \<pi> R_CompileServices svcs)) =
      (\<Sum>x \<in># mset svcs. mset (case x of (name, svc) \<Rightarrow>
         env_refs (gm_range \<pi> (R_CompileEnv name) (ss_Environment svc))))"
    using assms by (simp add: services_refs_def mset_concat_map mset_gm_range)
  also have "\<dots> = (\<Sum>x \<in># mset svcs. mset (case x of (name, svc) \<Rightarrow> env_refs (ss_Environment svc)))"
    using assms(3) e by (intro arg_cong [of _ _ sum_mset] image_mset_cong) auto
  finally show ?thesis by (simp add: mset_concat_map)
qed

text \<open>
  C5. The graph compiled from a specification has its ID, version and slug; the same service,
  network and volume keys; each service node carries the service's image, build, ports, mounts
  and networks, the deployment's source and the service's environment with its secrets
  filled in; network and volume nodes carry name and driver.
\<close>
theorem Compile_functional:
  assumes "Compile client \<pi> (Some spec) h = (Inr g, h')" and "fair_order \<pi>" and "spec_wf spec"
  shows "g_DeploymentID g = ds_ID spec \<and> g_Version g = ds_Version spec \<and> g_Slug g = ds_Slug spec \<and>
    (\<forall>n. rel_option (node_for client spec n) (map_of (ds_Services spec) n) (map_of (g_Services g) n)) \<and>
    (\<forall>n. map_of (g_Networks g) n = map_option (\<lambda>net. \<lparr>nn_Name = ns_Name net, nn_Driver = ns_Driver net\<rparr>)
       (map_of (ds_Networks spec) n)) \<and>
    (\<forall>n. map_of (g_Volumes g) n = map_option (\<lambda>vol. \<lparr>vn_Name = vs_Name vol, vn_Driver = vs_Driver vol\<rparr>)
       (map_of (ds_Volumes spec) n))"
proof -
  have wf: "gm_wf (ds_Networks spec)" "gm_wf (ds_Volumes spec)"
    using assms(3) by (simp_all add: spec_wf_def)
  show ?thesis
    using assms
    by (rule Compile_Inr) (simp add: map_of_copied [OF assms(2)] wf network_node_def [abs_def] volume_node_def [abs_def])
qed

definition sample_service :: ServiceSpec where
  "sample_service =
     \<lparr>ss_Image = ''nginx'', ss_Build = None, ss_Ports = [''80:8080''],
      ss_Environment = [(''A'', ''x''), (''DB'', ''u:${secret:db/pass}@h'')],
      ss_Volumes = [], ss_Networks = [''front''], ss_Expose = None\<rparr>"

definition sample_spec :: DeploymentSpec where
  "sample_spec =
     \<lparr>ds_ID = ''d1'', ds_Slug = ''app'', ds_Version = ''1'', ds_Source = None,
      ds_ServiceMap = Some [(''web'', sample_service)],
      ds_Networks = [(''front'', \<lparr>ns_Driver = ''bridge'', ns_Name = ''front''\<rparr>)],
      ds_Volumes = []\<rparr>"

definition sample_graph :: CompiledGraph where
  "sample_graph =
     \<lparr>g_DeploymentID = ''d1'', g_Version = ''1'', g_Slug = ''app'',
      g_Services = [(''web'', service_node sample_spec ''web'' sample_service
                       [(''A'', ''x''), (''DB'', ''u:pw@h'')])],
      g_Networks = [(''front'', \<lparr>nn_Name = ''front'', nn_Driver = ''bridge''\<rparr>)], g_Volumes = []\<rparr>"

lemma sample_spec_wf: "spec_wf sample_spec"
  by (simp add: spec_wf_def sample_spec_def sample_service_def gm_wf_def)

lemma sample_compiles:
  "Compile (Some sample_kernel) stored_order (Some sample_spec) [] =
     (Inr sample_graph, [KGetSecret ''db/pass''])"
  by code_simp

theorem Compile_functional_witness:
  "map_of (g_Networks sample_graph) ''front'' =
     map_option (\<lambda>net. \<lparr>nn_Name = ns_Name net, nn_Driver = ns_Driver net\<rparr>)
       (map_of (ds_Networks sample_spec) ''front'')"
  using Compile_functional [OF sample_compiles fair_stored sample_spec_wf] by blast

text \<open>
  A compilation that succeeds fetched every secret its environment values refer to, each
  once per reference, and made no other call.
\<close>
theorem Compile_fetches_all:
  assumes "Compile (Some K) \<pi> (Some spec) h = (Inr g, h')" and "fair_order \<pi>" and "spec_wf spec"
  shows "\<exists>ks. h' = h @ map KGetSecret ks \<and>
    mset ks = mset (concat (map (\<lambda>(name, svc). env_refs (ss_Environment svc)) (ds_Services spec)))"
  using assms
proof (rule Compile_Inr)
  assume "h' = h @ (if Some K = None then []
       else map KGetSecret (services_refs \<pi> (gm_range \<pi> R_CompileServices (ds_Services spec))))"
  moreover have "gm_wf (ds_Services spec)"
      "\<forall>(name, svc) \<in> set (ds_Services spec). gm_wf (ss_Environment svc)"
    using assms(3) by (simp_all add: spec_wf_def)
  ultimately show ?thesis using mset_services_refs [OF assms(2)] by auto
qed

theorem Compile_fetches_all_witness:
  "\<exists>ks. [KGetSecret ''db/pass''] = [] @ map KGetSecret ks \<and>
    mset ks = mset (concat (map (\<lambda>(name, svc). env_refs (ss_Environment svc)) (ds_Services sample_spec)))"
  by (rule Compile_fetches_all [OF sample_compiles fair_stored sample_spec_wf])

text \<open>
  C17. A compilation that fails after its guards failed because the kernel refused a secret that
  some environment value refers to; the refused fetch is the last call, the error names the
  service, the secret and the variable, and no graph is returned.
\<close>
theorem Compile_fails:
  assumes "Compile client \<pi> (Some spec) h = (Inl d, h')" and "ds_ID spec \<noteq> []"
    and "fair_order \<pi>" and "spec_wf spec"
  shows "\<exists>K name svc key val k e ks. client = Some K \<and> (name, svc) \<in> set (ds_Services spec) \<and>
    (key, val) \<in> set (ss_Environment svc) \<and> k \<in> set (refs (tokenize val)) \<and>
    d = ServiceSecrets name (ResolveSecret k key e) \<and>
    h' = (h @ map KGetSecret ks) @ [KGetSecret k] \<and>
    fst (GetSecret K k (h @ map KGetSecret ks)) = Inl e"
proof -
  have wf: "gm_wf (ds_Services spec)" using assms(4) by (simp add: spec_wf_def)
  have c: "compile_services client \<pi> spec
      (gm_range \<pi> R_CompileServices (ds_Services spec)) [] h = (Inl d, h')"
    using assms(1,2) by (auto simp: Compile_def split: prod.splits sum.splits)
  have "\<forall>(name, svc) \<in> set (gm_range \<pi> R_CompileServices (ds_Services spec)). gm_wf (ss_Environment svc)"
    using assms(3,4) wf by (auto simp: spec_wf_def)
  from compile_services_Inl [OF c assms(3) this] show ?thesis
    by (simp only: set_gm_range [OF assms(3) wf])
qed

definition failing_service :: ServiceSpec where
  "failing_service = sample_service\<lparr>ss_Environment := [(''DB'', ''${secret:gone}'')]\<rparr>"

definition failing_spec :: DeploymentSpec where
  "failing_spec = sample_spec\<lparr>ds_ServiceMap := Some [(''web'', failing_service)]\<rparr>"

lemma failing_compiles:
  "Compile (Some sample_kernel) stored_order (Some failing_spec) [] =
     (Inl (ServiceSecrets ''web'' (ResolveSecret ''gone'' ''DB'' (GetSecretFailed ''not found''))),
      [KGetSecret ''gone''])"
  by code_simp

theorem Compile_fails_witness:
  "\<exists>K name svc key val k e ks. Some sample_kernel = Some K \<and> (name, svc) \<in> set (ds_Services failing_spec) \<and>
    (key, val) \<in> set (ss_Environment svc) \<and> k \<in> set (refs (tokenize val)) \<and>
    ServiceSecrets ''web'' (ResolveSecret ''gone'' ''DB'' (GetSecretFailed ''not found'')) =
      ServiceSecrets name (ResolveSecret k key e) \<and>
    [KGetSecret ''gone''] = ([] @ map KGetSecret ks) @ [KGetSecret k] \<and>
    fst (GetSecret K k ([] @ map KGetSecret ks)) = Inl e"
  by (rule Compile_fails [OF failing_compiles _ fair_stored])
     (simp_all add: failing_spec_def failing_service_def spec_wf_def sample_spec_def
        sample_service_def gm_wf_def)

text \<open>
  The verdict of the graph check does not depend on the iteration order, and it is the
  declarative one: an ID, at least one service, an image or a build for each service, and only
  declared networks.
\<close>
theorem Validate_graph_verdict:
  assumes "fair_order \<pi>" and "gm_wf (g_Services g)"
  shows "Validate_graph \<pi> g = None \<longleftrightarrow>
    g_DeploymentID g \<noteq> [] \<and> g_Services g \<noteq> [] \<and>
    (\<forall>(name, svc) \<in> set (g_Services g). (sn_Image svc \<noteq> [] \<or> sn_Build svc \<noteq> None) \<and>
       (\<forall>n \<in> set (sn_Networks svc). map_of (g_Networks g) n \<noteq> None))"
  using Validate_graph_None [OF assms] by (simp add: graph_ok_def service_ok_def)

theorem Validate_graph_verdict_witness: "Validate_graph reversed_order sample_graph = None"
  by (subst Validate_graph_verdict)
     (simp_all add: sample_graph_def gm_wf_def service_node_def sample_service_def)

text \<open>
  An error of the graph check names a real defect: the service it names is in the graph, and
  it has neither image nor build, or asks for a network the graph does not have.
\<close>
theorem Validate_graph_error:
  assumes "Validate_graph \<pi> g = Some e" and "fair_order \<pi>" and "gm_wf (g_Services g)"
    and "g_DeploymentID g \<noteq> []" and "g_Services g \<noteq> []"
  shows "\<exists>(name, svc) \<in> set (g_Services g).
       (e = NoImageNorBuild name \<and> sn_Image svc = [] \<and> sn_Build svc = None) \<or>
       (\<exists>n \<in> set (sn_Networks svc). e = UnknownNetwork name n \<and> map_of (g_Networks g) n = None)"
proof -
  have "check_services (g_Networks g) (gm_range \<pi> R_ValidateServices (g_Services g)) = Some e"
    using assms(1,4,5) by (simp add: Validate_graph_def)
  from check_services_Some [OF this] show ?thesis using assms(2,3) by simp
qed

theorem Validate_graph_error_witness:
  "\<exists>(name, svc) \<in> set (g_Services (sample_graph\<lparr>g_Networks := []\<rparr>)).
       (UnknownNetwork ''web'' ''front'' = NoImageNorBuild name \<and> sn_Image svc = [] \<and> sn_Build svc = None) \<or>
       (\<exists>n \<in> set (sn_Networks svc). UnknownNetwork ''web'' ''front'' = UnknownNetwork name n \<and>
          map_of (g_Networks (sample_graph\<lparr>g_Networks := []\<rparr>)) n = None)"
proof (rule Validate_graph_error)
  show "Validate_graph stored_order (sample_graph\<lparr>g_Networks := []\<rparr>) = Some (UnknownNetwork ''web'' ''front'')"
    by code_simp
qed (simp_all add: sample_graph_def gm_wf_def)

text \<open>
  C14. A compiled graph passes the check exactly when the specification has a service, every
  service has an image or a build, and every network a service asks for is declared in the
  specification.
\<close>
theorem compiled_graph_valid:
  assumes "Compile client \<pi> (Some spec) h = (Inr g, h')"
    and "fair_order \<pi>" and "fair_order \<pi>'" and "spec_wf spec"
  shows "Validate_graph \<pi>' g = None \<longleftrightarrow>
    ds_Services spec \<noteq> [] \<and>
    (\<forall>(name, svc) \<in> set (ds_Services spec). (ss_Image svc \<noteq> [] \<or> ss_Build svc \<noteq> None) \<and>
       set (ss_Networks svc) \<subseteq> set (gm_keys (ds_Networks spec)))"
proof -
  have wf: "gm_wf (ds_Services spec)" "gm_wf (ds_Networks spec)"
    using assms(4) by (simp_all add: spec_wf_def)
  obtain out where g: "g = \<lparr>g_DeploymentID = ds_ID spec, g_Version = ds_Version spec,
        g_Slug = ds_Slug spec, g_Services = out,
        g_Networks = gm_build network_node (gm_range \<pi> R_CompileNetworks (ds_Networks spec)) [],
        g_Volumes = gm_build volume_node (gm_range \<pi> R_CompileVolumes (ds_Volumes spec)) []\<rparr>"
      "ds_ID spec \<noteq> []" "gm_wf out"
    and rel: "\<And>n. rel_option (node_for client spec n) (map_of (ds_Services spec) n) (map_of out n)"
    using assms(1,2,4) by (rule Compile_Inr) blast
  have nets: "(map_of (g_Networks g) n \<noteq> None) = (n \<in> set (gm_keys (ds_Networks spec)))" for n
    using map_of_copied [OF assms(2) wf(2), of network_node] by (simp add: g(1) map_of_eq_None_iff)
  have ok: "service_ok (g_Networks g) node \<longleftrightarrow> (ss_Image svc \<noteq> [] \<or> ss_Build svc \<noteq> None) \<and>
      set (ss_Networks svc) \<subseteq> set (gm_keys (ds_Networks spec))"
    if "node_for client spec n svc node" for n svc node
    using that unfolding service_ok_def nets by (auto simp: node_for_def service_node_def)
  have one: "(\<forall>node. map_of out n = Some node \<longrightarrow> service_ok (g_Networks g) node) \<longleftrightarrow>
      (\<forall>svc. map_of (ds_Services spec) n = Some svc \<longrightarrow>
        (ss_Image svc \<noteq> [] \<or> ss_Build svc \<noteq> None) \<and>
        set (ss_Networks svc) \<subseteq> set (gm_keys (ds_Networks spec)))" for n
    using rel [of n] ok [of n]
    by (cases "map_of (ds_Services spec) n"; cases "map_of out n") simp_all
  have empty: "out = [] \<longleftrightarrow> ds_Services spec = []"
    using rel by (metis empty_eq_map_of_iff option.rel_distinct(1,2) rel_option_None1 rel_option_None2 ext)
  have "(\<forall>(name, node) \<in> set out. service_ok (g_Networks g) node) \<longleftrightarrow>
      (\<forall>n node. map_of out n = Some node \<longrightarrow> service_ok (g_Networks g) node)"
    using g(3) by (auto simp: map_of_mem_iff)
  also have "\<dots> \<longleftrightarrow> (\<forall>n svc. map_of (ds_Services spec) n = Some svc \<longrightarrow>
      (ss_Image svc \<noteq> [] \<or> ss_Build svc \<noteq> None) \<and>
      set (ss_Networks svc) \<subseteq> set (gm_keys (ds_Networks spec)))"
    using one by (simp only:)
  also have "\<dots> \<longleftrightarrow> (\<forall>(name, svc) \<in> set (ds_Services spec).
      (ss_Image svc \<noteq> [] \<or> ss_Build svc \<noteq> None) \<and>
      set (ss_Networks svc) \<subseteq> set (gm_keys (ds_Networks spec)))"
    unfolding map_of_mem_iff [OF wf(1)] by fast
  finally have all: "(\<forall>(name, node) \<in> set out. service_ok (g_Networks g) node) \<longleftrightarrow>
      (\<forall>(name, svc) \<in> set (ds_Services spec). (ss_Image svc \<noteq> [] \<or> ss_Build svc \<noteq> None) \<and>
         set (ss_Networks svc) \<subseteq> set (gm_keys (ds_Networks spec)))" .
  have "g_Services g = out" "g_DeploymentID g = ds_ID spec" using g(1) by simp_all
  then show ?thesis
    using Validate_graph_None [OF assms(3), of g] g(2,3) empty all by (simp only: graph_ok_def) simp
qed

theorem compiled_graph_valid_witness: "Validate_graph reversed_order sample_graph = None"
  by (subst compiled_graph_valid [OF sample_compiles fair_stored fair_reversed sample_spec_wf])
     (simp add: sample_spec_def sample_service_def)

end
