(* ===== verification/Go_Path.thy ===== *)
theory Go_Path
  imports Prelude
begin

text \<open>
  The lexical path functions the program uses (\<open>filepath.Clean\<close>, \<open>Join\<close>, \<open>Dir\<close>, \<open>IsAbs\<close>,
  \<open>Abs\<close>; \<open>path.Join\<close> is the same function), for a platform whose separator is the slash, where
  \<open>ToSlash\<close> and \<open>FromSlash\<close> change nothing. Cleaning works on the components of a path with a
  stack; the lemmas relate the strings to lists of plain components.
\<close>

section \<open>Definitions\<close>

fun split_slash :: "string \<Rightarrow> string list" where
  "split_slash [] = [[]]"
| "split_slash (c # s) =
     (if c = CHR ''/'' then [] # split_slash s
      else case split_slash s of [] \<Rightarrow> [[c]] | x # xs \<Rightarrow> (c # x) # xs)"

fun join_slash :: "string list \<Rightarrow> string" where
  "join_slash [] = []"
| "join_slash [x] = x"
| "join_slash (x # y # xs) = x @ CHR ''/'' # join_slash (y # xs)"

text \<open>
  The loop of \<open>Clean\<close>, on components: empty ones and dots are dropped, dot-dot removes the
  component before it; at the root it is dropped, in a relative path it stays.
\<close>

fun clean_comps :: "bool \<Rightarrow> string list \<Rightarrow> string list \<Rightarrow> string list" where
  "clean_comps rooted out [] = rev out"
| "clean_comps rooted out (p # ps) =
     (if p = [] \<or> p = ''.'' then clean_comps rooted out ps
      else if p = ''..'' then
        (case out of
           q # out' \<Rightarrow>
             if q \<noteq> ''..'' then clean_comps rooted out' ps
             else clean_comps rooted (''..'' # out) ps
         | [] \<Rightarrow> if rooted then clean_comps rooted [] ps else clean_comps rooted [''..''] ps)
      else clean_comps rooted (p # out) ps)"

definition IsAbs :: "string \<Rightarrow> bool" where
  "IsAbs s \<longleftrightarrow> HasPrefix s ''/''"

definition Clean :: "string \<Rightarrow> string" where
  "Clean s =
     (if s = [] then ''.''
      else
        (let body = join_slash (clean_comps (IsAbs s) [] (split_slash s))
         in if IsAbs s then CHR ''/'' # body else if body = [] then ''.'' else body))"

definition Join :: "string list \<Rightarrow> string" where
  "Join elems =
     (case dropWhile (\<lambda>e. e = []) elems of
        [] \<Rightarrow> []
      | es \<Rightarrow> Clean (join_slash es))"

definition Dir :: "string \<Rightarrow> string" where
  "Dir s = Clean (rev (dropWhile (\<lambda>c. c \<noteq> CHR ''/'') (rev s)))"

text \<open>\<open>Abs\<close> uses the working directory for a relative path.\<close>

definition Abs :: "string \<Rightarrow> string \<Rightarrow> string" where
  "Abs cwd s = (if IsAbs s then Clean s else Join [cwd, s])"

section \<open>Components\<close>

text \<open>A plain component is a proper file name; an absolute clean path is a list of them.\<close>

definition plain :: "string \<Rightarrow> bool" where
  "plain p \<longleftrightarrow> p \<noteq> [] \<and> p \<noteq> ''.'' \<and> p \<noteq> ''..'' \<and> CHR ''/'' \<notin> set p"

abbreviation plain_path :: "string list \<Rightarrow> bool" where
  "plain_path cs \<equiv> list_all plain cs"

definition abs_path :: "string list \<Rightarrow> string" where
  "abs_path cs = CHR ''/'' # join_slash cs"

definition norm :: "string \<Rightarrow> string list" where
  "norm s = clean_comps True [] (split_slash s)"

lemma split_slash_not_Nil [simp]: "split_slash s \<noteq> []"
  by (induction s) (auto split: list.splits)

lemma split_slash_append: "split_slash (a @ CHR ''/'' # b) = split_slash a @ split_slash b"
proof (induction a)
  case (Cons c a)
  then show ?case
    by (cases "split_slash a") (auto split: list.splits)
qed simp

lemma split_slash_no_slash: "CHR ''/'' \<notin> set s \<Longrightarrow> split_slash s = [s]"
  by (induction s) auto

lemma split_join: "cs \<noteq> [] \<Longrightarrow> \<forall>c \<in> set cs. CHR ''/'' \<notin> set c \<Longrightarrow> split_slash (join_slash cs) = cs"
  by (induction cs rule: join_slash.induct) (auto simp: split_slash_no_slash split_slash_append)

lemma join_split: "join_slash (split_slash s) = s"
proof (induction s)
  case (Cons c s)
  then show ?case
    by (cases "split_slash s" rule: join_slash.cases) auto
qed simp

lemma split_slash_comps: "p \<in> set (split_slash s) \<Longrightarrow> CHR ''/'' \<notin> set p"
  by (induction s arbitrary: p) (auto split: list.splits if_splits)

lemma join_slash_append:
  "xs \<noteq> [] \<Longrightarrow> ys \<noteq> [] \<Longrightarrow> join_slash (xs @ ys) = join_slash xs @ CHR ''/'' # join_slash ys"
proof (induction xs rule: join_slash.induct)
  case (2 x)
  then show ?case by (cases ys) auto
qed auto

text \<open>Rooted cleaning keeps plain components only; it can be done in two steps.\<close>

lemma clean_comps_append:
  "clean_comps r out (xs @ ys) = clean_comps r (rev (clean_comps r out xs)) ys"
  by (induction r out xs rule: clean_comps.induct) (auto split: list.splits)

lemma clean_comps_plain:
  "plain_path out \<Longrightarrow> \<forall>p \<in> set ps. CHR ''/'' \<notin> set p \<Longrightarrow> plain_path (clean_comps True out ps)"
proof (induction ps arbitrary: out)
  case (Cons p ps)
  have "plain p" if "p \<noteq> []" "p \<noteq> ''.''" "p \<noteq> ''..''"
    using that Cons.prems(2) by (simp add: plain_def)
  moreover have "hd out \<noteq> ''..''" if "out \<noteq> []"
    using that Cons.prems(1) by (cases out) (simp_all add: plain_def)
  ultimately show ?case using Cons by (cases out) simp_all
qed (simp add: list_all_iff)

lemma clean_comps_id: "plain_path ps \<Longrightarrow> clean_comps r out ps = rev out @ ps"
  by (induction ps arbitrary: out) (auto simp: plain_def)

lemma plain_norm [simp]: "plain_path (norm s)"
  unfolding norm_def by (rule clean_comps_plain) (auto dest: split_slash_comps)

lemma plain_no_slash: "plain_path cs \<Longrightarrow> \<forall>c \<in> set cs. CHR ''/'' \<notin> set c"
  by (auto simp: list_all_iff plain_def)

lemma IsAbs_Cons [simp]: "IsAbs (c # s) \<longleftrightarrow> c = CHR ''/''"
  by (simp add: IsAbs_def HasPrefix_def)

lemma IsAbs_Nil [simp]: "\<not> IsAbs []"
  by (simp add: IsAbs_def HasPrefix_def)

lemma IsAbs_abs_path [simp]: "IsAbs (abs_path cs)"
  by (simp add: abs_path_def)

lemma IsAbs_append: "IsAbs a \<Longrightarrow> IsAbs (a @ b)"
  by (cases a) auto

lemma norm_slash: "norm (a @ CHR ''/'' # b) = clean_comps True (rev (norm a)) (split_slash b)"
  by (simp add: norm_def split_slash_append clean_comps_append)

lemma norm_abs_path [simp]: "plain_path cs \<Longrightarrow> norm (abs_path cs) = cs"
proof (cases "cs = []")
  case False
  assume p: "plain_path cs"
  then show ?thesis
    using False plain_no_slash [OF p]
    by (simp add: norm_def abs_path_def split_join clean_comps_id)
qed (simp add: norm_def abs_path_def)

lemma Clean_abs: "IsAbs s \<Longrightarrow> Clean s = abs_path (norm s)"
  by (cases s) (simp_all add: Clean_def norm_def abs_path_def)

lemma Clean_abs_path [simp]: "plain_path cs \<Longrightarrow> Clean (abs_path cs) = abs_path cs"
  by (simp add: Clean_abs)

lemma abs_path_inj: "plain_path as \<Longrightarrow> plain_path bs \<Longrightarrow> abs_path as = abs_path bs \<longleftrightarrow> as = bs"
  by (metis norm_abs_path)

lemma abs_path_not_Nil [simp]: "abs_path cs \<noteq> []"
  by (simp add: abs_path_def)

text \<open>Joining a relative path to an absolute one, in components.\<close>

lemma Join_abs:
  assumes "plain_path ds"
  shows "Join [abs_path ds, rel] = abs_path (clean_comps True (rev ds) (split_slash rel))"
proof -
  have "Join [abs_path ds, rel] = Clean (abs_path ds @ CHR ''/'' # rel)"
    by (simp add: Join_def)
  also have "\<dots> = abs_path (norm (abs_path ds @ CHR ''/'' # rel))"
    by (simp add: Clean_abs IsAbs_append)
  finally show ?thesis by (simp add: norm_slash assms)
qed

text \<open>
  The prefix test on strings is the prefix relation on components: what the separator at the end
  of the tested prefix is for.
\<close>

lemma prefix_comps:
  assumes "plain_path ts" and "plain_path ds" and "ds \<noteq> []"
  shows "HasPrefix (abs_path ts) (abs_path ds @ ''/'') \<longleftrightarrow> (\<exists>x xs. ts = ds @ x # xs)"
proof
  assume "HasPrefix (abs_path ts) (abs_path ds @ ''/'')"
  then obtain r where r: "join_slash ts = join_slash ds @ CHR ''/'' # r"
    by (auto simp: HasPrefix_iff abs_path_def)
  have ts: "ts \<noteq> []" using r by auto
  have "ts = split_slash (join_slash ts)"
    using split_join [OF ts plain_no_slash [OF assms(1)]] by simp
  also have "\<dots> = ds @ split_slash r"
    using split_join [OF assms(3) plain_no_slash [OF assms(2)]] by (simp add: r split_slash_append)
  finally show "\<exists>x xs. ts = ds @ x # xs" by (metis list.exhaust split_slash_not_Nil)
next
  assume "\<exists>x xs. ts = ds @ x # xs"
  then show "HasPrefix (abs_path ts) (abs_path ds @ ''/'')"
    using assms(3) by (auto simp: HasPrefix_iff abs_path_def join_slash_append)
qed

lemma Dir_abs:
  assumes "plain_path (ds @ [x])"
  shows "Dir (abs_path (ds @ [x])) = abs_path ds"
proof -
  have x: "CHR ''/'' \<notin> set x" using assms by (simp add: plain_def)
  have d: "dropWhile (\<lambda>c. c \<noteq> CHR ''/'') (rev x @ CHR ''/'' # t) = CHR ''/'' # t" for t
    using x by (simp add: dropWhile_sep)
  show ?thesis
  proof (cases "ds = []")
    case True
    then show ?thesis using d [of "[]"] by (simp add: Dir_def abs_path_def Clean_def)
  next
    case False
    have "norm (abs_path ds @ ''/'') = ds"
      using norm_slash [of "abs_path ds" "[]"] assms by simp
    moreover have "abs_path (ds @ [x]) = (abs_path ds @ ''/'') @ x"
      using False by (simp add: abs_path_def join_slash_append)
    ultimately show ?thesis
      using d [of "rev (abs_path ds)"] by (simp add: Dir_def Clean_abs IsAbs_append)
  qed
qed

end
