(* ===== verification/File_System.thy ===== *)
theory File_System
  imports Go_Path "HOL-Library.Word"
begin

text \<open>
  A POSIX file tree with symbolic links, as the functions of package \<open>os\<close> see it: nodes addressed
  by the components of their real path, path resolution that follows links (with the kernel's
  limit of 40), and the system calls the program makes. Failures the tree itself does not explain
  (permissions, a full disk) come from the host.
\<close>

unbundle bit_operations_syntax

section \<open>Nodes and resolution\<close>

datatype node =
    NDir
  | NFile string "32 word" \<comment> \<open>content and permission bits\<close>
  | NLink string

type_synonym fs = "(string list \<times> node) list"

datatype os_error = ENOENT | ENOTDIR | EEXIST | EISDIR | ELOOP | EOther string

definition is_link :: "node option \<Rightarrow> bool" where
  "is_link n \<longleftrightarrow> (case n of Some (NLink t) \<Rightarrow> True | _ \<Rightarrow> False)"

text \<open>
  \<open>walk n follow fs cur cs\<close>: resolve the components \<open>cs\<close> from the real directory \<open>cur\<close>. The last
  component may be missing; a link there is followed only if asked for. At most \<open>n\<close> links.
\<close>

function walk :: "nat \<Rightarrow> bool \<Rightarrow> fs \<Rightarrow> string list \<Rightarrow> string list \<Rightarrow> os_error + string list" where
  "walk n follow fs cur [] = Inr cur"
| "walk n follow fs cur (c # cs) =
     (if c = [] \<or> c = ''.'' then walk n follow fs cur cs
      else if c = ''..'' then walk n follow fs (butlast cur) cs
      else case map_of fs (cur @ [c]) of
        None \<Rightarrow> if cs = [] then Inr (cur @ [c]) else Inl ENOENT
      | Some NDir \<Rightarrow> walk n follow fs (cur @ [c]) cs
      | Some (NFile d m) \<Rightarrow> if cs = [] then Inr (cur @ [c]) else Inl ENOTDIR
      | Some (NLink t) \<Rightarrow>
          if cs = [] \<and> \<not> follow then Inr (cur @ [c])
          else (case n of
            0 \<Rightarrow> Inl ELOOP
          | Suc m \<Rightarrow> walk m follow fs (if IsAbs t then [] else cur) (split_slash t @ cs)))"
  by pat_completeness auto
termination
  by (relation "measures [\<lambda>(n, _, _, _, cs). n, \<lambda>(n, _, _, _, cs). length cs]") auto

declare walk.simps(2) [simp del]

definition max_links :: nat where
  "max_links = 40"

text \<open>The host: working directory, file mode mask, and errors outside the tree.\<close>

datatype sysop = SysMkdir "string list" | SysOpen "string list" | SysSymlink string "string list"
  | SysRename "string list" "string list" | SysChmod "string list" | SysRemove "string list"
  | SysClose "string list"

record host =
  ho_cwd :: string
  ho_getwd_error :: "string option" \<comment> \<open>why \<open>os.Getwd\<close> fails, if it does\<close>
  ho_umask :: "32 word"
  ho_fault :: "sysop \<Rightarrow> fs \<Rightarrow> string option"
  ho_write_fault :: "string list \<Rightarrow> string \<Rightarrow> fs \<Rightarrow> (nat \<times> string) option"
    \<comment> \<open>how many bytes a write stores before it fails\<close>
  ho_temp_name :: "fs \<Rightarrow> string + string" \<comment> \<open>the name \<open>os.MkdirTemp\<close> picks\<close>
  ho_dir_mode :: "string list \<Rightarrow> fs \<Rightarrow> 32 word" \<comment> \<open>permission bits of directories\<close>
  ho_error_text :: "os_error \<Rightarrow> string"

text \<open>\<open>filepath.Abs\<close> of this host.\<close>

definition os_abs :: "host \<Rightarrow> string \<Rightarrow> string + string" where
  "os_abs H p =
     (if IsAbs p then Inr (Clean p)
      else case ho_getwd_error H of
        Some e \<Rightarrow> Inl e
      | None \<Rightarrow> Inr (Abs (ho_cwd H) p))"

text \<open>The components a path argument stands for, from the root.\<close>

definition path_comps :: "host \<Rightarrow> string \<Rightarrow> string list" where
  "path_comps H p =
     filter (\<lambda>c. c \<noteq> []) (split_slash (if IsAbs p then p else ho_cwd H @ CHR ''/'' # p))"

definition stat :: "fs \<Rightarrow> string list \<Rightarrow> os_error + node" where
  "stat fs cs =
     (case walk max_links True fs [] cs of
        Inl e \<Rightarrow> Inl e
      | Inr p \<Rightarrow> (case map_of fs p of None \<Rightarrow> Inl ENOENT | Some n \<Rightarrow> Inr n))"

definition lstat :: "fs \<Rightarrow> string list \<Rightarrow> os_error + node" where
  "lstat fs cs =
     (case walk max_links False fs [] cs of
        Inl e \<Rightarrow> Inl e
      | Inr p \<Rightarrow> (case map_of fs p of None \<Rightarrow> Inl ENOENT | Some n \<Rightarrow> Inr n))"

section \<open>System calls\<close>

definition os_mkdir :: "host \<Rightarrow> string list \<Rightarrow> fs \<Rightarrow> os_error option \<times> fs" where
  "os_mkdir H cs fs =
     (case ho_fault H (SysMkdir cs) fs of
        Some e \<Rightarrow> (Some (EOther e), fs)
      | None \<Rightarrow>
          (case walk max_links False fs [] cs of
             Inl e \<Rightarrow> (Some e, fs)
           | Inr p \<Rightarrow>
               if map_of fs p \<noteq> None then (Some EEXIST, fs) else (None, AList.update p NDir fs)))"

text \<open>\<open>os.MkdirAll\<close>: what exists is left alone, missing parents are made first.\<close>

function os_mkdir_all :: "host \<Rightarrow> string list \<Rightarrow> fs \<Rightarrow> os_error option \<times> fs" where
  "os_mkdir_all H cs fs =
     (case stat fs cs of
        Inr NDir \<Rightarrow> (None, fs)
      | Inr n \<Rightarrow> (Some ENOTDIR, fs)
      | Inl e \<Rightarrow>
          if cs = [] then (Some e, fs)
          else
            (case os_mkdir_all H (butlast cs) fs of
               (Some e, fs1) \<Rightarrow> (Some e, fs1)
             | (None, fs1) \<Rightarrow>
                 (case os_mkdir H cs fs1 of
                    (None, fs2) \<Rightarrow> (None, fs2)
                  | (Some e, fs2) \<Rightarrow>
                      if lstat fs2 cs = Inr NDir then (None, fs2) else (Some e, fs2))))"
  by pat_completeness auto
termination
  by (relation "measure (\<lambda>(H, cs, fs). length cs)") auto

declare os_mkdir_all.simps [simp del]

text \<open>
  \<open>os.OpenFile\<close> with \<open>O_CREATE|O_WRONLY|O_TRUNC\<close>: the real path of the file that is now empty
  and open for writing. An existing file keeps its permission bits. \<open>os.Create\<close> is the same with
  permissions \<open>0666\<close>.
\<close>

definition os_create :: "host \<Rightarrow> string list \<Rightarrow> 32 word \<Rightarrow> fs \<Rightarrow> (os_error + string list) \<times> fs" where
  "os_create H cs mode fs =
     (case ho_fault H (SysOpen cs) fs of
        Some e \<Rightarrow> (Inl (EOther e), fs)
      | None \<Rightarrow>
          (case walk max_links True fs [] cs of
             Inl e \<Rightarrow> (Inl e, fs)
           | Inr p \<Rightarrow>
               (case map_of fs p of
                  None \<Rightarrow> (Inr p, AList.update p (NFile [] (mode AND NOT (ho_umask H))) fs)
                | Some (NFile d m) \<Rightarrow> (Inr p, AList.update p (NFile [] m) fs)
                | Some NDir \<Rightarrow> (Inl EISDIR, fs)
                | Some (NLink t) \<Rightarrow> (Inl ELOOP, fs))))"

text \<open>Writing appends to the open file at its real path, all of the data or what the host stores.\<close>

definition os_write :: "string list \<Rightarrow> string \<Rightarrow> fs \<Rightarrow> fs" where
  "os_write p data fs =
     (case map_of fs p of
        Some (NFile d m) \<Rightarrow> AList.update p (NFile (d @ data) m) fs
      | _ \<Rightarrow> fs)"

definition os_copy :: "host \<Rightarrow> string list \<Rightarrow> string \<Rightarrow> fs \<Rightarrow> (nat \<times> string option) \<times> fs" where
  "os_copy H p data fs =
     (case ho_write_fault H p data fs of
        Some (k, e) \<Rightarrow> ((min k (length data), Some e), os_write p (take k data) fs)
      | None \<Rightarrow> ((length data, None), os_write p data fs))"

definition os_symlink :: "host \<Rightarrow> string \<Rightarrow> string list \<Rightarrow> fs \<Rightarrow> os_error option \<times> fs" where
  "os_symlink H target cs fs =
     (case ho_fault H (SysSymlink target cs) fs of
        Some e \<Rightarrow> (Some (EOther e), fs)
      | None \<Rightarrow>
          if target = [] then (Some ENOENT, fs)
          else
            (case walk max_links False fs [] cs of
               Inl e \<Rightarrow> (Some e, fs)
             | Inr p \<Rightarrow>
                 if map_of fs p \<noteq> None then (Some EEXIST, fs)
                 else (None, AList.update p (NLink target) fs)))"

text \<open>\<open>os.MkdirTemp\<close>, and \<open>os.RemoveAll\<close> with its error ignored, as the program uses it.\<close>

definition os_mkdir_temp :: "host \<Rightarrow> fs \<Rightarrow> (string + string) \<times> fs" where
  "os_mkdir_temp H fs =
     (case ho_temp_name H fs of
        Inl e \<Rightarrow> (Inl e, fs)
      | Inr p \<Rightarrow>
          (case os_mkdir H (path_comps H p) fs of
             (Some e, fs1) \<Rightarrow> (Inl (ho_error_text H e), fs1)
           | (None, fs1) \<Rightarrow> (Inr p, fs1)))"

definition os_remove_all :: "host \<Rightarrow> string list \<Rightarrow> fs \<Rightarrow> fs" where
  "os_remove_all H cs fs =
     (case ho_fault H (SysRemove cs) fs of
        Some e \<Rightarrow> fs
      | None \<Rightarrow>
          (case walk max_links False fs [] cs of
             Inl e \<Rightarrow> fs
           | Inr p \<Rightarrow> filter (\<lambda>(q, n). \<not> prefix p q) fs))"

text \<open>
  \<open>os.Remove\<close> with its error ignored: a file, a link, or an empty directory. \<open>os.Chmod\<close> follows
  links. \<open>os.ReadFile\<close> is opening and reading; \<open>os_read\<close> also gives the permissions \<open>os.Stat\<close> sees.
\<close>

definition os_remove :: "host \<Rightarrow> string list \<Rightarrow> fs \<Rightarrow> fs" where
  "os_remove H cs fs =
     (case ho_fault H (SysRemove cs) fs of
        Some e \<Rightarrow> fs
      | None \<Rightarrow>
          (case walk max_links False fs [] cs of
             Inl e \<Rightarrow> fs
           | Inr p \<Rightarrow> if list_ex (\<lambda>(q, n). strict_prefix p q) fs then fs else AList.delete p fs))"

definition os_chmod :: "host \<Rightarrow> string list \<Rightarrow> 32 word \<Rightarrow> fs \<Rightarrow> os_error option \<times> fs" where
  "os_chmod H cs mode fs =
     (case ho_fault H (SysChmod cs) fs of
        Some e \<Rightarrow> (Some (EOther e), fs)
      | None \<Rightarrow>
          (case walk max_links True fs [] cs of
             Inl e \<Rightarrow> (Some e, fs)
           | Inr p \<Rightarrow>
               (case map_of fs p of
                  None \<Rightarrow> (Some ENOENT, fs)
                | Some (NFile d m) \<Rightarrow> (None, AList.update p (NFile d mode) fs)
                | Some n \<Rightarrow> (None, fs))))"

definition os_read :: "host \<Rightarrow> string list \<Rightarrow> fs \<Rightarrow> os_error + string \<times> 32 word" where
  "os_read H cs fs =
     (case ho_fault H (SysOpen cs) fs of
        Some e \<Rightarrow> Inl (EOther e)
      | None \<Rightarrow>
          (case stat fs cs of
             Inl e \<Rightarrow> Inl e
           | Inr (NFile d m) \<Rightarrow> Inr (d, m)
           | Inr n \<Rightarrow> Inl EISDIR))"

text \<open>
  \<open>os.Rename\<close> of something that is not a directory: an existing directory is never replaced, and
  anything else at the new name is.
\<close>

definition os_rename :: "host \<Rightarrow> string list \<Rightarrow> string list \<Rightarrow> fs \<Rightarrow> os_error option \<times> fs" where
  "os_rename H old new fs =
     (case ho_fault H (SysRename old new) fs of
        Some e \<Rightarrow> (Some (EOther e), fs)
      | None \<Rightarrow>
          (case (walk max_links False fs [] old, walk max_links False fs [] new) of
             (Inl e, _) \<Rightarrow> (Some e, fs)
           | (_, Inl e) \<Rightarrow> (Some e, fs)
           | (Inr p, Inr q) \<Rightarrow>
               (case map_of fs p of
                  None \<Rightarrow> (Some ENOENT, fs)
                | Some n \<Rightarrow>
                    if map_of fs q = Some NDir then (Some EEXIST, fs)
                    else (None, AList.update q n (AList.delete p fs)))))"

definition IsPermission :: "os_error \<Rightarrow> bool" where
  "IsPermission e \<longleftrightarrow> e \<in> {EOther ''permission denied'', EOther ''operation not permitted''}"

section \<open>Confinement\<close>

text \<open>
  A directory \<open>ds\<close> as a jail: it is reached through real directories, and there is no symbolic
  link at or below it. What changed is confined to it if every other path reads as before.
\<close>

definition jail :: "string list \<Rightarrow> fs \<Rightarrow> bool" where
  "jail ds fs \<longleftrightarrow> plain_path ds \<and> (\<forall>p. prefix p ds \<longrightarrow> map_of fs p = Some NDir) \<and>
     (\<forall>p. prefix ds p \<longrightarrow> \<not> is_link (map_of fs p))"

definition confined :: "string list \<Rightarrow> fs \<Rightarrow> fs \<Rightarrow> bool" where
  "confined ds fs fs' \<longleftrightarrow> (\<forall>p. \<not> prefix ds p \<longrightarrow> map_of fs' p = map_of fs p)"

lemma confined_refl [simp]: "confined ds fs fs"
  by (simp add: confined_def)

lemma confined_trans: "confined ds fs1 fs2 \<Longrightarrow> confined ds fs2 fs3 \<Longrightarrow> confined ds fs1 fs3"
  by (simp add: confined_def)

lemma walk_no_links:
  assumes "plain_path cs"
    and "\<And>k. k \<le> length cs \<Longrightarrow> \<not> is_link (map_of fs (cur @ take k cs))"
    and "walk n follow fs cur cs = Inr p"
  shows "p = cur @ cs"
  using assms
proof (induction cs arbitrary: cur)
  case (Cons c cs)
  have nl: "\<not> is_link (map_of fs (cur @ [c]))"
    using Cons.prems(2) [of 1] by simp
  have c: "c \<noteq> []" "c \<noteq> ''.''" "c \<noteq> ''..''"
    using Cons.prems(1) by (auto simp: plain_def)
  have step: "walk n follow fs (cur @ [c]) cs = Inr p \<or> p = cur @ [c] \<and> cs = []"
    using Cons.prems(3) nl c
    by (auto simp: walk.simps(2) is_link_def split: option.splits node.splits if_splits)
  show ?case
  proof (cases "p = cur @ [c] \<and> cs = []")
    case False
    have "\<not> is_link (map_of fs ((cur @ [c]) @ take k cs))" if "k \<le> length cs" for k
      using Cons.prems(2) [of "Suc k"] that by simp
    with False have "p = (cur @ [c]) @ cs"
      using step Cons.prems(1) by (intro Cons.IH) auto
    then show ?thesis by simp
  qed simp
qed (simp add: walk.simps)

lemma jail_walk:
  assumes "jail ds fs" and "plain_path xs" and "walk n follow fs [] (ds @ xs) = Inr p"
  shows "p = ds @ xs"
proof -
  have nl: "\<not> is_link (map_of fs (take k (ds @ xs)))" for k
  proof (cases "k \<le> length ds")
    case True
    then have "prefix (take k (ds @ xs)) ds" by (simp add: take_is_prefix)
    then show ?thesis using assms(1) by (simp add: jail_def is_link_def)
  next
    case False
    then have "prefix ds (take k (ds @ xs))" by (simp add: take_is_prefix)
    then show ?thesis using assms(1) by (simp add: jail_def)
  qed
  have "p = [] @ (ds @ xs)"
    by (rule walk_no_links [OF _ _ assms(3)]) (use assms nl in \<open>auto simp: jail_def\<close>)
  then show ?thesis by simp
qed

text \<open>An update below the jail's root with something that is not a link keeps the jail.\<close>

lemma jail_update:
  assumes "jail ds fs" and "prefix ds p" and "\<not> is_link (Some n)" and "p = ds \<Longrightarrow> n = NDir"
  shows "jail ds (AList.update p n fs)" and "confined ds fs (AList.update p n fs)"
  using assms
  by (auto simp: jail_def confined_def gomap_simps dest: prefix_order.antisym)

text \<open>The system calls on a path below the root of the jail.\<close>

definition stays :: "string list \<Rightarrow> fs \<Rightarrow> fs \<Rightarrow> bool" where
  "stays ds fs fs' \<longleftrightarrow> (jail ds fs \<longrightarrow> jail ds fs' \<and> confined ds fs fs')"

lemma stays_refl [simp]: "stays ds fs fs"
  by (simp add: stays_def)

lemma stays_trans: "stays ds fs1 fs2 \<Longrightarrow> stays ds fs2 fs3 \<Longrightarrow> stays ds fs1 fs3"
  by (auto simp: stays_def intro: confined_trans)

lemma stays_update:
  assumes "prefix ds p" and "\<not> is_link (Some n)" and "jail ds fs \<Longrightarrow> p \<noteq> ds"
  shows "stays ds fs (AList.update p n fs)"
  using assms jail_update [of ds fs p n] by (auto simp: stays_def)

lemma jail_root: "jail ds fs \<Longrightarrow> map_of fs ds = Some NDir"
  by (simp add: jail_def)

lemma stays_mkdir:
  assumes "plain_path xs" and "os_mkdir H (ds @ xs) fs = (r, fs')"
  shows "stays ds fs fs'"
proof (cases "jail ds fs")
  case True
  have "fs' = fs \<or> (\<exists>p. walk max_links False fs [] (ds @ xs) = Inr p \<and> map_of fs p = None \<and>
      fs' = AList.update p NDir fs)"
    using assms(2) by (auto simp: os_mkdir_def split: option.splits sum.splits if_splits)
  then show ?thesis
  proof
    assume "\<exists>p. walk max_links False fs [] (ds @ xs) = Inr p \<and> map_of fs p = None \<and>
      fs' = AList.update p NDir fs"
    then have "map_of fs (ds @ xs) = None" "fs' = AList.update (ds @ xs) NDir fs"
      using jail_walk [OF True assms(1)] by auto
    then show ?thesis
      using jail_root [OF True] by (auto intro!: stays_update simp: is_link_def)
  qed simp
qed (simp add: stays_def)

lemma walk_dirs:
  assumes "plain_path cs" and "\<And>k. 0 < k \<Longrightarrow> k \<le> length cs \<Longrightarrow> map_of fs (cur @ take k cs) = Some NDir"
  shows "walk n follow fs cur cs = Inr (cur @ cs)"
  using assms
proof (induction cs arbitrary: cur)
  case (Cons c cs)
  have "map_of fs (cur @ [c]) = Some NDir" using Cons.prems(2) [of 1] by simp
  moreover have "map_of fs ((cur @ [c]) @ take k cs) = Some NDir" if "0 < k" "k \<le> length cs" for k
    using Cons.prems(2) [of "Suc k"] that by simp
  moreover have "c \<noteq> []" "c \<noteq> ''.''" "c \<noteq> ''..''" using Cons.prems(1) by (auto simp: plain_def)
  ultimately show ?case
    using Cons.IH [of "cur @ [c]"] Cons.prems(1) by (simp add: walk.simps(2))
qed simp

lemma jail_stat_prefix: "jail ds fs \<Longrightarrow> prefix cs ds \<Longrightarrow> stat fs cs = Inr NDir"
proof -
  assume j: "jail ds fs" and c: "prefix cs ds"
  have "walk max_links True fs [] cs = Inr ([] @ cs)"
  proof (rule walk_dirs)
    show "plain_path cs" using j c by (auto simp: jail_def prefix_def)
    have "prefix (take k cs) ds" for k using c by (meson prefix_order.trans take_is_prefix)
    then show "map_of fs ([] @ take k cs) = Some NDir" for k using j by (simp add: jail_def)
  qed
  moreover have "map_of fs cs = Some NDir" using j c by (simp add: jail_def)
  ultimately show ?thesis by (simp add: stat_def)
qed

lemma os_mkdir_all_result:
  assumes "os_mkdir_all H cs fs = (r, fs')"
  shows "fs' = fs \<or> fs' = snd (os_mkdir_all H (butlast cs) fs) \<or>
    fs' = snd (os_mkdir H cs (snd (os_mkdir_all H (butlast cs) fs)))"
proof (cases "os_mkdir_all H (butlast cs) fs")
  case (Pair r1 fs1)
  show ?thesis
    using assms
    by (subst (asm) os_mkdir_all.simps)
       (cases "os_mkdir H cs fs1";
        auto simp: Pair split: sum.splits node.splits option.splits if_splits)
qed

lemma stays_mkdir_all:
  assumes "plain_path xs" and "os_mkdir_all H (ds @ xs) fs = (r, fs')"
  shows "stays ds fs fs'"
  using assms
proof (induction xs arbitrary: r fs' rule: rev_induct)
  case Nil
  then show ?case
    by (cases "jail ds fs") (auto simp: os_mkdir_all.simps jail_stat_prefix stays_def)
next
  case (snoc x xs)
  obtain r1 fs1 where 1: "os_mkdir_all H (ds @ xs) fs = (r1, fs1)" by fastforce
  obtain r2 fs2 where 2: "os_mkdir H (ds @ xs @ [x]) fs1 = (r2, fs2)" by fastforce
  have b: "butlast (ds @ xs @ [x]) = ds @ xs" by (simp add: butlast_append)
  have "fs' = fs \<or> fs' = fs1 \<or> fs' = fs2"
    using os_mkdir_all_result [OF snoc.prems(2)] 1 2 b by simp
  moreover have "stays ds fs fs1" by (rule snoc.IH [OF _ 1]) (use snoc.prems(1) in simp)
  moreover have "stays ds fs1 fs2" by (rule stays_mkdir [OF snoc.prems(1) 2])
  ultimately show ?case using stays_trans [of ds fs fs1 fs2] by auto
qed

lemma os_create_result:
  assumes "os_create H cs mode fs = (r, fs')"
  obtains (error) e where "r = Inl e" "fs' = fs"
  | (made) p d m where "r = Inr p" "walk max_links True fs [] cs = Inr p"
      "map_of fs p \<noteq> Some NDir" "fs' = AList.update p (NFile d m) fs"
proof (cases "ho_fault H (SysOpen cs) fs")
  case (Some e)
  then show ?thesis using assms by (intro error [of "EOther e"]) (auto simp: os_create_def)
next
  case None
  show ?thesis
  proof (cases "walk max_links True fs [] cs")
    case (Inl e)
    then show ?thesis using assms None by (intro error [of e]) (auto simp: os_create_def)
  next
    case (Inr p)
    note w = this
    have r: "(r, fs') = (case map_of fs p of
        None \<Rightarrow> (Inr p, AList.update p (NFile [] (mode AND NOT (ho_umask H))) fs)
      | Some (NFile d m) \<Rightarrow> (Inr p, AList.update p (NFile [] m) fs)
      | Some NDir \<Rightarrow> (Inl EISDIR, fs)
      | Some (NLink t) \<Rightarrow> (Inl ELOOP, fs))"
      using assms None w by (simp add: os_create_def)
    show ?thesis
    proof (cases "map_of fs p")
      case None
      then show ?thesis using r w by (intro made) auto
    next
      case (Some n)
      then show ?thesis using r w by (cases n) (auto intro: made error)
    qed
  qed
qed

lemma stays_create:
  assumes "plain_path xs" and "os_create H (ds @ xs) mode fs = (r, fs')"
  shows "stays ds fs fs'" and "jail ds fs \<Longrightarrow> r = Inr p \<Longrightarrow> p = ds @ xs"
proof -
  show "jail ds fs \<Longrightarrow> r = Inr p \<Longrightarrow> p = ds @ xs"
    using assms(2) by (rule os_create_result) (auto dest: jail_walk [OF _ assms(1)])
  show "stays ds fs fs'"
  proof (cases "jail ds fs")
    case True
    from assms(2) show ?thesis
    proof (cases rule: os_create_result)
      case (made p d m)
      then have "p = ds @ xs" using jail_walk [OF True assms(1)] by blast
      with made show ?thesis using jail_root by (auto intro!: stays_update simp: is_link_def)
    qed simp
  qed (simp add: stays_def)
qed

lemma stays_write:
  assumes "prefix ds p"
  shows "stays ds fs (os_write p data fs)"
  using assms jail_root
  by (auto simp: os_write_def is_link_def intro!: stays_update split: option.splits node.splits)

lemma stays_copy:
  assumes "prefix ds p" and "os_copy H p data fs = (r, fs')"
  shows "stays ds fs fs'"
  using assms by (auto simp: os_copy_def stays_write split: option.splits prod.splits)

text \<open>The components of a clean absolute path are the path.\<close>

lemma path_comps_abs [simp]: "plain_path cs \<Longrightarrow> path_comps H (abs_path cs) = cs"
proof -
  assume p: "plain_path cs"
  have "filter (\<lambda>c. c \<noteq> []) cs = cs"
    using p by (auto simp: filter_id_conv list_all_iff plain_def)
  then show ?thesis
    using p plain_no_slash [OF p]
    by (cases "cs = []") (auto simp: path_comps_def abs_path_def split_join)
qed

section \<open>Calls on one file of a jail\<close>

text \<open>What changed is one of the given paths.\<close>

definition changes_only :: "string list set \<Rightarrow> fs \<Rightarrow> fs \<Rightarrow> bool" where
  "changes_only ps fs fs' \<longleftrightarrow> (\<forall>q. q \<notin> ps \<longrightarrow> map_of fs' q = map_of fs q)"

lemma changes_only_refl [simp]: "changes_only ps fs fs"
  by (simp add: changes_only_def)

lemma changes_only_trans: "changes_only ps fs1 fs2 \<Longrightarrow> changes_only qs fs2 fs3 \<Longrightarrow>
    changes_only (ps \<union> qs) fs1 fs3"
  by (simp add: changes_only_def)

lemma changes_only_mono: "changes_only ps fs fs' \<Longrightarrow> ps \<subseteq> qs \<Longrightarrow> changes_only qs fs fs'"
  by (auto simp: changes_only_def)

lemma changes_only_update: "p \<in> ps \<Longrightarrow> changes_only ps fs (AList.update p n fs)"
  by (auto simp: changes_only_def gomap_simps)

lemma changes_only_delete: "p \<in> ps \<Longrightarrow> changes_only ps fs (AList.delete p fs)"
  by (auto simp: changes_only_def delete_conv')

lemma jail_put_file: "jail ds fs \<Longrightarrow> xs \<noteq> [] \<Longrightarrow> jail ds (AList.update (ds @ xs) (NFile d m) fs)"
  by (rule jail_update) (auto simp: is_link_def)

lemma jail_delete: "jail ds fs \<Longrightarrow> xs \<noteq> [] \<Longrightarrow> jail ds (AList.delete (ds @ xs) fs)"
  by (auto simp: jail_def delete_conv' is_link_def dest: prefix_order.antisym)

text \<open>Each call on the file \<open>ds @ xs\<close>, below the root of the jail.\<close>

lemma jail_walk_cases:
  assumes "jail ds fs" "plain_path xs"
  obtains (error) e where "walk n follow fs [] (ds @ xs) = Inl e"
  | (found) "walk n follow fs [] (ds @ xs) = Inr (ds @ xs)"
  using jail_walk [OF assms] by (cases "walk n follow fs [] (ds @ xs)") auto

lemma put_file:
  assumes "fs' = fs \<or> (\<exists>d m. fs' = AList.update (ds @ xs) (NFile d m) fs)" and "jail ds fs" "xs \<noteq> []"
  shows "jail ds fs'" and "changes_only {ds @ xs} fs fs'"
  using assms by (auto intro: jail_put_file changes_only_update)

lemma file_create:
  assumes "os_create H (ds @ xs) mode fs = (r, fs')" and "jail ds fs" "plain_path xs" "xs \<noteq> []"
  shows "jail ds fs'" and "changes_only {ds @ xs} fs fs'"
    and "r = Inr p \<Longrightarrow> p = ds @ xs \<and> (\<exists>m. map_of fs' (ds @ xs) = Some (NFile [] m))"
proof -
  have "fs' = fs \<and> (\<forall>p. r \<noteq> Inr p) \<or>
      (\<exists>d m. fs' = AList.update (ds @ xs) (NFile [] m) fs) \<and> r = Inr (ds @ xs)"
    using assms(1)
    by (cases rule: jail_walk_cases [OF assms(2,3), of max_links True])
      (auto simp: os_create_def split: option.splits node.splits)
  then show "jail ds fs'" "changes_only {ds @ xs} fs fs'"
      "r = Inr p \<Longrightarrow> p = ds @ xs \<and> (\<exists>m. map_of fs' (ds @ xs) = Some (NFile [] m))"
    using put_file [OF _ assms(2,4), of fs'] by (auto simp: gomap_simps)
qed

lemma file_copy:
  assumes "os_copy H (ds @ xs) data fs = (r, fs')" and "jail ds fs" "xs \<noteq> []"
  shows "jail ds fs'" and "changes_only {ds @ xs} fs fs'"
    and "map_of fs (ds @ xs) = Some (NFile d m) \<Longrightarrow> \<exists>d. map_of fs' (ds @ xs) = Some (NFile d m)"
    and "map_of fs (ds @ xs) = Some (NFile d m) \<Longrightarrow> r = (n, None) \<Longrightarrow>
      map_of fs' (ds @ xs) = Some (NFile (d @ data) m)"
  using assms
  by (auto simp: os_copy_def os_write_def gomap_simps intro: jail_put_file changes_only_update
      split: option.splits node.splits)

lemma file_chmod:
  assumes "os_chmod H (ds @ xs) mode fs = (r, fs')" and "jail ds fs" "plain_path xs" "xs \<noteq> []"
    and "map_of fs (ds @ xs) = Some (NFile d m)"
  shows "jail ds fs'" and "changes_only {ds @ xs} fs fs'"
    and "r = None \<Longrightarrow> map_of fs' (ds @ xs) = Some (NFile d mode)"
    and "\<exists>m. map_of fs' (ds @ xs) = Some (NFile d m)"
proof -
  have "fs' = fs \<and> r \<noteq> None \<or> fs' = AList.update (ds @ xs) (NFile d mode) fs \<and> r = None"
    using assms(1,5)
    by (cases rule: jail_walk_cases [OF assms(2,3), of max_links True])
      (auto simp: os_chmod_def split: option.splits)
  then show "jail ds fs'" "changes_only {ds @ xs} fs fs'" "\<exists>m. map_of fs' (ds @ xs) = Some (NFile d m)"
      "r = None \<Longrightarrow> map_of fs' (ds @ xs) = Some (NFile d mode)"
    using put_file [OF _ assms(2,4), of fs'] assms(5) by (auto simp: gomap_simps)
qed

lemma file_remove:
  assumes "jail ds fs" "plain_path xs" "xs \<noteq> []"
  shows "jail ds (os_remove H (ds @ xs) fs)" and "changes_only {ds @ xs} fs (os_remove H (ds @ xs) fs)"
proof -
  have "os_remove H (ds @ xs) fs \<in> {fs, AList.delete (ds @ xs) fs}"
    by (cases rule: jail_walk_cases [OF assms(1,2), of max_links False])
      (auto simp: os_remove_def split: option.splits)
  then show "jail ds (os_remove H (ds @ xs) fs)" "changes_only {ds @ xs} fs (os_remove H (ds @ xs) fs)"
    using jail_delete [OF assms(1,3)] assms(1) by (auto simp: changes_only_delete)
qed

lemma file_rename:
  assumes "os_rename H (ds @ xs) (ds @ ys) fs = (r, fs')" and "jail ds fs" "plain_path xs" "xs \<noteq> []"
    and "plain_path ys" "ys \<noteq> []" and "map_of fs (ds @ xs) = Some (NFile d m)"
  shows "jail ds fs'" and "changes_only {ds @ xs, ds @ ys} fs fs'"
    and "r = None \<Longrightarrow> map_of fs' (ds @ ys) = Some (NFile d m)"
    and "r = Some e \<Longrightarrow> fs' = fs"
proof -
  have c: "r \<noteq> None \<and> fs' = fs \<or> r = None \<and> fs' = AList.update (ds @ ys) (NFile d m) (AList.delete (ds @ xs) fs)"
    using assms(1,7)
    by (cases rule: jail_walk_cases [OF assms(2,3), of max_links False];
        cases rule: jail_walk_cases [OF assms(2,5), of max_links False])
      (auto simp: os_rename_def split: option.splits if_splits)
  have "jail ds (AList.update (ds @ ys) (NFile d m) (AList.delete (ds @ xs) fs))"
    by (intro jail_put_file jail_delete assms)
  then show "jail ds fs'" "changes_only {ds @ xs, ds @ ys} fs fs'"
      "r = None \<Longrightarrow> map_of fs' (ds @ ys) = Some (NFile d m)" "r = Some e \<Longrightarrow> fs' = fs"
    using c assms(2) by (auto simp: gomap_simps changes_only_def delete_conv')
qed

lemma file_stat:
  assumes "stat fs (ds @ xs) = Inr n" and "jail ds fs" "plain_path xs"
  shows "map_of fs (ds @ xs) = Some n"
  using assms(1) jail_walk [OF assms(2,3)] by (auto simp: stat_def split: sum.splits option.splits)

section \<open>Stored bytes\<close>

fun node_bytes :: "node option \<Rightarrow> nat" where
  "node_bytes (Some (NFile d m)) = length d"
| "node_bytes _ = 0"

definition fs_bytes :: "fs \<Rightarrow> nat" where
  "fs_bytes fs = (\<Sum>(p, n) \<leftarrow> fs. node_bytes (Some n))"

lemma fs_bytes_update:
  "fs_bytes (AList.update p n fs) + node_bytes (map_of fs p) = fs_bytes fs + node_bytes (Some n)"
  by (induction fs) (auto simp: fs_bytes_def)

lemma fs_bytes_same: "node_bytes (map_of fs p) = node_bytes (Some n) \<Longrightarrow>
    fs_bytes (AList.update p n fs) = fs_bytes fs"
  using fs_bytes_update [of p n fs] by simp

lemma fs_bytes_le: "node_bytes (Some n) \<le> node_bytes (map_of fs p) + k \<Longrightarrow>
    fs_bytes (AList.update p n fs) \<le> fs_bytes fs + k"
  using fs_bytes_update [of p n fs] by linarith

lemma mkdir_bytes: "fs_bytes (snd (os_mkdir H cs fs)) = fs_bytes fs"
  by (auto simp: os_mkdir_def fs_bytes_same split: option.splits sum.splits)

lemma mkdir_all_bytes: "fs_bytes (snd (os_mkdir_all H cs fs)) = fs_bytes fs"
proof (induction "length cs" arbitrary: cs)
  case 0
  then show ?case
    by (subst os_mkdir_all.simps) (simp split: sum.splits node.splits)
next
  case (Suc n)
  then have IH: "fs_bytes (snd (os_mkdir_all H (butlast cs) fs)) = fs_bytes fs" by simp
  show ?case
    using os_mkdir_all_result [of H cs fs "fst (os_mkdir_all H cs fs)" "snd (os_mkdir_all H cs fs)"]
      IH mkdir_bytes by fastforce
qed

lemma create_bytes: "fs_bytes (snd (os_create H cs mode fs)) \<le> fs_bytes fs"
  using fs_bytes_le [where k = 0]
  by (simp add: os_create_def split: option.splits node.splits sum.splits)

lemma write_bytes: "fs_bytes (os_write p data fs) \<le> fs_bytes fs + length data"
  using fs_bytes_le [where k = "length data"]
  by (simp add: os_write_def split: option.splits node.splits)

lemma write_take_bytes: "fs_bytes (os_write p (take k data) fs) \<le> fs_bytes fs + length data"
  using write_bytes [of p "take k data" fs] by simp

lemma copy_bytes:
  assumes "os_copy H p data fs = ((written, err), fs')"
  shows "written \<le> length data" and "fs_bytes fs' \<le> fs_bytes fs + length data"
    and "err = None \<Longrightarrow> written = length data"
  using assms write_bytes [of p data fs] write_take_bytes [of p _ data fs]
  by (auto simp: os_copy_def split: option.splits)

section \<open>A sample tree\<close>

lemma jail_check:
  assumes "plain_path ds"
    and "list_all (\<lambda>k. map_of fs (take k ds) = Some NDir) [0..<Suc (length ds)]"
    and "list_all (\<lambda>(p, n). prefix ds p \<longrightarrow> \<not> is_link (Some n)) fs"
  shows "jail ds fs"
  unfolding jail_def
proof (intro conjI allI impI)
  fix p assume "prefix p ds"
  then have "p = take (length p) ds" "length p \<le> length ds"
    by (auto simp: prefix_def)
  then show "map_of fs p = Some NDir"
    using assms(2) unfolding list_all_iff set_upt by (metis atLeastLessThan_iff le_imp_less_Suc zero_le)
next
  fix p assume "prefix ds p"
  then show "\<not> is_link (map_of fs p)"
    using assms(3) by (cases "map_of fs p") (auto simp: list_all_iff is_link_def dest!: map_of_SomeD)
qed (rule assms(1))

definition sample_host :: host where
  "sample_host =
     \<lparr>ho_cwd = ''/work'', ho_getwd_error = None, ho_umask = 0x12,
      ho_fault = \<lambda>c fs. None, ho_write_fault = \<lambda>p d fs. None,
      ho_temp_name = \<lambda>fs. Inr ''/tmp/b'', ho_dir_mode = \<lambda>p fs. 0x1E8,
      ho_error_text = \<lambda>e. if e = ENOENT then ''no such file or directory'' else ''failed''\<rparr>"

definition sample_fs :: fs where
  "sample_fs =
     [([], NDir), ([''tmp''], NDir), ([''tmp'', ''b''], NDir), ([''etc''], NDir),
      ([''etc'', ''passwd''], NFile ''root'' 0x1A4)]"

lemma sample_jail: "jail [''tmp'', ''b''] sample_fs"
  by (rule jail_check) code_simp+

end
