(* ===== verification/Archive.thy ===== *)
theory Archive
  imports World File_System "HOL-Library.List_Lexorder" "HOL-Library.Char_ord"
begin

text \<open>
  Source archives (\<open>extractTarGzStripped\<close> and \<open>tarDirectory\<close> in \<open>internal/runner/runner.go\<close>).
  The gzip and tar readers turn the byte stream into a list of entries, the argument of the
  extraction; paths are checked and the entries are written to the file tree of File_System.
\<close>

section \<open>Extraction\<close>

text \<open>
  What \<open>gzip.NewReader\<close> and the calls of \<open>tr.Next\<close> return: entries up to the end or to an error.
\<close>

datatype tar_stream = NotGzip string | Tar "tar_entry list" "string option"

datatype extract_error =
    InvalidGzip string
  | TarRead string
  | CannotResolve string string
  | PathTraversal string
  | MkdirFailed string os_error
  | MkdirParentFailed string os_error
  | CreateFailed string os_error
  | WriteFailed string string
  | ArchiveTooLarge
  | AbsoluteSymlink string string
  | EscapingSymlink string string
  | SymlinkFailed string os_error

definition maxExtractedBytes :: int where
  "maxExtractedBytes = 500 * 2 ^ 20"

text \<open>The ignored error of \<open>absDst, _ := filepath.Abs(dst)\<close> leaves the empty string.\<close>

definition abs_or_empty :: "host \<Rightarrow> string \<Rightarrow> string" where
  "abs_or_empty H p = (case os_abs H p of Inl e \<Rightarrow> [] | Inr a \<Rightarrow> a)"

text \<open>
  One regular file: parents, open with the permissions masked by \<open>0755\<close> (\<open>0x1ED\<close>), copy at most
  what the limit leaves, count.
\<close>

definition extract_file ::
    "host \<Rightarrow> string \<Rightarrow> tar_entry \<Rightarrow> fs \<Rightarrow> int \<Rightarrow> extract_error option \<times> fs \<times> int" where
  "extract_file H target hdr fs totalWritten =
     (case os_mkdir_all H (path_comps H (Dir target)) fs of
        (Some e, fs1) \<Rightarrow> (Some (MkdirParentFailed target e), fs1, totalWritten)
      | (None, fs1) \<Rightarrow>
          (case os_create H (path_comps H target) (te_Mode hdr AND 0x1ED) fs1 of
             (Inl e, fs2) \<Rightarrow> (Some (CreateFailed target e), fs2, totalWritten)
           | (Inr p, fs2) \<Rightarrow>
               (let limit = maxExtractedBytes - totalWritten + 1;
                    chunk = take (nat limit) (te_Data hdr);
                    ((written, writeErr), fs3) = os_copy H p chunk fs2;
                    copyErr = (case writeErr of
                        Some e \<Rightarrow> Some e
                      | None \<Rightarrow> if int (length (te_Data hdr)) < limit then te_DataError hdr else None)
                in case copyErr of
                     Some e \<Rightarrow> (Some (WriteFailed target e), fs3, totalWritten)
                   | None \<Rightarrow>
                       (let tw = totalWritten + int written
                        in if tw > maxExtractedBytes then (Some ArchiveTooLarge, fs3, tw)
                           else (None, fs3, tw)))))"

definition extract_symlink ::
    "host \<Rightarrow> string \<Rightarrow> string \<Rightarrow> tar_entry \<Rightarrow> fs \<Rightarrow> extract_error option \<times> fs" where
  "extract_symlink H absDst target hdr fs =
     (if IsAbs (te_Linkname hdr) then (Some (AbsoluteSymlink (te_Name hdr) (te_Linkname hdr)), fs)
      else
        (let linkTarget = Join [Dir target, te_Linkname hdr];
             absLink = abs_or_empty H linkTarget
         in if \<not> HasPrefix absLink (absDst @ ''/'')
            then (Some (EscapingSymlink (te_Name hdr) (te_Linkname hdr)), fs)
            else
              (case os_symlink H (te_Linkname hdr) (path_comps H target) fs of
                 (Some e, fs1) \<Rightarrow>
                   if e \<noteq> EEXIST then (Some (SymlinkFailed target e), fs1) else (None, fs1)
               | (None, fs1) \<Rightarrow> (None, fs1))))"

definition extract_entry ::
    "host \<Rightarrow> string \<Rightarrow> tar_entry \<Rightarrow> fs \<Rightarrow> int \<Rightarrow> extract_error option \<times> fs \<times> int" where
  "extract_entry H dst hdr fs totalWritten =
     (case SplitN2 CHR ''/'' (te_Name hdr) of
        [_, relPath] \<Rightarrow>
          if relPath = [] then (None, fs, totalWritten)
          else
            (let target = Join [dst, relPath]
             in case os_abs H target of
                  Inl e \<Rightarrow> (Some (CannotResolve target e), fs, totalWritten)
                | Inr absTarget \<Rightarrow>
                    (let absDst = abs_or_empty H dst
                     in if \<not> HasPrefix absTarget (absDst @ ''/'') \<and> absTarget \<noteq> absDst
                        then (Some (PathTraversal (te_Name hdr)), fs, totalWritten)
                        else
                          (case te_Typeflag hdr of
                             TypeDir \<Rightarrow>
                               (case os_mkdir_all H (path_comps H target) fs of
                                  (Some e, fs1) \<Rightarrow> (Some (MkdirFailed target e), fs1, totalWritten)
                                | (None, fs1) \<Rightarrow> (None, fs1, totalWritten))
                           | TypeReg \<Rightarrow> extract_file H target hdr fs totalWritten
                           | TypeSymlink \<Rightarrow>
                               (case extract_symlink H absDst target hdr fs of
                                  (r, fs1) \<Rightarrow> (r, fs1, totalWritten))
                           | TypeOther \<Rightarrow> (None, fs, totalWritten))))
      | _ \<Rightarrow> (None, fs, totalWritten))"

fun extract_entries ::
    "host \<Rightarrow> string \<Rightarrow> tar_entry list \<Rightarrow> string option \<Rightarrow> fs \<Rightarrow> int \<Rightarrow>
       extract_error option \<times> fs \<times> int" where
  "extract_entries H dst [] tail fs totalWritten =
     (case tail of
        None \<Rightarrow> (None, fs, totalWritten)
      | Some e \<Rightarrow> (Some (TarRead e), fs, totalWritten))"
| "extract_entries H dst (hdr # hdrs) tail fs totalWritten =
     (case extract_entry H dst hdr fs totalWritten of
        (Some e, fs1, tw) \<Rightarrow> (Some e, fs1, tw)
      | (None, fs1, tw) \<Rightarrow> extract_entries H dst hdrs tail fs1 tw)"

definition extractTarGzStripped ::
    "host \<Rightarrow> tar_stream \<Rightarrow> string \<Rightarrow> fs \<Rightarrow> extract_error option \<times> fs" where
  "extractTarGzStripped H r dst fs =
     (case r of
        NotGzip e \<Rightarrow> (Some (InvalidGzip e), fs)
      | Tar hdrs tail \<Rightarrow>
          (case extract_entries H dst hdrs tail fs 0 of (res, fs1, tw) \<Rightarrow> (res, fs1)))"

fun extract_error_text :: "host \<Rightarrow> extract_error \<Rightarrow> string" where
  "extract_error_text H (InvalidGzip e) = ''not a valid gzip stream: '' @ e"
| "extract_error_text H (TarRead e) = ''error reading tar: '' @ e"
| "extract_error_text H (CannotResolve target e) = ''cannot resolve path '' @ target @ '': '' @ e"
| "extract_error_text H (PathTraversal name) =
     ''illegal path in archive (path traversal): '' @ name"
| "extract_error_text H (MkdirFailed target e) = ''mkdir '' @ target @ '': '' @ ho_error_text H e"
| "extract_error_text H (MkdirParentFailed target e) =
     ''mkdir parent of '' @ target @ '': '' @ ho_error_text H e"
| "extract_error_text H (CreateFailed target e) =
     ''create file '' @ target @ '': '' @ ho_error_text H e"
| "extract_error_text H (WriteFailed target e) = ''write file '' @ target @ '': '' @ e"
| "extract_error_text H ArchiveTooLarge =
     ''archive exceeds maximum extracted size ('' @ show_int maxExtractedBytes @ '' bytes)''"
| "extract_error_text H (AbsoluteSymlink name link) =
     ''illegal symlink in archive (absolute target): '' @ name @ '' -> '' @ link"
| "extract_error_text H (EscapingSymlink name link) =
     ''illegal symlink in archive (escapes root): '' @ name @ '' -> '' @ link"
| "extract_error_text H (SymlinkFailed target e) =
     ''symlink '' @ target @ '': '' @ ho_error_text H e"

section \<open>The build context\<close>

text \<open>
  \<open>tarDirectory\<close>: \<open>filepath.Walk\<close> visits the tree in lexical order, a directory before what it
  holds, without following links; sorting the component lists gives that order. Each visit
  writes a header, and the content of a regular file. The first error ends the stream.
\<close>

definition walk_paths :: "fs \<Rightarrow> string list \<Rightarrow> string list list" where
  "walk_paths fs root =
     sort (filter (\<lambda>p. prefix root p \<and>
                     list_all (\<lambda>k. map_of fs (take k p) = Some NDir) [length root..<length p])
             (remdups (map fst fs)))"

definition rel_name :: "string list \<Rightarrow> string list \<Rightarrow> string" where
  "rel_name root p = (if p = root then ''.'' else join_slash (drop (length root) p))"

text \<open>
  \<open>tar.FileInfoHeader(fi, "")\<close> is given no link target, so the header of a link has none.
\<close>

definition tar_one :: "host \<Rightarrow> fs \<Rightarrow> string list \<Rightarrow> string list \<Rightarrow> tar_entry \<times> string option" where
  "tar_one H fs root p =
     (case map_of fs p of
        Some (NFile d m) \<Rightarrow>
          (case ho_fault H (SysOpen p) fs of
             None \<Rightarrow> (\<lparr>te_Name = rel_name root p, te_Typeflag = TypeReg, te_Linkname = [],
                      te_Mode = m, te_Data = d, te_DataError = None\<rparr>, None)
           | Some e \<Rightarrow> (\<lparr>te_Name = rel_name root p, te_Typeflag = TypeReg, te_Linkname = [],
                      te_Mode = m, te_Data = [], te_DataError = Some e\<rparr>, Some e))
      | Some (NLink t) \<Rightarrow> (\<lparr>te_Name = rel_name root p, te_Typeflag = TypeSymlink, te_Linkname = [],
            te_Mode = 0x1FF, te_Data = [], te_DataError = None\<rparr>, None)
      | _ \<Rightarrow> (\<lparr>te_Name = rel_name root p, te_Typeflag = TypeDir, te_Linkname = [],
            te_Mode = ho_dir_mode H p fs, te_Data = [], te_DataError = None\<rparr>, None))"

fun tar_all :: "host \<Rightarrow> fs \<Rightarrow> string list \<Rightarrow> string list list \<Rightarrow> tar_entry list \<times> string option" where
  "tar_all H fs root [] = ([], None)"
| "tar_all H fs root (p # ps) =
     (case tar_one H fs root p of
        (hdr, Some e) \<Rightarrow> ([hdr], Some e)
      | (hdr, None) \<Rightarrow> (let (hdrs, err) = tar_all H fs root ps in (hdr # hdrs, err)))"

definition tarDirectory :: "host \<Rightarrow> fs \<Rightarrow> string \<Rightarrow> tar_entry list \<times> string option" where
  "tarDirectory H fs dir =
     (case walk max_links False fs [] (path_comps H dir) of
        Inl e \<Rightarrow> ([], Some (ho_error_text H e))
      | Inr root \<Rightarrow>
          if map_of fs root = None then ([], Some (ho_error_text H ENOENT))
          else tar_all H fs root (walk_paths fs root))"

section \<open>Lemmas\<close>

text \<open>For evaluation: data below the limit is not cut, and the limit is never counted down.\<close>

definition upto_limit :: "int \<Rightarrow> string \<Rightarrow> string" where
  "upto_limit limit data = (if int (length data) \<le> limit then data else take (nat limit) data)"

lemma take_limit [code_unfold]: "take (nat limit) data = upto_limit limit data"
  by (auto simp: upto_limit_def nat_le_iff not_le)

lemma os_abs_path [simp]: "plain_path cs \<Longrightarrow> os_abs H (abs_path cs) = Inr (abs_path cs)"
  by (simp add: os_abs_def)

lemma abs_or_empty_path [simp]: "plain_path cs \<Longrightarrow> abs_or_empty H (abs_path cs) = abs_path cs"
  by (simp add: abs_or_empty_def)

text \<open>
  The check of an entry's path, for an absolute destination that is not the root: what passes is
  the destination or lies below it.
\<close>

definition entry_comps :: "string list \<Rightarrow> string \<Rightarrow> string list" where
  "entry_comps ds relPath = clean_comps True (rev ds) (split_slash relPath)"

text \<open>Where an entry goes: the components of its target, if its name has a second component.\<close>

definition entry_target :: "string list \<Rightarrow> tar_entry \<Rightarrow> string list option" where
  "entry_target ds hdr =
     (case SplitN2 CHR ''/'' (te_Name hdr) of
        [_, rel] \<Rightarrow> if rel = [] then None else Some (entry_comps ds rel)
      | _ \<Rightarrow> None)"

lemma entry_comps_plain: "plain_path ds \<Longrightarrow> plain_path (entry_comps ds relPath)"
  unfolding entry_comps_def
  by (rule clean_comps_plain) (auto dest: split_slash_comps simp: list_all_iff)

lemma path_check:
  assumes "plain_path ds" and "ds \<noteq> []" and "plain_path ts"
  shows "HasPrefix (abs_path ts) (abs_path ds @ ''/'') \<or> abs_path ts = abs_path ds \<longleftrightarrow> prefix ds ts"
  unfolding prefix_comps [OF assms(3,1,2)] abs_path_inj [OF assms(3,1)] prefix_def
  by (metis append_Nil2 list.exhaust)

text \<open>An entry in the jail: the cases of \<open>extract_entry\<close>, in components.\<close>

lemma extract_entry_cases [consumes 3, case_names skip traversal inside]:
  assumes "extract_entry H (abs_path ds) hdr fs tw = (r, fs', tw')"
    and "plain_path ds" and "ds \<noteq> []"
  obtains "r = None" "fs' = fs" "tw' = tw" "entry_target ds hdr = None"
  | "r = Some (PathTraversal (te_Name hdr))" "fs' = fs" "tw' = tw"
  | xs where "plain_path xs" "entry_target ds hdr = Some (ds @ xs)"
      "(case te_Typeflag hdr of
          TypeDir \<Rightarrow>
            (case os_mkdir_all H (ds @ xs) fs of
               (Some e, fs1) \<Rightarrow> (Some (MkdirFailed (abs_path (ds @ xs)) e), fs1, tw)
             | (None, fs1) \<Rightarrow> (None, fs1, tw))
        | TypeReg \<Rightarrow> extract_file H (abs_path (ds @ xs)) hdr fs tw
        | TypeSymlink \<Rightarrow>
            (case extract_symlink H (abs_path ds) (abs_path (ds @ xs)) hdr fs of
               (r, fs1) \<Rightarrow> (r, fs1, tw))
        | TypeOther \<Rightarrow> (None, fs, tw)) = (r, fs', tw')"
proof (cases rule: SplitN2_cases [of "CHR ''/''" "te_Name hdr"])
  case whole
  then show ?thesis using that(1) assms(1) by (simp add: extract_entry_def entry_target_def)
next
  case (parts a rel)
  show ?thesis
  proof (cases "rel = []")
    case True
    then show ?thesis using that(1) assms(1) parts by (simp add: extract_entry_def entry_target_def)
  next
    case False
    let ?ts = "entry_comps ds rel"
    have ts: "plain_path ?ts" using assms(2) by (rule entry_comps_plain)
    have j: "Join [abs_path ds, rel] = abs_path ?ts"
      using Join_abs [OF assms(2)] by (simp add: entry_comps_def)
    show ?thesis
    proof (cases "prefix ds ?ts")
      case True
      then obtain xs where xs: "?ts = ds @ xs" by (auto simp: prefix_def)
      have p: "plain_path xs" using ts xs by simp
      have pc: "path_comps H (abs_path (ds @ xs)) = ds @ xs" using p assms(2) by simp
      have ok: "(\<not> HasPrefix (abs_path (ds @ xs)) (abs_path ds @ ''/'') \<and>
          abs_path (ds @ xs) \<noteq> abs_path ds) = False"
        using path_check [OF assms(2,3) ts] True xs by auto
      have "os_abs H (abs_path (ds @ xs)) = Inr (abs_path (ds @ xs))"
        and "abs_or_empty H (abs_path ds) = abs_path ds"
        using p assms(2) by simp_all
      moreover have "entry_target ds hdr = Some (ds @ xs)"
        using False xs by (simp add: entry_target_def parts(1))
      ultimately show ?thesis
        using assms(1) False
        unfolding extract_entry_def Let_def parts(1)
        by (simp only: list.case j xs sum.case ok if_False pc) (rule that(3) [OF p])
    next
      case no: False
      then show ?thesis
        using that(2) assms parts False ts path_check [OF assms(2,3) ts]
        by (simp add: extract_entry_def j Let_def)
    qed
  qed
qed

lemma extract_file_cases [consumes 1, case_names parent create copied]:
  assumes "extract_file H target hdr fs tw = (r, fs', tw')"
  obtains e where "r = Some (MkdirParentFailed target e)" "tw' = tw"
      "os_mkdir_all H (path_comps H (Dir target)) fs = (Some e, fs')"
  | e fs1 where "r = Some (CreateFailed target e)" "tw' = tw"
      "os_mkdir_all H (path_comps H (Dir target)) fs = (None, fs1)"
      "os_create H (path_comps H target) (te_Mode hdr AND 0x1ED) fs1 = (Inl e, fs')"
  | p fs1 fs2 written werr where
      "os_mkdir_all H (path_comps H (Dir target)) fs = (None, fs1)"
      "os_create H (path_comps H target) (te_Mode hdr AND 0x1ED) fs1 = (Inr p, fs2)"
      "os_copy H p (take (nat (maxExtractedBytes - tw + 1)) (te_Data hdr)) fs2 = ((written, werr), fs')"
      "r = None \<and> werr = None \<and> tw' = tw + int written \<and> tw' \<le> maxExtractedBytes \<or>
       r = Some ArchiveTooLarge \<and> werr = None \<and> tw' = tw + int written \<and> tw' > maxExtractedBytes \<or>
       (\<exists>e. r = Some (WriteFailed target e)) \<and> tw' = tw"
      "r = None \<Longrightarrow> int (length (te_Data hdr)) < maxExtractedBytes - tw + 1 \<Longrightarrow> te_DataError hdr = None"
proof -
  obtain r1 fs1 where 1: "os_mkdir_all H (path_comps H (Dir target)) fs = (r1, fs1)" by fastforce
  show ?thesis
  proof (cases r1)
    case (Some e)
    then show ?thesis using that(1) [of e] assms 1 by (auto simp: extract_file_def)
  next
    case None
    obtain r2 fs2 where 2: "os_create H (path_comps H target) (te_Mode hdr AND 0x1ED) fs1 = (r2, fs2)"
      by fastforce
    show ?thesis
    proof (cases r2)
      case (Inl e)
      then show ?thesis using that(2) [of e fs1] assms 1 2 None by (auto simp: extract_file_def)
    next
      case (Inr p)
      obtain written werr fs3 where 3:
        "os_copy H p (take (nat (maxExtractedBytes - tw + 1)) (te_Data hdr)) fs2 = ((written, werr), fs3)"
        by (metis prod.exhaust)
      have res: "(case (case werr of Some e \<Rightarrow> Some e
          | None \<Rightarrow> if int (length (te_Data hdr)) < maxExtractedBytes - tw + 1
                    then te_DataError hdr else None) of
           Some e \<Rightarrow> (Some (WriteFailed target e), fs3, tw)
         | None \<Rightarrow>
             if tw + int written > maxExtractedBytes then (Some ArchiveTooLarge, fs3, tw + int written)
             else (None, fs3, tw + int written)) = (r, fs', tw')"
        using assms by (simp add: extract_file_def 1 None 2 Inr 3 Let_def)
      then have "fs' = fs3" by (auto split: option.splits if_splits)
      with res 1 2 3 None Inr show ?thesis
        by (intro that(3)) (auto split: option.splits if_splits)
    qed
  qed
qed

text \<open>What one regular file changes stays below the destination.\<close>

lemma stays_parent:
  assumes "os_mkdir_all H (path_comps H (Dir (abs_path (ds @ xs)))) fs = (r1, fs1)"
    and "plain_path ds" and "plain_path xs"
  shows "stays ds fs fs1"
proof (cases xs rule: rev_cases)
  case Nil
  show ?thesis
  proof (cases ds rule: rev_cases)
    case Nil
    then show ?thesis using assms(1) \<open>xs = []\<close>
      by (cases "jail ds fs")
         (auto simp: Dir_def abs_path_def Clean_def path_comps_def os_mkdir_all.simps
            jail_stat_prefix stays_def)
  next
    case (snoc ys y)
    then have "path_comps H (Dir (abs_path (ds @ xs))) = ys"
      using assms(2) \<open>xs = []\<close> Dir_abs [of ys y] by simp
    then show ?thesis
      using assms(1) snoc
      by (cases "jail ds fs") (auto simp: os_mkdir_all.simps jail_stat_prefix stays_def)
  qed
next
  case (snoc ys y)
  then have "path_comps H (Dir (abs_path (ds @ xs))) = ds @ ys"
    using assms(2,3) Dir_abs [of "ds @ ys" y] by simp
  then show ?thesis using assms(1,3) snoc by (auto intro: stays_mkdir_all)
qed

lemma extract_file_stays:
  assumes "extract_file H (abs_path (ds @ xs)) hdr fs tw = (r, fs', tw')"
    and "plain_path ds" and "plain_path xs"
  shows "stays ds fs fs'"
proof -
  have c: "path_comps H (abs_path (ds @ xs)) = ds @ xs" using assms(2,3) by simp
  note par = stays_parent [OF _ assms(2,3)]
  show ?thesis
    using assms(1)
  proof (cases rule: extract_file_cases)
    case (parent e)
    then show ?thesis using par by blast
  next
    case (create e fs1)
    then have "stays ds fs1 fs'" using stays_create(1) [OF assms(3)] c by simp
    then show ?thesis using par [OF create(3)] stays_trans [of ds fs fs1 fs'] by blast
  next
    case (copied p fs1 fs2 written werr)
    have 1: "stays ds fs fs1" using par [OF copied(1)] .
    have 2: "stays ds fs1 fs2" and p: "jail ds fs1 \<Longrightarrow> p = ds @ xs"
      using stays_create [OF assms(3)] copied(2) c by simp_all
    have "stays ds fs2 fs'" if "jail ds fs1"
      using p [OF that] copied(3) stays_copy [of ds "ds @ xs"] by simp
    with 1 2 show ?thesis unfolding stays_def by (meson confined_trans)
  qed
qed

lemma extract_entry_stays:
  assumes "extract_entry H (abs_path ds) hdr fs tw = (r, fs', tw')"
    and "te_Typeflag hdr \<noteq> TypeSymlink" and "plain_path ds" and "ds \<noteq> []"
  shows "stays ds fs fs'"
  using assms(1,3,4)
proof (cases rule: extract_entry_cases)
  case (inside xs)
  show ?thesis
  proof (cases "te_Typeflag hdr")
    case TypeDir
    obtain r1 fs1 where 1: "os_mkdir_all H (ds @ xs) fs = (r1, fs1)" by fastforce
    then have "fs' = fs1" using inside(3) TypeDir by (auto split: option.splits)
    then show ?thesis using stays_mkdir_all [OF inside(1) 1] by simp
  next
    case TypeReg
    then show ?thesis using inside extract_file_stays assms(3) by simp
  next
    case TypeSymlink
    then show ?thesis using assms(2) by simp
  next
    case TypeOther
    then show ?thesis using inside by simp
  qed
qed simp_all

lemma extract_entries_stays:
  assumes "extract_entries H (abs_path ds) hdrs tail fs tw = (r, fs', tw')"
    and "\<forall>hdr \<in> set hdrs. te_Typeflag hdr \<noteq> TypeSymlink" and "plain_path ds" and "ds \<noteq> []"
  shows "stays ds fs fs'"
  using assms(1,2)
proof (induction hdrs arbitrary: fs tw)
  case Nil
  then show ?case by (simp split: option.splits)
next
  case (Cons hdr hdrs)
  obtain r1 fs1 tw1 where 1: "extract_entry H (abs_path ds) hdr fs tw = (r1, fs1, tw1)"
    by (metis prod.exhaust)
  have s: "stays ds fs fs1"
    by (rule extract_entry_stays [OF 1 _ assms(3,4)]) (use Cons.prems(2) in simp)
  show ?case
  proof (cases r1)
    case None
    then have "extract_entries H (abs_path ds) hdrs tail fs1 tw1 = (r, fs', tw')"
      using Cons.prems(1) 1 by simp
    then have "stays ds fs1 fs'" using Cons.IH Cons.prems(2) by simp
    with s show ?thesis by (rule stays_trans)
  next
    case (Some e)
    then show ?thesis using Cons.prems(1) 1 s by simp
  qed
qed

lemma extract_stays:
  assumes "extractTarGzStripped H (Tar hdrs tail) (abs_path ds) fs = (r, fs')"
    and "\<forall>hdr \<in> set hdrs. te_Typeflag hdr \<noteq> TypeSymlink" and "plain_path ds" and "ds \<noteq> []"
  shows "stays ds fs fs'"
proof -
  obtain tw where "extract_entries H (abs_path ds) hdrs tail fs 0 = (r, fs', tw)"
    using assms(1) by (auto simp: extractTarGzStripped_def split: prod.splits)
  then show ?thesis using extract_entries_stays assms(2-4) by blast
qed

section \<open>Properties\<close>

text \<open>
  C4. An archive without symbolic links cannot write outside the destination: whatever the names
  of its entries and however the extraction ends, every path that does not lie below the
  destination reads as before, and no link appears below it.
\<close>
theorem extract_confined:
  assumes "extractTarGzStripped H (Tar hdrs tail) (abs_path ds) fs = (r, fs')"
    and "\<forall>hdr \<in> set hdrs. te_Typeflag hdr \<noteq> TypeSymlink"
    and "ds \<noteq> []" and "jail ds fs"
  shows "(\<forall>p. \<not> prefix ds p \<longrightarrow> map_of fs' p = map_of fs p) \<and>
    (\<forall>p t. prefix ds p \<longrightarrow> map_of fs' p \<noteq> Some (NLink t))"
  using extract_stays [OF assms(1,2) _ assms(3)] assms(4)
  unfolding stays_def jail_def confined_def is_link_def by force

definition reg_entry :: "string \<Rightarrow> string \<Rightarrow> tar_entry" where
  "reg_entry name data = \<lparr>te_Name = name, te_Typeflag = TypeReg, te_Linkname = [], te_Mode = 0x1B6,
     te_Data = data, te_DataError = None\<rparr>"

definition dir_entry :: "string \<Rightarrow> tar_entry" where
  "dir_entry name = \<lparr>te_Name = name, te_Typeflag = TypeDir, te_Linkname = [], te_Mode = 0x1FF,
     te_Data = [], te_DataError = None\<rparr>"

definition link_entry :: "string \<Rightarrow> string \<Rightarrow> tar_entry" where
  "link_entry name target = \<lparr>te_Name = name, te_Typeflag = TypeSymlink, te_Linkname = target,
     te_Mode = 0x1FF, te_Data = [], te_DataError = None\<rparr>"

definition plain_archive :: "tar_entry list" where
  "plain_archive = [dir_entry ''r/'', reg_entry ''r/sub/a.txt'' ''hello'', reg_entry ''r/../../x'' ''evil'']"

definition plain_extracted :: fs where
  "plain_extracted = sample_fs @
     [([''tmp'', ''b'', ''sub''], NDir), ([''tmp'', ''b'', ''sub'', ''a.txt''], NFile ''hello'' 0x1A4)]"

lemma plain_archive_run:
  "extractTarGzStripped sample_host (Tar plain_archive None) (abs_path [''tmp'', ''b'']) sample_fs =
     (Some (PathTraversal ''r/../../x''), plain_extracted)"
  by code_simp

theorem extract_confined_witness:
  "map_of plain_extracted [''etc'', ''passwd''] = map_of sample_fs [''etc'', ''passwd''] \<and>
   map_of plain_extracted [''x''] = map_of sample_fs [''x'']"
proof -
  have "\<forall>hdr \<in> set plain_archive. te_Typeflag hdr \<noteq> TypeSymlink"
    by (simp add: plain_archive_def dir_entry_def reg_entry_def)
  from extract_confined [OF plain_archive_run this _ sample_jail] show ?thesis by simp
qed

definition escape_archive :: "tar_entry list" where
  "escape_archive =
     [dir_entry ''r/s'', dir_entry ''r/p/q'', link_entry ''r/p/q/l'' ''../../s'',
      link_entry ''r/p/q/l/x'' ''../../../etc'', reg_entry ''r/s/x/passwd'' ''pwned'']"

text \<open>
  C24. With symbolic links the checks do not confine the extraction, against what the function's
  comment says: a link created through an earlier link lies in a shallower directory than its
  checked name, so its relative target leaves the destination, and a later regular file overwrites
  a file outside. Each single entry passes the checks and the extraction reports success.
\<close>

theorem extract_escapes:
  "\<exists>fs'. extractTarGzStripped sample_host (Tar escape_archive None) (abs_path [''tmp'', ''b'']) sample_fs =
       (None, fs') \<and>
     map_of sample_fs [''etc'', ''passwd''] = Some (NFile ''root'' 0x1A4) \<and>
     map_of fs' [''etc'', ''passwd''] = Some (NFile ''pwned'' 0x1A4)"
proof -
  have "fst (extractTarGzStripped sample_host (Tar escape_archive None) (abs_path [''tmp'', ''b'']) sample_fs) = None"
    and "map_of (snd (extractTarGzStripped sample_host (Tar escape_archive None)
        (abs_path [''tmp'', ''b'']) sample_fs)) [''etc'', ''passwd''] = Some (NFile ''pwned'' 0x1A4)"
    and "map_of sample_fs [''etc'', ''passwd''] = Some (NFile ''root'' 0x1A4)"
    by code_simp+
  then show ?thesis by (metis prod.collapse)
qed

section \<open>Size\<close>

text \<open>
  What one step adds to the stored bytes is bounded by what it adds to the counter, and by what
  the limit leaves when the step fails.
\<close>

definition grows :: "fs \<Rightarrow> int \<Rightarrow> extract_error option \<Rightarrow> fs \<Rightarrow> int \<Rightarrow> bool" where
  "grows fs tw r fs' tw' \<longleftrightarrow> 0 \<le> tw' \<and>
     (if r = None then tw' \<le> maxExtractedBytes \<and> int (fs_bytes fs') + tw \<le> int (fs_bytes fs) + tw'
      else int (fs_bytes fs') + tw \<le> int (fs_bytes fs) + maxExtractedBytes + 1)"

lemma grows_same: "0 \<le> tw \<Longrightarrow> tw \<le> maxExtractedBytes \<Longrightarrow> fs_bytes fs' \<le> fs_bytes fs \<Longrightarrow> grows fs tw r fs' tw"
  by (simp add: grows_def)

lemma extract_file_grows:
  assumes "extract_file H target hdr fs tw = (r, fs', tw')" and "0 \<le> tw" and "tw \<le> maxExtractedBytes"
  shows "grows fs tw r fs' tw'"
  using assms(1)
proof (cases rule: extract_file_cases)
  case (parent e)
  then show ?thesis
    using mkdir_all_bytes [of H "path_comps H (Dir target)" fs] assms by (simp add: grows_same)
next
  case (create e fs1)
  then show ?thesis
    using mkdir_all_bytes [of H "path_comps H (Dir target)" fs]
      create_bytes [of H "path_comps H target" "te_Mode hdr AND 0x1ED" fs1] assms
    by (simp add: grows_same)
next
  case (copied p fs1 fs2 written werr)
  define data where "data = take (nat (maxExtractedBytes - tw + 1)) (te_Data hdr)"
  have len: "int (length data) \<le> maxExtractedBytes - tw + 1"
    using assms by (simp add: data_def)
  have "fs_bytes fs2 \<le> fs_bytes fs"
    using mkdir_all_bytes [of H "path_comps H (Dir target)" fs]
      create_bytes [of H "path_comps H target" "te_Mode hdr AND 0x1ED" fs1] copied by simp
  moreover have c: "os_copy H p data fs2 = ((written, werr), fs')" using copied(3) by (simp add: data_def)
  ultimately have "int (fs_bytes fs') \<le> int (fs_bytes fs) + int (length data)"
    and "werr = None \<Longrightarrow> written = length data" "written \<le> length data"
    using copy_bytes [OF c] by simp_all
  then show ?thesis using copied(4) len assms by (auto simp: grows_def)
qed

lemma extract_symlink_bytes: "fs_bytes (snd (extract_symlink H a t hdr fs)) \<le> fs_bytes fs"
proof -
  obtain e fs1 where s: "os_symlink H (te_Linkname hdr) (path_comps H t) fs = (e, fs1)" by fastforce
  have "fs_bytes (snd (os_symlink H (te_Linkname hdr) (path_comps H t) fs)) \<le> fs_bytes fs"
    using fs_bytes_le [where k = 0]
    by (simp add: os_symlink_def split: option.splits sum.splits)
  then show ?thesis
    using s by (cases e) (auto simp: extract_symlink_def Let_def)
qed

lemma extract_entry_grows:
  assumes "extract_entry H dst hdr fs tw = (r, fs', tw')" and "0 \<le> tw" and "tw \<le> maxExtractedBytes"
  shows "grows fs tw r fs' tw'"
proof -
  have same: ?thesis if "fs' = fs" "tw' = tw" using that assms by (simp add: grows_same)
  show ?thesis
  proof (cases rule: SplitN2_cases [of "CHR ''/''" "te_Name hdr"])
    case whole
    then show ?thesis using assms(1) by (intro same) (simp_all add: extract_entry_def)
  next
    case (parts a rel)
    let ?t = "Join [dst, rel]"
    show ?thesis
    proof (cases "rel = [] \<or> (\<exists>e. os_abs H ?t = Inl e) \<or> te_Typeflag hdr = TypeOther")
      case True
      then show ?thesis using assms(1)
        by (intro same) (auto simp: extract_entry_def parts(1) Let_def split: sum.splits if_splits)
    next
      case False
      then obtain absT where at: "os_abs H ?t = Inr absT" "rel \<noteq> []"
        by (meson sum.exhaust)
      show ?thesis
      proof (cases "\<not> HasPrefix absT (abs_or_empty H dst @ ''/'') \<and> absT \<noteq> abs_or_empty H dst")
        case True
        then show ?thesis using assms(1) at
          by (intro same) (simp_all add: extract_entry_def parts(1) Let_def)
      next
        case ok: False
        have e: "(case te_Typeflag hdr of
            TypeDir \<Rightarrow> (case os_mkdir_all H (path_comps H ?t) fs of
                 (Some e, fs1) \<Rightarrow> (Some (MkdirFailed ?t e), fs1, tw) | (None, fs1) \<Rightarrow> (None, fs1, tw))
          | TypeReg \<Rightarrow> extract_file H ?t hdr fs tw
          | TypeSymlink \<Rightarrow> (case extract_symlink H (abs_or_empty H dst) ?t hdr fs of (r, fs1) \<Rightarrow> (r, fs1, tw))
          | TypeOther \<Rightarrow> (None, fs, tw)) = (r, fs', tw')"
          using assms(1) at ok by (simp add: extract_entry_def parts(1) Let_def)
        show ?thesis
        proof (cases "te_Typeflag hdr")
          case TypeDir
          then have "fs' = snd (os_mkdir_all H (path_comps H ?t) fs)" "tw' = tw"
            using e by (auto split: prod.splits option.splits)
          then show ?thesis using mkdir_all_bytes assms by (simp add: grows_same)
        next
          case TypeReg
          then show ?thesis using e extract_file_grows assms(2,3) by simp
        next
          case TypeSymlink
          then have "fs' = snd (extract_symlink H (abs_or_empty H dst) ?t hdr fs)" "tw' = tw"
            using e by (auto split: prod.splits)
          then show ?thesis using extract_symlink_bytes assms by (simp add: grows_same)
        next
          case TypeOther
          then show ?thesis using False by simp
        qed
      qed
    qed
  qed
qed

lemma extract_entries_grows:
  assumes "extract_entries H dst hdrs tail fs tw = (r, fs', tw')" and "0 \<le> tw" and "tw \<le> maxExtractedBytes"
  shows "grows fs tw r fs' tw'"
  using assms
proof (induction hdrs arbitrary: fs tw)
  case Nil
  then show ?case by (auto simp: grows_same split: option.splits)
next
  case (Cons hdr hdrs)
  obtain r1 fs1 tw1 where 1: "extract_entry H dst hdr fs tw = (r1, fs1, tw1)" by (metis prod.exhaust)
  have g: "grows fs tw r1 fs1 tw1" using extract_entry_grows [OF 1] Cons.prems by simp
  show ?case
  proof (cases r1)
    case None
    then have "grows fs1 tw1 r fs' tw'"
      using Cons.prems(1) 1 g by (intro Cons.IH) (simp_all add: grows_def)
    with g None show ?thesis by (auto simp: grows_def)
  next
    case (Some e)
    then show ?thesis using Cons.prems(1) 1 g by simp
  qed
qed

text \<open>
  C13. An archive never adds more than the limit of 500 MB and one byte to what the disk stores,
  however large it claims to be, wherever its links point and however the extraction ends; an
  extraction that succeeds stays within the limit.
\<close>
theorem extract_bounded:
  assumes "extractTarGzStripped H (Tar hdrs tail) dst fs = (r, fs')"
  shows "int (fs_bytes fs') \<le> int (fs_bytes fs) + 500 * 2 ^ 20 + (if r = None then 0 else 1)"
proof -
  obtain tw where "extract_entries H dst hdrs tail fs 0 = (r, fs', tw)"
    using assms by (auto simp: extractTarGzStripped_def split: prod.splits)
  then have "grows fs 0 r fs' tw" by (rule extract_entries_grows) (simp_all add: maxExtractedBytes_def)
  then show ?thesis by (auto simp: grows_def maxExtractedBytes_def)
qed

theorem extract_bounded_witness:
  "int (fs_bytes plain_extracted) \<le> int (fs_bytes sample_fs) + 500 * 2 ^ 20 +
     (if Some (PathTraversal ''r/../../x'') = None then 0 else 1)"
  by (rule extract_bounded [OF plain_archive_run])

section \<open>Content\<close>

text \<open>A step keeps every regular file but its own target.\<close>

definition keeps :: "fs \<Rightarrow> fs \<Rightarrow> string list option \<Rightarrow> bool" where
  "keeps fs fs' t \<longleftrightarrow>
     (\<forall>q d m. map_of fs q = Some (NFile d m) \<and> t \<noteq> Some q \<longrightarrow> map_of fs' q = Some (NFile d m))"

definition no_new_file :: "fs \<Rightarrow> fs \<Rightarrow> string list option \<Rightarrow> bool" where
  "no_new_file fs fs' t \<longleftrightarrow>
     (\<forall>q d m. map_of fs' q = Some (NFile d m) \<and> t \<noteq> Some q \<longrightarrow> map_of fs q = Some (NFile d m))"

lemma keeps_refl [simp]: "keeps fs fs t" "no_new_file fs fs t"
  by (simp_all add: keeps_def no_new_file_def)

lemma keeps_trans:
  "keeps fs1 fs2 t \<Longrightarrow> keeps fs2 fs3 t \<Longrightarrow> keeps fs1 fs3 t"
  "no_new_file fs1 fs2 t \<Longrightarrow> no_new_file fs2 fs3 t \<Longrightarrow> no_new_file fs1 fs3 t"
  by (auto simp: keeps_def no_new_file_def)

lemma mkdir_files:
  assumes "os_mkdir H cs fs = (r, fs')"
  shows "keeps fs fs' t" and "no_new_file fs fs' t"
  using assms
  by (auto simp: os_mkdir_def keeps_def no_new_file_def gomap_simps
      split: option.splits sum.splits if_splits)

lemma mkdir_all_files: "keeps fs (snd (os_mkdir_all H cs fs)) t \<and> no_new_file fs (snd (os_mkdir_all H cs fs)) t"
proof (induction "length cs" arbitrary: cs)
  case 0
  then show ?case by (subst os_mkdir_all.simps) (simp add: os_mkdir_all.simps split: sum.splits node.splits)
next
  case (Suc n)
  let ?b = "snd (os_mkdir_all H (butlast cs) fs)"
  have IH: "keeps fs ?b t" "no_new_file fs ?b t" using Suc by simp_all
  obtain r2 fs2 where 2: "os_mkdir H cs ?b = (r2, fs2)" by fastforce
  have "snd (os_mkdir_all H cs fs) = fs \<or> snd (os_mkdir_all H cs fs) = ?b \<or> snd (os_mkdir_all H cs fs) = fs2"
    using os_mkdir_all_result [of H cs fs "fst (os_mkdir_all H cs fs)" "snd (os_mkdir_all H cs fs)"] 2
    by simp
  then show ?case using IH keeps_trans(1) [OF IH(1) mkdir_files(1) [OF 2]]
      keeps_trans(2) [OF IH(2) mkdir_files(2) [OF 2]] by auto
qed

lemma create_files:
  assumes "jail ds fs" and "plain_path xs" and "os_create H (ds @ xs) mode fs = (r, fs')"
  shows "keeps fs fs' (Some (ds @ xs))" and "no_new_file fs fs' (Some (ds @ xs))"
    and "r = Inr p \<Longrightarrow> \<exists>m. map_of fs' (ds @ xs) = Some (NFile [] m) \<and>
           (m = mode AND NOT (ho_umask H) \<or> (\<exists>d. map_of fs (ds @ xs) = Some (NFile d m)))"
proof -
  note w = jail_walk [OF assms(1,2)]
  have "keeps fs fs' (Some (ds @ xs)) \<and> no_new_file fs fs' (Some (ds @ xs))"
    using assms(3) by (rule os_create_result) (auto dest!: w simp: keeps_def no_new_file_def gomap_simps)
  then show "keeps fs fs' (Some (ds @ xs))" and "no_new_file fs fs' (Some (ds @ xs))" by simp_all
  assume "r = Inr p"
  then show "\<exists>m. map_of fs' (ds @ xs) = Some (NFile [] m) \<and>
           (m = mode AND NOT (ho_umask H) \<or> (\<exists>d. map_of fs (ds @ xs) = Some (NFile d m)))"
    using assms(3)
    by (auto dest: w simp: os_create_def gomap_simps split: option.splits sum.splits node.splits)
qed

lemma copy_files:
  assumes "os_copy H p data fs = (r, fs')"
  shows "keeps fs fs' (Some p)" and "no_new_file fs fs' (Some p)"
    and "map_of fs p = Some (NFile d m) \<Longrightarrow> r = (n, None) \<Longrightarrow>
           map_of fs' p = Some (NFile (d @ data) m) \<and> n = length data"
  using assms
  by (auto simp: os_copy_def os_write_def keeps_def no_new_file_def gomap_simps
      split: option.splits node.splits)

lemma extract_file_files:
  assumes "extract_file H (abs_path (ds @ xs)) hdr fs tw = (r, fs', tw')"
    and "jail ds fs" and "plain_path xs"
  shows "keeps fs fs' (Some (ds @ xs))" and "no_new_file fs fs' (Some (ds @ xs))"
    and "r = None \<Longrightarrow> tw \<ge> 0 \<Longrightarrow> \<exists>m. map_of fs' (ds @ xs) = Some (NFile (te_Data hdr) m) \<and>
       (m = (te_Mode hdr AND 0x1ED) AND NOT (ho_umask H) \<or> (\<exists>d. map_of fs (ds @ xs) = Some (NFile d m)))"
proof -
  let ?t = "Some (ds @ xs)"
  have ds: "plain_path ds" using assms(2) by (simp add: jail_def)
  have c: "path_comps H (abs_path (ds @ xs)) = ds @ xs" using ds assms(3) by simp
  have par: "keeps fs fs1 t" "no_new_file fs fs1 t" "jail ds fs1"
    if "os_mkdir_all H (path_comps H (Dir (abs_path (ds @ xs)))) fs = (r1, fs1)" for r1 fs1 t
    using mkdir_all_files [of fs H "path_comps H (Dir (abs_path (ds @ xs)))" t]
      stays_parent [OF that ds assms(3)] assms(2) that by (simp_all add: stays_def)
  have "keeps fs fs' ?t \<and> no_new_file fs fs' ?t \<and>
    (r = None \<longrightarrow> tw \<ge> 0 \<longrightarrow> (\<exists>m. map_of fs' (ds @ xs) = Some (NFile (te_Data hdr) m) \<and>
       (m = (te_Mode hdr AND 0x1ED) AND NOT (ho_umask H) \<or> (\<exists>d. map_of fs (ds @ xs) = Some (NFile d m)))))"
    using assms(1)
  proof (cases rule: extract_file_cases)
    case (parent e)
    then show ?thesis using par by blast
  next
    case (create e fs1)
    note 1 = par [OF create(3)]
    note 2 = create_files [OF 1(3) assms(3) create(4) [unfolded c]]
    show ?thesis using keeps_trans(1) [OF 1(1) 2(1)] keeps_trans(2) [OF 1(2) 2(2)] create(1) by simp
  next
    case (copied p fs1 fs2 written werr)
    note 1 = par [OF copied(1)]
    have p: "p = ds @ xs" using stays_create(2) [OF assms(3) copied(2) [unfolded c] 1(3)] by simp
    note 2 = create_files [OF 1(3) assms(3) copied(2) [unfolded c]]
    note 3 = copy_files [OF copied(3) [unfolded p]]
    have k: "keeps fs fs' ?t" "no_new_file fs fs' ?t"
      using keeps_trans(1) [OF keeps_trans(1) [OF 1(1) 2(1)] 3(1)]
        keeps_trans(2) [OF keeps_trans(2) [OF 1(2) 2(2)] 3(2)] by simp_all
    have "\<exists>m. map_of fs' (ds @ xs) = Some (NFile (te_Data hdr) m) \<and>
       (m = (te_Mode hdr AND 0x1ED) AND NOT (ho_umask H) \<or> (\<exists>d. map_of fs (ds @ xs) = Some (NFile d m)))"
      if r: "r = None" and tw: "tw \<ge> 0"
    proof -
      obtain m where m: "map_of fs2 (ds @ xs) = Some (NFile [] m)"
          "m = (te_Mode hdr AND 0x1ED) AND NOT (ho_umask H) \<or> (\<exists>d. map_of fs1 (ds @ xs) = Some (NFile d m))"
        using 2(3) [OF refl] by blast
      have w: "werr = None" "tw + int written \<le> maxExtractedBytes" using copied(4) r by auto
      have f: "map_of fs' (ds @ xs) =
          Some (NFile (take (nat (maxExtractedBytes - tw + 1)) (te_Data hdr)) m)"
        and n: "written = length (take (nat (maxExtractedBytes - tw + 1)) (te_Data hdr))"
        using 3(3) [OF m(1), of written] w(1) by simp_all
      have "length (te_Data hdr) \<le> nat (maxExtractedBytes - tw + 1)"
        using n w(2) by (cases "length (te_Data hdr) \<le> nat (maxExtractedBytes - tw + 1)") (simp_all split: if_splits)
      moreover have "\<exists>d. map_of fs (ds @ xs) = Some (NFile d m)"
        if "\<exists>d. map_of fs1 (ds @ xs) = Some (NFile d m)"
        using that par(2) [OF copied(1), of None] by (auto simp: no_new_file_def)
      ultimately show ?thesis using f m(2) by auto
    qed
    with k show ?thesis by blast
  qed
  then show "keeps fs fs' ?t" and "no_new_file fs fs' ?t"
    and "r = None \<Longrightarrow> tw \<ge> 0 \<Longrightarrow> \<exists>m. map_of fs' (ds @ xs) = Some (NFile (te_Data hdr) m) \<and>
       (m = (te_Mode hdr AND 0x1ED) AND NOT (ho_umask H) \<or> (\<exists>d. map_of fs (ds @ xs) = Some (NFile d m)))"
    by blast+
qed

definition stored :: "host \<Rightarrow> fs \<Rightarrow> fs \<Rightarrow> string list \<Rightarrow> tar_entry \<Rightarrow> bool" where
  "stored H fs fs' p hdr \<longleftrightarrow> (\<exists>m. map_of fs' p = Some (NFile (te_Data hdr) m) \<and>
     (m = (te_Mode hdr AND 0x1ED) AND NOT (ho_umask H) \<or> (\<exists>d. map_of fs p = Some (NFile d m))))"

lemma extract_entry_files:
  assumes "extract_entry H (abs_path ds) hdr fs tw = (r, fs', tw')"
    and "jail ds fs" and "ds \<noteq> []" and "te_Typeflag hdr \<noteq> TypeSymlink"
  shows "keeps fs fs' (entry_target ds hdr)" and "no_new_file fs fs' (entry_target ds hdr)"
    and "r = None \<Longrightarrow> tw \<ge> 0 \<Longrightarrow> te_Typeflag hdr = TypeReg \<Longrightarrow> entry_target ds hdr = Some p \<Longrightarrow>
           stored H fs fs' p hdr"
proof -
  have ds: "plain_path ds" using assms(2) by (simp add: jail_def)
  have "keeps fs fs' (entry_target ds hdr) \<and> no_new_file fs fs' (entry_target ds hdr) \<and>
    (r = None \<and> tw \<ge> 0 \<and> te_Typeflag hdr = TypeReg \<and> entry_target ds hdr = Some p \<longrightarrow>
       stored H fs fs' p hdr)"
    using assms(1) ds assms(3)
  proof (cases rule: extract_entry_cases)
    case (inside xs)
    show ?thesis
    proof (cases "te_Typeflag hdr")
      case TypeDir
      then have "fs' = snd (os_mkdir_all H (ds @ xs) fs)"
        using inside(3) by (auto split: prod.splits option.splits)
      then show ?thesis using mkdir_all_files TypeDir by simp
    next
      case TypeReg
      then have f: "extract_file H (abs_path (ds @ xs)) hdr fs tw = (r, fs', tw')"
        using inside(3) by simp
      show ?thesis
        using extract_file_files [OF f assms(2) inside(1)] inside(2) by (auto simp: stored_def)
    next
      case TypeSymlink
      then show ?thesis using assms(4) by simp
    next
      case TypeOther
      then show ?thesis using inside(3) by simp
    qed
  qed simp_all
  then show "keeps fs fs' (entry_target ds hdr)" and "no_new_file fs fs' (entry_target ds hdr)"
    and "r = None \<Longrightarrow> tw \<ge> 0 \<Longrightarrow> te_Typeflag hdr = TypeReg \<Longrightarrow> entry_target ds hdr = Some p \<Longrightarrow>
           stored H fs fs' p hdr"
    by blast+
qed

lemma extract_entries_append:
  "extract_entries H dst (pre @ hdrs) tail fs tw =
     (case extract_entries H dst pre None fs tw of
        (Some e, fs1, tw1) \<Rightarrow> (Some e, fs1, tw1)
      | (None, fs1, tw1) \<Rightarrow> extract_entries H dst hdrs tail fs1 tw1)"
  by (induction pre arbitrary: fs tw) (auto split: prod.splits option.splits)

lemma extract_entries_other:
  assumes "extract_entries H (abs_path ds) hdrs tail fs tw = (r, fs', tw')"
    and "jail ds fs" and "ds \<noteq> []"
    and "\<forall>hdr \<in> set hdrs. te_Typeflag hdr \<noteq> TypeSymlink \<and> entry_target ds hdr \<noteq> Some p"
  shows "map_of fs p = Some (NFile d m) \<longleftrightarrow> map_of fs' p = Some (NFile d m)"
  using assms(1,2,4)
proof (induction hdrs arbitrary: fs tw)
  case Nil
  then show ?case by (simp split: option.splits)
next
  case (Cons hdr hdrs)
  obtain r1 fs1 tw1 where 1: "extract_entry H (abs_path ds) hdr fs tw = (r1, fs1, tw1)"
    by (metis prod.exhaust)
  have ds: "plain_path ds" and l: "te_Typeflag hdr \<noteq> TypeSymlink" "entry_target ds hdr \<noteq> Some p"
    using Cons.prems by (simp_all add: jail_def)
  have same: "map_of fs p = Some (NFile d m) \<longleftrightarrow> map_of fs1 p = Some (NFile d m)"
    using extract_entry_files(1,2) [OF 1 Cons.prems(2) assms(3) l(1)] l(2)
    unfolding keeps_def no_new_file_def by blast
  show ?case
  proof (cases r1)
    case None
    have "jail ds fs1"
      using extract_entry_stays [OF 1 l(1) ds assms(3)] Cons.prems(2) by (simp add: stays_def)
    then show ?thesis using same Cons.IH [of fs1 tw1] Cons.prems 1 None by simp
  next
    case (Some e)
    then show ?thesis using same Cons.prems(1) 1 by simp
  qed
qed

text \<open>
  C11. For archives without symbolic links, an extraction that succeeds stores what the archive
  holds: a regular file whose target no later entry has (of duplicates the last one) has
  afterwards exactly the entry's bytes, at the destination joined with its name less the first
  component. If no earlier entry has that target and no file was there before, it has the entry's
  permissions restricted to \<open>0755\<close> and the process's mask.
\<close>
theorem extract_stores:
  assumes "extractTarGzStripped H (Tar (pre @ hdr # post) tail) (abs_path ds) fs = (None, fs')"
    and "\<forall>e \<in> set (pre @ hdr # post). te_Typeflag e \<noteq> TypeSymlink"
    and "\<forall>e \<in> set post. entry_target ds e \<noteq> Some p"
    and "te_Typeflag hdr = TypeReg" and "entry_target ds hdr = Some p"
    and "ds \<noteq> []" and "jail ds fs"
  shows "\<exists>m. map_of fs' p = Some (NFile (te_Data hdr) m) \<and>
    ((\<forall>e \<in> set pre. entry_target ds e \<noteq> Some p) \<and> (\<nexists>d m'. map_of fs p = Some (NFile d m')) \<longrightarrow>
       m = (te_Mode hdr AND 0x1ED) AND NOT (ho_umask H))"
proof -
  have ds: "plain_path ds" using assms(7) by (simp add: jail_def)
  obtain tw where run: "extract_entries H (abs_path ds) (pre @ hdr # post) tail fs 0 = (None, fs', tw)"
    using assms(1) by (auto simp: extractTarGzStripped_def split: prod.splits)
  then obtain fs1 tw1 where 1: "extract_entries H (abs_path ds) pre None fs 0 = (None, fs1, tw1)"
      "extract_entries H (abs_path ds) (hdr # post) tail fs1 tw1 = (None, fs', tw)"
    unfolding extract_entries_append by (auto split: prod.splits option.splits)
  then obtain fs2 tw2 where 2: "extract_entry H (abs_path ds) hdr fs1 tw1 = (None, fs2, tw2)"
      "extract_entries H (abs_path ds) post tail fs2 tw2 = (None, fs', tw)"
    by (auto split: prod.splits option.splits)
  have j1: "jail ds fs1"
    using extract_entries_stays [OF 1(1) _ ds assms(6)] assms(2,7) by (simp add: stays_def)
  have j2: "jail ds fs2"
    using extract_entry_stays [OF 2(1) _ ds assms(6)] assms(2) j1 by (simp add: stays_def)
  have "grows fs 0 None fs1 tw1"
    using extract_entries_grows [OF 1(1)] by (simp add: maxExtractedBytes_def)
  then have "stored H fs1 fs2 p hdr"
    using extract_entry_files(3) [OF 2(1) j1 assms(6) _ refl _ assms(4,5)] assms(4)
    by (simp add: grows_def)
  moreover have "map_of fs2 p = Some (NFile d m) \<longleftrightarrow> map_of fs' p = Some (NFile d m)" for d m
    by (rule extract_entries_other [OF 2(2) j2 assms(6)]) (use assms(2,3) in auto)
  moreover have "map_of fs p = Some (NFile d m) \<longleftrightarrow> map_of fs1 p = Some (NFile d m)"
    if "\<forall>e \<in> set pre. entry_target ds e \<noteq> Some p" for d m
    by (rule extract_entries_other [OF 1(1) assms(7,6)]) (use assms(2) that in auto)
  ultimately show ?thesis by (fastforce simp: stored_def)
qed

definition stored_archive :: "tar_entry list" where
  "stored_archive = [dir_entry ''r/'', reg_entry ''r/b.txt'' ''y''] @ reg_entry ''r/sub/a.txt'' ''hello'' #
     [reg_entry ''r/b.txt'' ''x'']"

lemma stored_archive_run:
  "fst (extractTarGzStripped sample_host (Tar stored_archive None) (abs_path [''tmp'', ''b'']) sample_fs) = None"
  by code_simp

theorem extract_stores_witness:
  "\<exists>m. map_of (snd (extractTarGzStripped sample_host (Tar stored_archive None)
        (abs_path [''tmp'', ''b'']) sample_fs)) [''tmp'', ''b'', ''sub'', ''a.txt''] =
      Some (NFile (te_Data (reg_entry ''r/sub/a.txt'' ''hello'')) m) \<and>
    ((\<forall>e \<in> set [dir_entry ''r/'', reg_entry ''r/b.txt'' ''y''].
        entry_target [''tmp'', ''b''] e \<noteq> Some [''tmp'', ''b'', ''sub'', ''a.txt'']) \<and>
     (\<nexists>d m'. map_of sample_fs [''tmp'', ''b'', ''sub'', ''a.txt''] = Some (NFile d m')) \<longrightarrow>
     m = (te_Mode (reg_entry ''r/sub/a.txt'' ''hello'') AND 0x1ED) AND NOT (ho_umask sample_host))"
proof (rule extract_stores [where pre = "[dir_entry ''r/'', reg_entry ''r/b.txt'' ''y'']"
      and post = "[reg_entry ''r/b.txt'' ''x'']" and tail = None, OF _ _ _ _ _ _ sample_jail])
  show "extractTarGzStripped sample_host (Tar ([dir_entry ''r/'', reg_entry ''r/b.txt'' ''y''] @
      reg_entry ''r/sub/a.txt'' ''hello'' # [reg_entry ''r/b.txt'' ''x'']) None)
      (abs_path [''tmp'', ''b'']) sample_fs = (None, snd (extractTarGzStripped sample_host
        (Tar stored_archive None) (abs_path [''tmp'', ''b'']) sample_fs))"
    using stored_archive_run by (simp add: stored_archive_def prod_eq_iff)
  show "\<forall>e\<in>set [reg_entry ''r/b.txt'' ''x''].
      entry_target [''tmp'', ''b''] e \<noteq> Some [''tmp'', ''b'', ''sub'', ''a.txt'']"
    by code_simp
  show "entry_target [''tmp'', ''b''] (reg_entry ''r/sub/a.txt'' ''hello'') =
      Some [''tmp'', ''b'', ''sub'', ''a.txt'']"
    by code_simp
qed (simp_all add: reg_entry_def dir_entry_def)

section \<open>Properties of the build context\<close>

lemma tar_all_ok:
  assumes "\<forall>p. ho_fault H (SysOpen p) fs = None"
  shows "tar_all H fs root ps = (map (fst \<circ> tar_one H fs root) ps, None)"
proof (induction ps)
  case (Cons p ps)
  have "snd (tar_one H fs root p) = None"
    using assms by (simp add: tar_one_def split: option.splits node.splits)
  then obtain hdr where "tar_one H fs root p = (hdr, None)" by (metis prod.collapse)
  with Cons show ?case by simp
qed simp

lemma set_walk_paths:
  "p \<in> set (walk_paths fs root) \<longleftrightarrow>
     (\<exists>xs n. p = root @ xs \<and> map_of fs p = Some n \<and>
        (\<forall>k < length xs. map_of fs (root @ take k xs) = Some NDir))"
proof -
  have "(\<forall>k \<in> set [length root..<length (root @ xs)]. map_of fs (take k (root @ xs)) = Some NDir) \<longleftrightarrow>
      (\<forall>k < length xs. map_of fs (root @ take k xs) = Some NDir)" (is "?l \<longleftrightarrow> ?r") for xs
  proof
    assume l: ?l
    show ?r
    proof (intro allI impI)
      fix k assume "k < length xs"
      then have "length root + k \<in> set [length root..<length (root @ xs)]" by simp
      from bspec [OF l this] show "map_of fs (root @ take k xs) = Some NDir" by simp
    qed
  next
    assume r: ?r
    show ?l
    proof
      fix k assume "k \<in> set [length root..<length (root @ xs)]"
      then have "length root \<le> k" "k - length root < length xs" by auto
      with r show "map_of fs (take k (root @ xs)) = Some NDir" by simp
    qed
  qed
  moreover have "p \<in> set (map fst fs) \<longleftrightarrow> (\<exists>n. map_of fs p = Some n)"
    by (metis (no_types, lifting) dom_map_of_conv_image_fst domIff image_set not_None_eq)
  ultimately show ?thesis
    by (auto simp: walk_paths_def prefix_def list_all_iff)
qed

text \<open>
  When no file fails to open, the stream sent to Docker holds the directory as it is: an entry
  for every regular file reached through directories, under its path relative to the directory,
  with its bytes and permissions; no other regular file; no error. Symbolic links are the
  exception: their entries have lost their targets.
\<close>
theorem tarDirectory_contents:
  assumes "tarDirectory H fs dir = (hdrs, err)"
    and "walk max_links False fs [] (path_comps H dir) = Inr root" and "map_of fs root = Some NDir"
    and "\<forall>p. ho_fault H (SysOpen p) fs = None"
  shows "err = None \<and>
    (\<forall>name data mode.
       (\<exists>e \<in> set hdrs. te_Typeflag e = TypeReg \<and> te_Name e = name \<and> te_Data e = data \<and> te_Mode e = mode) \<longleftrightarrow>
       (\<exists>xs. name = join_slash xs \<and> map_of fs (root @ xs) = Some (NFile data mode) \<and>
          (\<forall>k < length xs. map_of fs (root @ take k xs) = Some NDir))) \<and>
    (\<forall>e \<in> set hdrs. te_Typeflag e = TypeSymlink \<longrightarrow> te_Linkname e = [])"
proof -
  have h: "err = None" "hdrs = map (fst \<circ> tar_one H fs root) (walk_paths fs root)"
    using assms(1-3) by (simp_all add: tarDirectory_def tar_all_ok [OF assms(4)])
  have one: "te_Typeflag (fst (tar_one H fs root p)) = TypeReg \<and> te_Name (fst (tar_one H fs root p)) = name \<and>
      te_Data (fst (tar_one H fs root p)) = data \<and> te_Mode (fst (tar_one H fs root p)) = mode \<longleftrightarrow>
      map_of fs p = Some (NFile data mode) \<and> rel_name root p = name" for p name data mode
    using assms(4) by (auto simp: tar_one_def split: option.splits node.splits)
  have link: "te_Linkname (fst (tar_one H fs root p)) = []" for p
    by (simp add: tar_one_def split: option.splits node.splits)
  have files: "(\<exists>e \<in> set hdrs. te_Typeflag e = TypeReg \<and> te_Name e = name \<and> te_Data e = data \<and> te_Mode e = mode) \<longleftrightarrow>
       (\<exists>xs. name = join_slash xs \<and> map_of fs (root @ xs) = Some (NFile data mode) \<and>
          (\<forall>k < length xs. map_of fs (root @ take k xs) = Some NDir))" for name data mode
  proof -
    have "(\<exists>e \<in> set hdrs. te_Typeflag e = TypeReg \<and> te_Name e = name \<and> te_Data e = data \<and> te_Mode e = mode) \<longleftrightarrow>
        (\<exists>p \<in> set (walk_paths fs root). map_of fs p = Some (NFile data mode) \<and> rel_name root p = name)"
      unfolding h(2) one [symmetric] by auto
    also have "\<dots> \<longleftrightarrow> (\<exists>xs. map_of fs (root @ xs) = Some (NFile data mode) \<and> rel_name root (root @ xs) = name \<and>
          (\<forall>k < length xs. map_of fs (root @ take k xs) = Some NDir))"
      unfolding Bex_def set_walk_paths by (metis (no_types, lifting))
    also have "\<dots> \<longleftrightarrow> (\<exists>xs. name = join_slash xs \<and> map_of fs (root @ xs) = Some (NFile data mode) \<and>
          (\<forall>k < length xs. map_of fs (root @ take k xs) = Some NDir))"
    proof -
      have "rel_name root (root @ xs) = join_slash xs"
        if "map_of fs (root @ xs) = Some (NFile data mode)" for xs
        using that assms(3) by (cases "xs = []") (simp_all add: rel_name_def)
      then show ?thesis by blast
    qed
    finally show ?thesis .
  qed
  show ?thesis using h link files by auto
qed

definition context_fs :: fs where
  "context_fs =
     [([], NDir), ([''c''], NDir), ([''c'', ''Dockerfile''], NFile ''FROM x'' 0x1A4), ([''c'', ''src''], NDir),
      ([''c'', ''src'', ''l''], NLink ''../Dockerfile''), ([''c'', ''src'', ''a''], NFile ''A'' 0x1A4)]"

lemma context_fs_tar:
  "tarDirectory sample_host context_fs ''/c'' =
     ([\<lparr>te_Name = ''.'', te_Typeflag = TypeDir, te_Linkname = [], te_Mode = 0x1E8, te_Data = [], te_DataError = None\<rparr>,
       \<lparr>te_Name = ''Dockerfile'', te_Typeflag = TypeReg, te_Linkname = [], te_Mode = 0x1A4,
          te_Data = ''FROM x'', te_DataError = None\<rparr>,
       \<lparr>te_Name = ''src'', te_Typeflag = TypeDir, te_Linkname = [], te_Mode = 0x1E8, te_Data = [], te_DataError = None\<rparr>,
       \<lparr>te_Name = ''src/a'', te_Typeflag = TypeReg, te_Linkname = [], te_Mode = 0x1A4,
          te_Data = ''A'', te_DataError = None\<rparr>,
       \<lparr>te_Name = ''src/l'', te_Typeflag = TypeSymlink, te_Linkname = [], te_Mode = 0x1FF, te_Data = [], te_DataError = None\<rparr>],
      None)"
  by code_simp

theorem tarDirectory_contents_witness:
  "(\<exists>e \<in> set (fst (tarDirectory sample_host context_fs ''/c'')).
      te_Typeflag e = TypeReg \<and> te_Name e = ''src/a'' \<and> te_Data e = ''A'' \<and> te_Mode e = 0x1A4) \<longleftrightarrow>
   (\<exists>xs. ''src/a'' = join_slash xs \<and> map_of context_fs ([''c''] @ xs) = Some (NFile ''A'' 0x1A4) \<and>
      {k. k < length xs} \<subseteq> {k. map_of context_fs ([''c''] @ take k xs) = Some NDir})"
proof -
  have w: "walk max_links False context_fs [] (path_comps sample_host ''/c'') = Inr [''c'']"
    by code_simp
  have "map_of context_fs [''c''] = Some NDir" and "\<forall>p. ho_fault sample_host (SysOpen p) context_fs = None"
    by (simp_all add: context_fs_def sample_host_def)
  then show ?thesis
    using tarDirectory_contents [OF prod.collapse [symmetric] w] unfolding subset_iff mem_Collect_eq by blast
qed

end
