(* ===== verification/Runner.thy ===== *)
theory Runner
  imports Compiler Archive
begin

text \<open>
  The runner (\<open>internal/runner/runner.go\<close>): executes a compiled graph against the Docker daemon,
  builds images from downloaded archives, stops deployments and restarts containers after a
  reboot. The Docker client and the network are parameters; the runner's own decisions, every
  request it makes and their order are modelled. The build works on the file tree, which is
  threaded beside the history.
\<close>

section \<open>The Docker client and the network\<close>

record container_summary =
  cs_ID :: string
  cs_Names :: "string list"
  cs_Labels :: "string gomap option" \<comment> \<open>\<open>None\<close> is the nil map\<close>
  cs_State :: string

record docker =
  d_new_client :: "history \<Rightarrow> string option"
  d_ping :: "history \<Rightarrow> string option"
  d_volume_create :: "history \<Rightarrow> volume_options \<Rightarrow> string option"
  d_image_pull :: "history \<Rightarrow> string \<Rightarrow> string option"
  d_image_build :: "history \<Rightarrow> tar_entry list \<times> string option \<Rightarrow> build_options \<Rightarrow> string option"
  d_parse_port :: "string \<Rightarrow> string + string" \<comment> \<open>\<open>network.ParsePort\<close>\<close>
  d_container_create :: "history \<Rightarrow> container_config \<Rightarrow> string + string"
  d_container_start :: "history \<Rightarrow> string \<Rightarrow> string option"
  d_container_inspect :: "history \<Rightarrow> string \<Rightarrow> string + (bool \<times> int) option"
    \<comment> \<open>the state, if any: running, exit code\<close>
  d_container_logs :: "history \<Rightarrow> string \<Rightarrow> string \<Rightarrow> string + string"
  d_std_copy :: "string \<Rightarrow> string" \<comment> \<open>what \<open>stdcopy.StdCopy\<close> extracts\<close>
  d_container_list :: "history \<Rightarrow> bool \<Rightarrow> string + container_summary list"
  d_container_stop :: "history \<Rightarrow> string \<Rightarrow> int \<Rightarrow> string option"
  d_container_remove :: "history \<Rightarrow> string \<Rightarrow> bool \<Rightarrow> string option"

record http_response =
  hr_StatusCode :: int
  hr_Body :: tar_stream

record network =
  nw_bad_request :: "string \<Rightarrow> string option" \<comment> \<open>why \<open>http.NewRequest\<close> rejects a URL\<close>
  nw_do :: "history \<Rightarrow> string \<Rightarrow> string gomap \<Rightarrow> string + http_response"

section \<open>Building an image\<close>

datatype build_error =
    NoArchiveURL string
  | BadRequest string
  | DownloadFailed string
  | BadStatus int
  | TempDirFailed string
  | ExtractFailed extract_error
  | NoDockerfile string os_error
  | ImageBuildFailed string

fun build_error_text :: "host \<Rightarrow> build_error \<Rightarrow> string" where
  "build_error_text H (NoArchiveURL serviceName) =
     ''service '' @ serviceName @ '' has a build config but no source archive URL''"
| "build_error_text H (BadRequest e) = ''failed to create download request: '' @ e"
| "build_error_text H (DownloadFailed e) = ''failed to download source archive: '' @ e"
| "build_error_text H (BadStatus n) = ''source archive download returned HTTP '' @ show_int n"
| "build_error_text H (TempDirFailed e) = ''failed to create temp dir: '' @ e"
| "build_error_text H (ExtractFailed e) =
     ''failed to extract source archive: '' @ extract_error_text H e"
| "build_error_text H (NoDockerfile p e) =
     ''Dockerfile not found at '' @ p @ '': '' @ ho_error_text H e"
| "build_error_text H (ImageBuildFailed e) = ''docker image build failed: '' @ e"

definition request_headers :: "SourceRef \<Rightarrow> string gomap" where
  "request_headers src =
     (if src_Type src = ''github'' \<or> src_Type src = [] then
        (if src_Token src \<noteq> [] then [(''Authorization'', ''Bearer '' @ src_Token src)] else []) @
        [(''Accept'', ''application/vnd.github+json'')]
      else [])"

definition context_path :: "BuildConfig option \<Rightarrow> string" where
  "context_path buildCfg =
     (case buildCfg of Some b \<Rightarrow> if bc_Context b \<noteq> [] then bc_Context b else ''.'' | None \<Rightarrow> ''.'')"

definition dockerfile_path :: "BuildConfig option \<Rightarrow> string" where
  "dockerfile_path buildCfg =
     (case buildCfg of
        Some b \<Rightarrow> if bc_Dockerfile b \<noteq> [] then bc_Dockerfile b else ''Dockerfile''
      | None \<Rightarrow> ''Dockerfile'')"

definition image_tag :: "string \<Rightarrow> string \<Rightarrow> SourceRef \<Rightarrow> string" where
  "image_tag slug serviceName src =
     slug @ ''/'' @ serviceName @ '':'' @ (if src_Ref src = [] then ''local'' else src_Ref src)"

definition build_args :: "iter_order \<Rightarrow> string \<Rightarrow> BuildConfig option \<Rightarrow> string gomap" where
  "build_args \<pi> serviceName buildCfg =
     (case buildCfg of
        Some b \<Rightarrow> gm_build id (gm_range \<pi> (R_BuildArgs serviceName) (bc_Args b)) []
      | None \<Rightarrow> [])"

text \<open>The steps between the creation of the temporary directory and its removal.\<close>

definition build_in_dir ::
    "docker \<Rightarrow> host \<Rightarrow> iter_order \<Rightarrow> string \<Rightarrow> string \<Rightarrow> ServiceNode \<Rightarrow> string \<Rightarrow> tar_stream \<Rightarrow> string \<Rightarrow>
       history \<Rightarrow> fs \<Rightarrow> (build_error + string) \<times> history \<times> fs" where
  "build_in_dir D H \<pi> slug serviceName svc imageTag body tmpDir h fs =
     (case extractTarGzStripped H body tmpDir fs of
        (Some e, fs1) \<Rightarrow> (Inl (ExtractFailed e), h, fs1)
      | (None, fs1) \<Rightarrow>
          (let buildContextDir = Join [tmpDir, context_path (sn_Build svc)];
               dockerfilePath = Join [buildContextDir, dockerfile_path (sn_Build svc)]
           in case stat fs1 (path_comps H dockerfilePath) of
                Inl e \<Rightarrow> (Inl (NoDockerfile dockerfilePath e), h, fs1)
              | Inr _ \<Rightarrow>
                  (let (entries, tarErr) = tarDirectory H fs1 buildContextDir;
                       opts = \<lparr>bo_Tags = [imageTag], bo_Dockerfile = dockerfile_path (sn_Build svc),
                               bo_BuildArgs = build_args \<pi> serviceName (sn_Build svc), bo_Remove = True,
                               bo_Labels = [(''underleaf.slug'', slug), (''underleaf.service'', serviceName)]\<rparr>;
                       h1 = h @ [DImageBuild entries tarErr opts]
                   in case d_image_build D h (entries, tarErr) opts of
                        Some e \<Rightarrow> (Inl (ImageBuildFailed e), h1, fs1)
                      | None \<Rightarrow> (Inr imageTag, h1, fs1))))"

definition buildImage ::
    "docker \<Rightarrow> network \<Rightarrow> host \<Rightarrow> iter_order \<Rightarrow> string \<Rightarrow> string \<Rightarrow> ServiceNode \<Rightarrow>
       history \<Rightarrow> fs \<Rightarrow> (build_error + string) \<times> history \<times> fs" where
  "buildImage D N H \<pi> slug serviceName svc h fs =
     (case sn_Source svc of
        None \<Rightarrow> (Inl (NoArchiveURL serviceName), h, fs)
      | Some src \<Rightarrow>
          if src_ArchiveURL src = [] then (Inl (NoArchiveURL serviceName), h, fs)
          else
            (case nw_bad_request N (src_ArchiveURL src) of
               Some e \<Rightarrow> (Inl (BadRequest e), h, fs)
             | None \<Rightarrow>
                 (let h1 = h @ [HttpGet (src_ArchiveURL src) (request_headers src)]
                  in case nw_do N h (src_ArchiveURL src) (request_headers src) of
                       Inl e \<Rightarrow> (Inl (DownloadFailed e), h1, fs)
                     | Inr resp \<Rightarrow>
                         if hr_StatusCode resp \<noteq> 200 then (Inl (BadStatus (hr_StatusCode resp)), h1, fs)
                         else
                           (case os_mkdir_temp H fs of
                              (Inl e, fs1) \<Rightarrow> (Inl (TempDirFailed e), h1, fs1)
                            | (Inr tmpDir, fs1) \<Rightarrow>
                                (case build_in_dir D H \<pi> slug serviceName svc
                                        (image_tag slug serviceName src) (hr_Body resp) tmpDir h1 fs1 of
                                   (r, h2, fs2) \<Rightarrow>
                                     (r, h2, os_remove_all H (path_comps H tmpDir) fs2))))))"

section \<open>Executing a graph\<close>

record ExecutionResult =
  er_DeploymentID :: string
  er_Status :: string
  er_Error :: string
  er_Output :: payload

datatype exec_error =
    GraphInvalid validate_error
  | BuildFailed string build_error
  | PullFailed string string
  | CreateContainerFailed string string
  | StartContainerFailed string string
  | ExitedImmediately string int string

fun exec_error_text :: "host \<Rightarrow> exec_error \<Rightarrow> string" where
  "exec_error_text H (GraphInvalid e) = ''graph validation failed: '' @ validate_error_text e"
| "exec_error_text H (BuildFailed name e) =
     ''failed to build image for '' @ name @ '': '' @ build_error_text H e"
| "exec_error_text H (PullFailed imageRef e) =
     ''failed to pull image '' @ imageRef @ '': '' @ e"
| "exec_error_text H (CreateContainerFailed containerName e) =
     ''failed to create container '' @ containerName @ '': '' @ e"
| "exec_error_text H (StartContainerFailed containerName e) =
     ''failed to start container '' @ containerName @ '': '' @ e"
| "exec_error_text H (ExitedImmediately containerName exitCode logs) =
     ''container '' @ containerName @ '' exited immediately (exit code '' @ show_int exitCode @
     ''):'' @ CHR 0x0A # logs"

definition docker_volume :: "string \<Rightarrow> string \<Rightarrow> string" where
  "docker_volume slug volName = slug @ ''_'' @ volName"

definition container_name :: "string \<Rightarrow> string \<Rightarrow> string" where
  "container_name slug name = slug @ ''-'' @ name"

definition volume_request :: "CompiledGraph \<Rightarrow> string \<Rightarrow> VolumeNode \<Rightarrow> volume_options" where
  "volume_request g volName vol =
     \<lparr>vo_Name = docker_volume (g_Slug g) volName,
      vo_Driver = (if vn_Driver vol = [] then ''local'' else vn_Driver vol),
      vo_Labels = [(''underleaf.deployment_id'', g_DeploymentID g), (''underleaf.slug'', g_Slug g)]\<rparr>"

text \<open>The body of the volume loop; an error is logged and the loop goes on.\<close>

definition create_volume :: "docker \<Rightarrow> CompiledGraph \<Rightarrow> string \<times> VolumeNode \<Rightarrow> string option action" where
  "create_volume D g = (\<lambda>(volName, vol) h.
     (d_volume_create D h (volume_request g volName vol), h @ [DVolumeCreate (volume_request g volName vol)]))"

definition containerTailLogs :: "docker \<Rightarrow> string \<Rightarrow> int \<Rightarrow> string action" where
  "containerTailLogs D containerID lines h =
     (let h1 = h @ [DContainerLogs containerID (show_int lines)]
      in case d_container_logs D h containerID (show_int lines) of
           Inl e \<Rightarrow> (''(could not retrieve logs: '' @ e @ '')'', h1)
         | Inr raw \<Rightarrow> (TrimSpace (d_std_copy D raw), h1))"

text \<open>The port loop: a later mapping of the same container port replaces an earlier one.\<close>

fun parse_ports ::
    "docker \<Rightarrow> string list \<Rightarrow> unit gomap \<times> port_binding list gomap \<Rightarrow>
       unit gomap \<times> port_binding list gomap" where
  "parse_ports D [] acc = acc"
| "parse_ports D (portSpec # rest) (exposedPorts, portBindings) =
     (case SplitN2 CHR '':'' portSpec of
        [hostPort, p] \<Rightarrow>
          (case d_parse_port D (p @ ''/tcp'') of
             Inl e \<Rightarrow> parse_ports D rest (exposedPorts, portBindings)
           | Inr containerPort \<Rightarrow>
               parse_ports D rest
                 (AList.update containerPort () exposedPorts,
                  AList.update containerPort [\<lparr>HostIP = ''127.0.0.1'', HostPort = hostPort\<rparr>] portBindings))
      | _ \<Rightarrow> parse_ports D rest (exposedPorts, portBindings))"

text \<open>The bind loop: mounts of volumes the graph does not declare are dropped.\<close>

fun volume_binds :: "VolumeNode gomap \<Rightarrow> string \<Rightarrow> string list \<Rightarrow> string list" where
  "volume_binds vols slug [] = []"
| "volume_binds vols slug (mountSpec # rest) =
     (case SplitN2 CHR '':'' mountSpec of
        [volName, containerPath] \<Rightarrow>
          if map_of vols volName \<noteq> None
          then (docker_volume slug volName @ '':'' @ containerPath) # volume_binds vols slug rest
          else volume_binds vols slug rest
      | _ \<Rightarrow> volume_binds vols slug rest)"

definition env_list :: "iter_order \<Rightarrow> string \<Rightarrow> string gomap \<Rightarrow> string list" where
  "env_list \<pi> name env = map (\<lambda>(k, v). k @ ''='' @ v) (gm_range \<pi> (R_ExecEnv name) env)"

definition service_container ::
    "docker \<Rightarrow> iter_order \<Rightarrow> CompiledGraph \<Rightarrow> string \<Rightarrow> ServiceNode \<Rightarrow> string \<Rightarrow> container_config" where
  "service_container D \<pi> g name svc imageRef =
     (let (exposedPorts, portBindings) = parse_ports D (sn_Ports svc) ([], [])
      in \<lparr>co_Name = container_name (g_Slug g) name, co_Image = imageRef,
          co_Env = env_list \<pi> name (sn_Environment svc), co_ExposedPorts = exposedPorts,
          co_Labels = [(''underleaf.deployment_id'', g_DeploymentID g),
                       (''underleaf.slug'', g_Slug g), (''underleaf.service'', name)],
          co_Binds = volume_binds (g_Volumes g) (g_Slug g) (sn_VolumeMounts svc),
          co_PortBindings = portBindings, co_RestartPolicy = ''unless-stopped'',
          co_CapDrop = [''ALL''], co_CapAdd = [''NET_BIND_SERVICE''],
          co_Memory = 512 * 1024 * 1024, co_NanoCPUs = 1000000000, co_PidsLimit = 256,
          co_ReadonlyRootfs = True, co_Tmpfs = [(''/tmp'', ''rw,noexec,nosuid,size=64m'')]\<rparr>)"

text \<open>What is put under the service's name in \<open>result.Output\<close>.\<close>

definition failed_output :: "host \<Rightarrow> payload \<Rightarrow> exec_error \<Rightarrow> gval" where
  "failed_output H info e =
     VMap (info @ [(''status'', VStr ''failed''), (''error'', VStr (exec_error_text H e))])"

definition running_output :: "string \<Rightarrow> string \<Rightarrow> gval" where
  "running_output imageRef containerID =
     VMap [(''image'', VStr imageRef), (''container_id'', VStr containerID), (''status'', VStr ''running'')]"

definition obtain_image ::
    "docker \<Rightarrow> network \<Rightarrow> host \<Rightarrow> iter_order \<Rightarrow> string \<Rightarrow> string \<Rightarrow> ServiceNode \<Rightarrow> history \<Rightarrow> fs \<Rightarrow>
       (exec_error \<times> gval + string) \<times> history \<times> fs" where
  "obtain_image D N H \<pi> slug name svc h fs =
     (if sn_Build svc \<noteq> None then
        (case buildImage D N H \<pi> slug name svc h fs of
           (Inl buildErr, h1, fs1) \<Rightarrow>
             (Inl (BuildFailed name buildErr, failed_output H [] (BuildFailed name buildErr)), h1, fs1)
         | (Inr builtImage, h1, fs1) \<Rightarrow> (Inr builtImage, h1, fs1))
      else
        (let imageRef = sn_Image svc; h1 = h @ [DImagePull imageRef]
         in case d_image_pull D h imageRef of
              Some e \<Rightarrow>
                (Inl (PullFailed imageRef e,
                      failed_output H [(''image'', VStr imageRef)] (PullFailed imageRef e)), h1, fs)
            | None \<Rightarrow> (Inr imageRef, h1, fs)))"

text \<open>
  The existing container of the same name is removed, its error ignored and its volumes kept;
  then create, start, wait three seconds, inspect.
\<close>

definition run_container ::
    "docker \<Rightarrow> host \<Rightarrow> string \<Rightarrow> string \<Rightarrow> container_config \<Rightarrow> (exec_error \<times> gval + gval) action" where
  "run_container D H containerName imageRef cfg h =
     (let h1 = h @ [DContainerRemove containerName True];
          h2 = h1 @ [DContainerCreate cfg]
      in case d_container_create D h1 cfg of
           Inl e \<Rightarrow>
             (Inl (CreateContainerFailed containerName e,
                   failed_output H [(''image'', VStr imageRef)] (CreateContainerFailed containerName e)), h2)
         | Inr respID \<Rightarrow>
             (let h3 = h2 @ [DContainerStart respID];
                  info = [(''image'', VStr imageRef), (''container_id'', VStr respID)]
              in case d_container_start D h2 respID of
                   Some e \<Rightarrow>
                     (Inl (StartContainerFailed containerName e,
                           failed_output H info (StartContainerFailed containerName e)), h3)
                 | None \<Rightarrow>
                     (let h4 = h3 @ [Sleep (3 * second)];
                          h5 = h4 @ [DContainerInspect respID]
                      in case d_container_inspect D h4 respID of
                           Inr (Some (False, exitCode)) \<Rightarrow>
                             (let (logs, h6) = containerTailLogs D respID 20 h5;
                                  e = ExitedImmediately containerName exitCode logs
                              in (Inl (e, failed_output H info e), h6))
                         | _ \<Rightarrow> (Inr (running_output imageRef respID), h5))))"

definition deploy_service ::
    "docker \<Rightarrow> network \<Rightarrow> host \<Rightarrow> iter_order \<Rightarrow> CompiledGraph \<Rightarrow> string \<Rightarrow> ServiceNode \<Rightarrow> history \<Rightarrow> fs \<Rightarrow>
       (exec_error \<times> gval + gval) \<times> history \<times> fs" where
  "deploy_service D N H \<pi> g name svc h fs =
     (case obtain_image D N H \<pi> (g_Slug g) name svc h fs of
        (Inl e, h1, fs1) \<Rightarrow> (Inl e, h1, fs1)
      | (Inr imageRef, h1, fs1) \<Rightarrow>
          (case run_container D H (container_name (g_Slug g) name) imageRef
                  (service_container D \<pi> g name svc imageRef) h1 of
             (r, h2) \<Rightarrow> (r, h2, fs1)))"

fun deploy_services ::
    "docker \<Rightarrow> network \<Rightarrow> host \<Rightarrow> iter_order \<Rightarrow> CompiledGraph \<Rightarrow> ServiceNode gomap \<Rightarrow> payload \<Rightarrow>
       history \<Rightarrow> fs \<Rightarrow> exec_error option \<times> payload \<times> history \<times> fs" where
  "deploy_services D N H \<pi> g [] out h fs = (None, out, h, fs)"
| "deploy_services D N H \<pi> g ((name, svc) # svcs) out h fs =
     (case deploy_service D N H \<pi> g name svc h fs of
        (Inl (e, v), h1, fs1) \<Rightarrow> (Some e, AList.update name v out, h1, fs1)
      | (Inr v, h1, fs1) \<Rightarrow> deploy_services D N H \<pi> g svcs (AList.update name v out) h1 fs1)"

definition Execute ::
    "docker \<Rightarrow> network \<Rightarrow> host \<Rightarrow> iter_order \<Rightarrow> CompiledGraph \<Rightarrow> history \<Rightarrow> fs \<Rightarrow>
       (ExecutionResult \<times> exec_error option) \<times> history \<times> fs" where
  "Execute D N H \<pi> g h fs =
     (case Validate_graph \<pi> g of
        Some e \<Rightarrow>
          ((\<lparr>er_DeploymentID = g_DeploymentID g, er_Status = ''failed'',
             er_Error = validate_error_text e, er_Output = []\<rparr>, Some (GraphInvalid e)), h, fs)
      | None \<Rightarrow>
          (let h1 = snd (for_each (create_volume D g) (gm_range \<pi> R_ExecVolumes (g_Volumes g)) h)
           in case deploy_services D N H \<pi> g (gm_range \<pi> R_ExecServices (g_Services g)) [] h1 fs of
                (Some e, out, h2, fs1) \<Rightarrow>
                  ((\<lparr>er_DeploymentID = g_DeploymentID g, er_Status = ''failed'',
                     er_Error = exec_error_text H e, er_Output = out\<rparr>, Some e), h2, fs1)
              | (None, out, h2, fs1) \<Rightarrow>
                  ((\<lparr>er_DeploymentID = g_DeploymentID g, er_Status = ''completed'',
                     er_Error = [], er_Output = out\<rparr>, None), h2, fs1)))"

section \<open>Stopping and reconciling\<close>

definition Ping :: "docker \<Rightarrow> string option action" where
  "Ping D h = (d_ping D h, h @ [DPing])"

definition stopAndRemove :: "docker \<Rightarrow> string \<Rightarrow> string option action" where
  "stopAndRemove D containerID h =
     (let h1 = h @ [DContainerStop containerID 10]
      in case d_container_stop D h containerID 10 of
           Some e \<Rightarrow> (Some e, h1)
         | None \<Rightarrow> (d_container_remove D h1 containerID False, h1 @ [DContainerRemove containerID False]))"

text \<open>The two tests of \<open>Stop\<close>: by label first, otherwise by name.\<close>

definition label_of :: "container_summary \<Rightarrow> string \<Rightarrow> string" where
  "label_of ctr k =
     (case cs_Labels ctr of None \<Rightarrow> [] | Some m \<Rightarrow> (case map_of m k of None \<Rightarrow> [] | Some v \<Rightarrow> v))"

definition bare_name :: "string \<Rightarrow> string" where
  "bare_name n = (if HasPrefix n ''/'' then drop 1 n else n)"

definition stop_matches :: "string \<Rightarrow> container_summary \<Rightarrow> bool" where
  "stop_matches slug ctr \<longleftrightarrow>
     (cs_Labels ctr \<noteq> None \<and> label_of ctr ''underleaf.slug'' = slug) \<or>
     (\<exists>n \<in> set (cs_Names ctr). HasPrefix (bare_name n) (slug @ ''-''))"

fun stop_loop :: "docker \<Rightarrow> string \<Rightarrow> container_summary list \<Rightarrow> nat \<Rightarrow> string list \<Rightarrow> (nat \<times> string list) action" where
  "stop_loop D slug [] stopped errs h = ((stopped, errs), h)"
| "stop_loop D slug (ctr # ctrs) stopped errs h =
     (if stop_matches slug ctr then
        (case stopAndRemove D (cs_ID ctr) h of
           (Some stopErr, h1) \<Rightarrow> stop_loop D slug ctrs stopped (errs @ [stopErr]) h1
         | (None, h1) \<Rightarrow> stop_loop D slug ctrs (Suc stopped) errs h1)
      else stop_loop D slug ctrs stopped errs h)"

datatype stop_error = ListContainersFailed string | StopErrors nat "string list"

definition Stop :: "docker \<Rightarrow> string \<Rightarrow> stop_error option action" where
  "Stop D slug h =
     (let h1 = h @ [DContainerList True]
      in case d_container_list D h True of
           Inl e \<Rightarrow> (Some (ListContainersFailed e), h1)
         | Inr ctrs \<Rightarrow>
             (case stop_loop D slug ctrs 0 [] h1 of
                ((stopped, errs), h2) \<Rightarrow>
                  (if errs \<noteq> [] then Some (StopErrors stopped errs) else None, h2)))"

text \<open>
  \<open>ReconcileContainers\<close>: the number of containers restarted and of errors. The log statement
  slices \<open>ctr.ID[:12]\<close>, a panic for a shorter ID: the result is then \<open>None\<close>.
\<close>

fun reconcile_loop :: "docker \<Rightarrow> container_summary list \<Rightarrow> nat \<Rightarrow> nat \<Rightarrow> (nat \<times> nat) option action" where
  "reconcile_loop D [] restarted errCount h = (Some (restarted, errCount), h)"
| "reconcile_loop D (ctr # ctrs) restarted errCount h =
     (if label_of ctr ''underleaf.deployment_id'' = [] then reconcile_loop D ctrs restarted errCount h
      else if cs_State ctr = ''running'' then reconcile_loop D ctrs restarted errCount h
      else if length (cs_ID ctr) < 12 then (None, h)
      else
        (let h1 = h @ [DContainerStart (cs_ID ctr)]
         in case d_container_start D h (cs_ID ctr) of
              Some e \<Rightarrow> reconcile_loop D ctrs restarted (Suc errCount) h1
            | None \<Rightarrow> reconcile_loop D ctrs (Suc restarted) errCount h1))"

definition ReconcileContainers :: "docker \<Rightarrow> (nat \<times> nat) option action" where
  "ReconcileContainers D h =
     (let h1 = h @ [DContainerList True]
      in case d_container_list D h True of
           Inl e \<Rightarrow> (Some (0, 1), h1)
         | Inr ctrs \<Rightarrow> reconcile_loop D ctrs 0 0 h1)"

section \<open>What the operations call\<close>

interpretation docker_volumes: logged_op "create_volume D g"
  "\<lambda>(volName, vol) r cs. cs = [DVolumeCreate (volume_request g volName vol)]"
  by unfold_locales (simp add: create_volume_def split: prod.splits)

lemma volume_calls:
  "snd (for_each (create_volume D g) vols h) =
     h @ map (\<lambda>(volName, vol). DVolumeCreate (volume_request g volName vol)) vols"
proof (induction vols arbitrary: h)
  case (Cons x vols)
  then show ?case by (cases x) (simp add: create_volume_def Let_def case_prod_beta)
qed simp

lemma buildImage_cases [consumes 1, case_names early sent built]:
  assumes "buildImage D N H \<pi> slug name svc h fs = (r, h', fs')"
  obtains e where "r = Inl e" "h' = h" "fs' = fs"
  | src e where "sn_Source svc = Some src" "src_ArchiveURL src \<noteq> []" "r = Inl e"
      "h' = h @ [HttpGet (src_ArchiveURL src) (request_headers src)]"
  | src entries tarErr opts where "sn_Source svc = Some src" "src_ArchiveURL src \<noteq> []"
      "bo_Tags opts = [image_tag slug name src]"
      "r = Inr (image_tag slug name src) \<and> d_image_build D
           (h @ [HttpGet (src_ArchiveURL src) (request_headers src)]) (entries, tarErr) opts = None \<or>
       (\<exists>e. r = Inl (ImageBuildFailed e))"
      "h' = h @ [HttpGet (src_ArchiveURL src) (request_headers src), DImageBuild entries tarErr opts]"
proof (cases "\<exists>src. sn_Source svc = Some src \<and> src_ArchiveURL src \<noteq> [] \<and>
    nw_bad_request N (src_ArchiveURL src) = None")
  case False
  then show ?thesis using assms
    by (intro that(1) [of "projl r"])
       (auto simp: buildImage_def split: option.splits if_splits)
next
  case True
  then obtain src where src: "sn_Source svc = Some src" "src_ArchiveURL src \<noteq> []"
      "nw_bad_request N (src_ArchiveURL src) = None" by blast
  let ?h1 = "h @ [HttpGet (src_ArchiveURL src) (request_headers src)]"
  show ?thesis
  proof (cases "\<exists>resp tmpDir fs1. nw_do N h (src_ArchiveURL src) (request_headers src) = Inr resp \<and>
      hr_StatusCode resp = 200 \<and> os_mkdir_temp H fs = (Inr tmpDir, fs1)")
    case False
    then show ?thesis using assms src
      by (intro that(2) [of src "projl r"])
         (auto simp: buildImage_def Let_def split: sum.splits if_splits prod.splits)
  next
    case True
    then obtain resp tmpDir fs1 where t: "nw_do N h (src_ArchiveURL src) (request_headers src) = Inr resp"
        "hr_StatusCode resp = 200" "os_mkdir_temp H fs = (Inr tmpDir, fs1)" by blast
    obtain fs2 where b: "build_in_dir D H \<pi> slug name svc (image_tag slug name src) (hr_Body resp) tmpDir
        ?h1 fs1 = (r, h', fs2)"
      using assms src t by (auto simp: buildImage_def Let_def split: prod.splits)
    show ?thesis
    proof (cases "h' = ?h1")
      case True
      then have "\<exists>e. r = Inl e"
        using b by (auto simp: build_in_dir_def Let_def split: prod.splits option.splits sum.splits)
      then show ?thesis using that(2) src True by blast
    next
      case False
      then show ?thesis using b src
        by (auto simp: build_in_dir_def Let_def split: prod.splits option.splits sum.splits
              intro!: that(3))
    qed
  qed
qed

lemma run_container_cases [consumes 1, case_names create start exited running]:
  assumes "run_container D H cname imageRef cfg h = (r, h')"
  obtains e where "r = Inl (CreateContainerFailed cname e, failed_output H [(''image'', VStr imageRef)]
        (CreateContainerFailed cname e))"
      "h' = h @ [DContainerRemove cname True, DContainerCreate cfg]"
  | e i where "r = Inl (StartContainerFailed cname e,
        failed_output H [(''image'', VStr imageRef), (''container_id'', VStr i)] (StartContainerFailed cname e))"
      "h' = h @ [DContainerRemove cname True, DContainerCreate cfg, DContainerStart i]"
  | e i n code logs where "e = ExitedImmediately cname code logs"
      "r = Inl (e, failed_output H [(''image'', VStr imageRef), (''container_id'', VStr i)] e)"
      "h' = h @ [DContainerRemove cname True, DContainerCreate cfg, DContainerStart i, Sleep (3 * second),
         DContainerInspect i, DContainerLogs i n]"
  | i where "r = Inr (running_output imageRef i)"
      "h' = h @ [DContainerRemove cname True, DContainerCreate cfg, DContainerStart i, Sleep (3 * second),
         DContainerInspect i]"
      "d_container_create D (h @ [DContainerRemove cname True]) cfg = Inr i"
      "d_container_start D (h @ [DContainerRemove cname True, DContainerCreate cfg]) i = None"
      "\<nexists>code. d_container_inspect D (h @ [DContainerRemove cname True, DContainerCreate cfg,
         DContainerStart i, Sleep (3 * second)]) i = Inr (Some (False, code))"
proof (cases "d_container_create D (h @ [DContainerRemove cname True]) cfg")
  case (Inl e)
  then show ?thesis using that(1) assms by (auto simp: run_container_def Let_def)
next
  case (Inr i)
  note create = this
  show ?thesis
  proof (cases "d_container_start D (h @ [DContainerRemove cname True, DContainerCreate cfg]) i")
    case (Some e)
    then show ?thesis using that(2) [of e i] assms create by (simp add: run_container_def Let_def)
  next
    case None
    let ?s = "d_container_inspect D (h @ [DContainerRemove cname True, DContainerCreate cfg,
         DContainerStart i, Sleep (3 * second)]) i"
    show ?thesis
    proof (cases "\<exists>code. ?s = Inr (Some (False, code))")
      case True
      then obtain code where s: "?s = Inr (Some (False, code))" by blast
      show ?thesis
        using assms create None s
        by (intro that(3) [OF refl, of code "fst (containerTailLogs D i 20 (h @ [DContainerRemove cname True,
              DContainerCreate cfg, DContainerStart i, Sleep (3 * second), DContainerInspect i]))" i "show_int 20"])
           (auto simp: run_container_def Let_def containerTailLogs_def split: sum.splits)
    next
      case False
      then show ?thesis using that(4) [of i] assms create None
        by (auto simp: run_container_def Let_def split: sum.splits option.splits bool.splits)
    qed
  qed
qed

text \<open>
  What a service's deployment comes to: first the image, pulled or built and accepted by the
  daemon after the history \<open>h\<close>, then the container, which replaces one of the same name and has been
  created, started and not reported as ended.
\<close>

definition image_ready ::
    "docker \<Rightarrow> history \<Rightarrow> string \<Rightarrow> string \<Rightarrow> string \<Rightarrow> BuildConfig option \<Rightarrow> SourceRef option \<Rightarrow>
       call list \<Rightarrow> string \<Rightarrow> bool" where
  "image_ready D h slug name img build source cs imageRef \<longleftrightarrow>
     (case build of
        None \<Rightarrow> imageRef = img \<and> cs = [DImagePull img] \<and> d_image_pull D h img = None
      | Some b \<Rightarrow> \<exists>src entries tarErr opts. source = Some src \<and> imageRef = image_tag slug name src \<and>
          cs = [HttpGet (src_ArchiveURL src) (request_headers src), DImageBuild entries tarErr opts] \<and>
          bo_Tags opts = [imageRef] \<and>
          d_image_build D (h @ [HttpGet (src_ArchiveURL src) (request_headers src)]) (entries, tarErr) opts = None)"

definition container_up :: "docker \<Rightarrow> history \<Rightarrow> container_config \<Rightarrow> string \<Rightarrow> call list \<Rightarrow> bool" where
  "container_up D h cfg i cs \<longleftrightarrow>
     cs = [DContainerRemove (co_Name cfg) True, DContainerCreate cfg, DContainerStart i, Sleep (3 * second),
           DContainerInspect i] \<and>
     d_container_create D (h @ take 1 cs) cfg = Inr i \<and> d_container_start D (h @ take 2 cs) i = None \<and>
     (\<nexists>code. d_container_inspect D (h @ take 4 cs) i = Inr (Some (False, code)))"

lemma container_up_iff:
  "container_up D h cfg i cs \<longleftrightarrow>
     cs = [DContainerRemove (co_Name cfg) True, DContainerCreate cfg, DContainerStart i, Sleep (3 * second),
           DContainerInspect i] \<and>
     d_container_create D (h @ [DContainerRemove (co_Name cfg) True]) cfg = Inr i \<and>
     d_container_start D (h @ [DContainerRemove (co_Name cfg) True, DContainerCreate cfg]) i = None \<and>
     (\<nexists>code. d_container_inspect D (h @ [DContainerRemove (co_Name cfg) True, DContainerCreate cfg,
        DContainerStart i, Sleep (3 * second)]) i = Inr (Some (False, code)))"
  unfolding container_up_def by (rule conj_cong [OF refl]) simp

lemma co_Name_service_container [simp]:
  "co_Name (service_container D \<pi> g name svc imageRef) = container_name (g_Slug g) name"
  "co_Image (service_container D \<pi> g name svc imageRef) = imageRef"
  "co_Env (service_container D \<pi> g name svc imageRef) = env_list \<pi> name (sn_Environment svc)"
  by (simp_all add: service_container_def split: prod.splits)

lemma obtain_image_cases [consumes 1, case_names failed got]:
  assumes "obtain_image D N H \<pi> slug name svc h fs = (r, h', fs')"
  obtains e info cs where "r = Inl (e, failed_output H info e)" "h' = h @ cs"
      "\<forall>c \<in> set cs. (\<exists>img. c = DImagePull img) \<or> (\<exists>u hds. c = HttpGet u hds) \<or> (\<exists>x y z. c = DImageBuild x y z)"
      "\<nexists>v. e = GraphInvalid v"
  | imageRef cs where "r = Inr imageRef" "h' = h @ cs"
      "image_ready D h slug name (sn_Image svc) (sn_Build svc) (sn_Source svc) cs imageRef"
proof (cases "sn_Build svc")
  case None
  then show ?thesis using assms that
    by (cases "d_image_pull D h (sn_Image svc)") (auto simp: obtain_image_def image_ready_def Let_def)
next
  case (Some b)
  obtain r1 h1 fs1 where b1: "buildImage D N H \<pi> slug name svc h fs = (r1, h1, fs1)"
    by (metis prod.exhaust)
  then have r: "(r, h', fs') = (case r1 of
      Inl e \<Rightarrow> (Inl (BuildFailed name e, failed_output H [] (BuildFailed name e)), h1, fs1)
    | Inr img \<Rightarrow> (Inr img, h1, fs1))"
    using assms Some by (auto simp: obtain_image_def split: sum.splits)
  show ?thesis
  proof (cases r1)
    case (Inl e)
    have "\<exists>cs. h1 = h @ cs \<and>
        (\<forall>c \<in> set cs. (\<exists>img. c = DImagePull img) \<or> (\<exists>u hds. c = HttpGet u hds) \<or> (\<exists>x y z. c = DImageBuild x y z))"
      using b1 by (cases rule: buildImage_cases) auto
    then show ?thesis using r Inl that(1) [of "BuildFailed name e" "[]"] by auto
  next
    case (Inr img)
    have "\<exists>cs. h1 = h @ cs \<and> image_ready D h slug name (sn_Image svc) (sn_Build svc) (sn_Source svc) cs img"
      using b1 Inr Some by (cases rule: buildImage_cases) (auto simp: image_ready_def)
    then show ?thesis using r Inr Some that(2) [of img] by auto
  qed
qed

text \<open>The calls of a service that came up, and where the daemon's answers were asked for.\<close>

definition came_up ::
    "docker \<Rightarrow> iter_order \<Rightarrow> CompiledGraph \<Rightarrow> string \<Rightarrow> ServiceNode \<Rightarrow> history \<Rightarrow> history \<Rightarrow> gval \<Rightarrow> bool" where
  "came_up D \<pi> g name svc h h' v \<longleftrightarrow>
     (\<exists>img up imageRef i. h' = h @ img @ up \<and> v = running_output imageRef i \<and>
        image_ready D h (g_Slug g) name (sn_Image svc) (sn_Build svc) (sn_Source svc) img imageRef \<and>
        container_up D (h @ img) (service_container D \<pi> g name svc imageRef) i up)"

lemma deploy_service_Inr:
  assumes "deploy_service D N H \<pi> g name svc h fs = (Inr v, h', fs')"
  shows "came_up D \<pi> g name svc h h' v"
proof -
  obtain r1 h1 fs1 where o: "obtain_image D N H \<pi> (g_Slug g) name svc h fs = (r1, h1, fs1)"
    by (metis prod.exhaust)
  from o show ?thesis
  proof (cases rule: obtain_image_cases)
    case (failed e info cs)
    then show ?thesis using assms o by (simp add: deploy_service_def)
  next
    case (got imageRef cs)
    let ?cfg = "service_container D \<pi> g name svc imageRef"
    have r: "run_container D H (container_name (g_Slug g) name) imageRef ?cfg h1 = (Inr v, h')"
      using assms o got(1) by (simp add: deploy_service_def split: prod.splits)
    then show ?thesis
    proof (cases rule: run_container_cases)
      case (running i)
      then show ?thesis
        unfolding came_up_def
        by (intro exI [of _ cs] exI [of _ "drop (length h1) h'"] exI [of _ imageRef] exI [of _ i])
           (use got(2,3) in \<open>simp add: container_up_iff\<close>)
    qed simp_all
  qed
qed

text \<open>The calls a service's deployment may make at all.\<close>

definition service_call ::
    "docker \<Rightarrow> iter_order \<Rightarrow> CompiledGraph \<Rightarrow> string \<Rightarrow> ServiceNode \<Rightarrow> call \<Rightarrow> bool" where
  "service_call D \<pi> g name svc c \<longleftrightarrow>
     (case c of
        DImagePull img \<Rightarrow> sn_Build svc = None \<and> img = sn_Image svc
      | HttpGet u hds \<Rightarrow> \<exists>src. sn_Source svc = Some src \<and> u = src_ArchiveURL src \<and> hds = request_headers src
      | DImageBuild es e opts \<Rightarrow> \<exists>src. sn_Source svc = Some src \<and> bo_Tags opts = [image_tag (g_Slug g) name src]
      | DContainerRemove n force \<Rightarrow> n = container_name (g_Slug g) name \<and> force
      | DContainerCreate cfg \<Rightarrow> \<exists>imageRef. cfg = service_container D \<pi> g name svc imageRef
      | DContainerStart i \<Rightarrow> True
      | Sleep n \<Rightarrow> n = 3 * second
      | DContainerInspect i \<Rightarrow> True
      | DContainerLogs i n \<Rightarrow> True
      | _ \<Rightarrow> False)"

lemma obtain_image_calls:
  assumes "obtain_image D N H \<pi> (g_Slug g) name svc h fs = (r, h', fs')"
  shows "\<exists>cs. h' = h @ cs \<and> list_all (service_call D \<pi> g name svc) cs"
proof (cases "sn_Build svc")
  case None
  then have "h' = h @ [DImagePull (sn_Image svc)]"
    using assms by (auto simp: obtain_image_def Let_def split: option.splits)
  with None show ?thesis by (simp add: service_call_def)
next
  case (Some b)
  obtain r1 fs1 where "buildImage D N H \<pi> (g_Slug g) name svc h fs = (r1, h', fs1)"
    using assms Some by (auto simp: obtain_image_def split: prod.splits sum.splits)
  then show ?thesis by (cases rule: buildImage_cases) (auto simp: service_call_def)
qed

lemma deploy_service_calls:
  assumes "deploy_service D N H \<pi> g name svc h fs = (r, h', fs')"
  shows "\<exists>cs. h' = h @ cs \<and> list_all (service_call D \<pi> g name svc) cs"
proof -
  obtain r1 h1 fs1 where o: "obtain_image D N H \<pi> (g_Slug g) name svc h fs = (r1, h1, fs1)"
    by (metis prod.exhaust)
  obtain cs where cs: "h1 = h @ cs" "list_all (service_call D \<pi> g name svc) cs"
    using obtain_image_calls [OF o] by blast
  show ?thesis
  proof (cases r1)
    case (Inl e)
    then show ?thesis using assms o cs by (auto simp: deploy_service_def)
  next
    case (Inr imageRef)
    then obtain r2 where "run_container D H (container_name (g_Slug g) name) imageRef
        (service_container D \<pi> g name svc imageRef) h1 = (r2, h')"
      using assms o by (auto simp: deploy_service_def split: prod.splits)
    then have "\<exists>cs. h' = h1 @ cs \<and> list_all (service_call D \<pi> g name svc) cs"
      by (cases rule: run_container_cases) (auto simp: service_call_def)
    then show ?thesis using cs by fastforce
  qed
qed

lemma deploy_service_Inl:
  assumes "deploy_service D N H \<pi> g name svc h fs = (Inl (e, v), h', fs')"
  shows "\<exists>info. v = failed_output H info e" and "e \<noteq> GraphInvalid x"
proof -
  obtain r1 h1 fs1 where o: "obtain_image D N H \<pi> (g_Slug g) name svc h fs = (r1, h1, fs1)"
    by (metis prod.exhaust)
  then have "(\<exists>info. v = failed_output H info e) \<and> e \<noteq> GraphInvalid x"
  proof (cases rule: obtain_image_cases)
    case (failed e' info cs)
    then show ?thesis using assms o by (auto simp: deploy_service_def)
  next
    case (got imageRef cs)
    have "run_container D H (container_name (g_Slug g) name) imageRef
        (service_container D \<pi> g name svc imageRef) h1 = (Inl (e, v), h')"
      using assms o got(1) by (simp add: deploy_service_def split: prod.splits)
    then show ?thesis by (cases rule: run_container_cases) auto
  qed
  then show "\<exists>info. v = failed_output H info e" and "e \<noteq> GraphInvalid x" by blast+
qed

section \<open>The service loop\<close>

lemma deploy_services_calls:
  assumes "deploy_services D N H \<pi> g svcs out h fs = (r, out', h', fs')"
  shows "\<exists>cs. h' = h @ cs \<and> (\<forall>c \<in> set cs. \<exists>(name, svc) \<in> set svcs. service_call D \<pi> g name svc c)"
  using assms
proof (induction svcs arbitrary: out h fs)
  case (Cons x svcs)
  obtain name svc where x: "x = (name, svc)" by fastforce
  obtain r1 h1 fs1 where d: "deploy_service D N H \<pi> g name svc h fs = (r1, h1, fs1)"
    by (metis prod.exhaust)
  obtain cs where cs: "h1 = h @ cs" "\<forall>c \<in> set cs. service_call D \<pi> g name svc c"
    using deploy_service_calls [OF d] by (auto simp: list_all_iff)
  show ?case
  proof (cases r1)
    case (Inl ev)
    then show ?thesis using Cons.prems d cs x by (cases ev) auto
  next
    case (Inr v)
    then obtain cs' where "h' = h1 @ cs'"
        "\<forall>c \<in> set cs'. \<exists>(name, svc) \<in> set svcs. service_call D \<pi> g name svc c"
      using Cons.IH [of "AList.update name v out" h1 fs1] Cons.prems d x by auto
    then show ?thesis using cs x by (intro exI [of _ "cs @ cs'"]) auto
  qed
qed simp

text \<open>
  The loop up to its end or to the service that failed. A service that came up is left alone: the
  calls after it belong to other services.
\<close>

definition came_up_within ::
    "docker \<Rightarrow> iter_order \<Rightarrow> CompiledGraph \<Rightarrow> history \<Rightarrow> history \<Rightarrow> payload \<Rightarrow> string \<times> ServiceNode \<Rightarrow> bool" where
  "came_up_within D \<pi> g h h' out = (\<lambda>(name, svc).
     \<exists>h1 h2 rest v. prefix h h1 \<and> h' = h2 @ rest \<and> came_up D \<pi> g name svc h1 h2 v \<and> map_of out name = Some v \<and>
       (\<forall>c \<in> set rest. \<exists>m s. m \<noteq> name \<and> service_call D \<pi> g m s c))"

lemma deploy_services_split:
  assumes "deploy_services D N H \<pi> g svcs out h fs = (r, out', h', fs')" and "gm_wf svcs"
  shows "case r of
      None \<Rightarrow> (\<forall>x \<in> set svcs. came_up_within D \<pi> g h h' out' x) \<and>
        (\<forall>n. n \<notin> fst ` set svcs \<longrightarrow> map_of out' n = map_of out n)
    | Some e \<Rightarrow> \<exists>pre name svc post info. svcs = pre @ (name, svc) # post \<and>
        (\<forall>x \<in> set pre. came_up_within D \<pi> g h h' out' x) \<and>
        map_of out' name = Some (failed_output H info e) \<and> (\<nexists>x. e = GraphInvalid x) \<and>
        (\<forall>n. n \<notin> fst ` set pre \<and> n \<noteq> name \<longrightarrow> map_of out' n = map_of out n) \<and>
        (\<exists>cs. h' = h @ cs \<and> (\<forall>c \<in> set cs. \<exists>(m, s) \<in> set (pre @ [(name, svc)]). service_call D \<pi> g m s c))"
  using assms
proof (induction svcs arbitrary: out h fs)
  case (Cons x svcs)
  obtain name svc where x: "x = (name, svc)" by fastforce
  have wf: "gm_wf svcs" "name \<notin> fst ` set svcs" using Cons.prems(2) x by (auto simp: gm_wf_def)
  obtain r1 h1 fs1 where d: "deploy_service D N H \<pi> g name svc h fs = (r1, h1, fs1)"
    by (metis prod.exhaust)
  obtain cs where cs: "h1 = h @ cs" "\<forall>c \<in> set cs. service_call D \<pi> g name svc c"
    using deploy_service_calls [OF d] by (auto simp: list_all_iff)
  show ?case
  proof (cases r1)
    case (Inl ev)
    obtain e v where ev: "ev = (e, v)" by fastforce
    then have r: "r = Some e" "out' = AList.update name v out" "h' = h1"
      using Cons.prems(1) d x Inl by simp_all
    obtain info where "v = failed_output H info e" "\<nexists>x. e = GraphInvalid x"
      using deploy_service_Inl d Inl ev by metis
    then show ?thesis
      unfolding r option.case
      by (intro exI [of _ "[]"] exI [of _ name] exI [of _ svc] exI [of _ svcs] exI [of _ info])
         (use cs in \<open>simp add: x gomap_simps\<close>)
  next
    case (Inr v)
    have rest: "deploy_services D N H \<pi> g svcs (AList.update name v out) h1 fs1 = (r, out', h', fs')"
      using Cons.prems(1) d x Inr by simp
    obtain ds where ds: "h' = h1 @ ds" "\<forall>c \<in> set ds. \<exists>(m, s) \<in> set svcs. service_call D \<pi> g m s c"
      using deploy_services_calls [OF rest] by blast
    have others: "\<forall>c \<in> set ds. \<exists>m s. m \<noteq> name \<and> service_call D \<pi> g m s c"
    proof
      fix c assume "c \<in> set ds"
      then obtain m s where "(m, s) \<in> set svcs" "service_call D \<pi> g m s c" using ds(2) by blast
      moreover from this(1) have "m \<in> fst ` set svcs" by force
      ultimately show "\<exists>m s. m \<noteq> name \<and> service_call D \<pi> g m s c" using wf(2) by metis
    qed
    have up: "came_up D \<pi> g name svc h h1 v" using deploy_service_Inr d Inr by simp
    note IH = Cons.IH [OF rest wf(1)]
    have more: "came_up_within D \<pi> g h h' out' y" if "came_up_within D \<pi> g h1 h' out' y" for y
    proof -
      have "prefix h k" if "prefix h1 k" for k using that cs(1) by (simp add: prefix_def) metis
      then show ?thesis using that unfolding came_up_within_def by (cases y) blast
    qed
    have this1: "came_up_within D \<pi> g h h' out' (name, svc)" if "map_of out' name = Some v"
      using that up ds(1) others unfolding came_up_within_def by auto
    show ?thesis
    proof (cases r)
      case None
      then show ?thesis using IH more this1 wf(2) by (auto simp: x gomap_simps)
    next
      case (Some e)
      then obtain pre n s post info where s: "svcs = pre @ (n, s) # post"
          "\<forall>x \<in> set pre. came_up_within D \<pi> g h1 h' out' x"
          "map_of out' n = Some (failed_output H info e)" "\<nexists>x. e = GraphInvalid x"
          "\<forall>k. k \<notin> fst ` set pre \<and> k \<noteq> n \<longrightarrow> map_of out' k = map_of (AList.update name v out) k"
        and calls: "\<exists>cs. h' = h1 @ cs \<and> (\<forall>c \<in> set cs. \<exists>(m, s) \<in> set (pre @ [(n, s)]). service_call D \<pi> g m s c)"
        using IH unfolding Some option.case by blast
      have "map_of out' name = Some v" using s(1,5) wf(2) by (simp add: gomap_simps image_Un)
      then have all: "\<forall>x \<in> set ((name, svc) # pre). came_up_within D \<pi> g h h' out' x"
        using this1 s(2) more by auto
      obtain es where es: "h' = h1 @ es" "\<forall>c \<in> set es. \<exists>(m, s) \<in> set (pre @ [(n, s)]). service_call D \<pi> g m s c"
        using calls by blast
      have all_calls: "\<exists>cs. h' = h @ cs \<and>
          (\<forall>c \<in> set cs. \<exists>(m, s) \<in> set (((name, svc) # pre) @ [(n, s)]). service_call D \<pi> g m s c)"
      proof (intro exI [of _ "cs @ es"] conjI ballI)
        show "h' = h @ cs @ es" using cs(1) es(1) by simp
        fix c assume "c \<in> set (cs @ es)"
        then consider "c \<in> set cs" | "c \<in> set es" by auto
        then show "\<exists>(m, s) \<in> set (((name, svc) # pre) @ [(n, s)]). service_call D \<pi> g m s c"
          by cases (use cs(2) es(2) in \<open>force+\<close>)
      qed
      show ?thesis
        unfolding Some option.case x
        by (intro exI [of _ "(name, svc) # pre"] exI [of _ n] exI [of _ s] exI [of _ post] exI [of _ info])
           (use s all all_calls in \<open>auto simp: gomap_simps\<close>)
    qed
  qed
qed simp

lemma Execute_cases [consumes 1, case_names invalid failed completed]:
  assumes "Execute D N H \<pi> g h fs = ((res, err), h', fs')"
  obtains e where "Validate_graph \<pi> g = Some e" "err = Some (GraphInvalid e)" "h' = h" "fs' = fs"
      "er_Status res = ''failed''" "er_Error res = validate_error_text e" "er_Output res = []"
  | e h1 where "Validate_graph \<pi> g = None" "err = Some e" "er_Status res = ''failed''"
      "er_Error res = exec_error_text H e"
      "h1 = h @ map (\<lambda>(volName, vol). DVolumeCreate (volume_request g volName vol))
         (gm_range \<pi> R_ExecVolumes (g_Volumes g))"
      "deploy_services D N H \<pi> g (gm_range \<pi> R_ExecServices (g_Services g)) [] h1 fs =
         (Some e, er_Output res, h', fs')"
  | h1 where "Validate_graph \<pi> g = None" "err = None" "er_Status res = ''completed''" "er_Error res = []"
      "h1 = h @ map (\<lambda>(volName, vol). DVolumeCreate (volume_request g volName vol))
         (gm_range \<pi> R_ExecVolumes (g_Volumes g))"
      "deploy_services D N H \<pi> g (gm_range \<pi> R_ExecServices (g_Services g)) [] h1 fs =
         (None, er_Output res, h', fs')"
proof (cases "Validate_graph \<pi> g")
  case (Some e)
  then show ?thesis using that(1) assms by (auto simp: Execute_def)
next
  case None
  let ?h1 = "h @ map (\<lambda>(volName, vol). DVolumeCreate (volume_request g volName vol))
         (gm_range \<pi> R_ExecVolumes (g_Volumes g))"
  obtain r out h2 fs2 where "deploy_services D N H \<pi> g (gm_range \<pi> R_ExecServices (g_Services g)) [] ?h1 fs =
      (r, out, h2, fs2)" by (metis prod.exhaust)
  then show ?thesis using that(2,3) assms None
    by (cases r) (auto simp: Execute_def volume_calls)
qed

lemma Execute_calls:
  assumes "Execute D N H \<pi> g h fs = ((res, err), h', fs')"
    and "fair_order \<pi>" and "gm_wf (g_Services g)" and "gm_wf (g_Volumes g)"
  shows "\<exists>cs. h' = h @ cs \<and> (\<forall>c \<in> set cs.
    (\<exists>(volName, vol) \<in> set (g_Volumes g). c = DVolumeCreate (volume_request g volName vol)) \<or>
    (\<exists>(name, svc) \<in> set (g_Services g). service_call D \<pi> g name svc c))"
proof -
  let ?vs = "map (\<lambda>(volName, vol). DVolumeCreate (volume_request g volName vol))
      (gm_range \<pi> R_ExecVolumes (g_Volumes g))"
  have vols: "\<forall>c \<in> set ?vs. \<exists>(volName, vol) \<in> set (g_Volumes g). c = DVolumeCreate (volume_request g volName vol)"
    using assms by auto
  have calls: "\<exists>cs. h' = h @ ?vs @ cs \<and> (\<forall>c\<in>set cs. \<exists>(name, svc)\<in>set (g_Services g). service_call D \<pi> g name svc c)"
    if d: "deploy_services D N H \<pi> g (gm_range \<pi> R_ExecServices (g_Services g)) [] (h @ ?vs) fs =
      (r, out, h', fs')" for r out
    using deploy_services_calls [OF d] assms by auto
  have all: ?thesis
    if d: "deploy_services D N H \<pi> g (gm_range \<pi> R_ExecServices (g_Services g)) [] (h @ ?vs) fs =
      (r, out, h', fs')" for r out
  proof -
    obtain cs where "h' = h @ ?vs @ cs"
        "\<forall>c\<in>set cs. \<exists>(name, svc)\<in>set (g_Services g). service_call D \<pi> g name svc c"
      using calls [OF d] by blast
    then show ?thesis using vols by (intro exI [of _ "?vs @ cs"]) (simp only: set_append ball_Un append_assoc, blast)
  qed
  show ?thesis
    using assms(1)
  proof (cases rule: Execute_cases)
    case (invalid e)
    then show ?thesis by (intro exI [of _ "[]"]) simp
  next
    case (failed e h1)
    then show ?thesis using all by simp
  next
    case (completed h1)
    then show ?thesis using all by simp
  qed
qed

section \<open>Properties of an execution\<close>

definition sample_docker :: docker where
  "sample_docker =
     \<lparr>d_new_client = \<lambda>h. None, d_ping = \<lambda>h. None, d_volume_create = \<lambda>h v. None,
      d_image_pull = \<lambda>h i. if i = ''gone'' then Some ''not found'' else None,
      d_image_build = \<lambda>h t b. None,
      d_parse_port = \<lambda>p. if p = ''80/tcp'' then Inr p else Inl ''invalid port'',
      d_container_create = \<lambda>h c. Inr (''id-'' @ co_Name c), d_container_start = \<lambda>h i. None,
      d_container_inspect = \<lambda>h i. Inr (Some (True, 0)), d_container_logs = \<lambda>h i n. Inr [],
      d_std_copy = \<lambda>s. s, d_container_list = \<lambda>h a. Inr [],
      d_container_stop = \<lambda>h i t. None, d_container_remove = \<lambda>h i f. None\<rparr>"

definition sample_network :: network where
  "sample_network = \<lparr>nw_bad_request = \<lambda>u. None, nw_do = \<lambda>h u hd. Inl ''no route''\<rparr>"

definition web_node :: ServiceNode where
  "web_node = \<lparr>sn_Name = ''web'', sn_Image = ''nginx'', sn_Build = None, sn_Source = None,
     sn_Environment = [(''A'', ''1'')], sn_Ports = [''8080:80'', ''80''],
     sn_VolumeMounts = [''data:/data'', ''/etc:/host''], sn_Networks = [], sn_DependsOn = []\<rparr>"

definition web_graph :: CompiledGraph where
  "web_graph = \<lparr>g_DeploymentID = ''d1'', g_Version = ''1'', g_Slug = ''shop'',
     g_Services = [(''web'', web_node)], g_Networks = [],
     g_Volumes = [(''data'', \<lparr>vn_Name = ''data'', vn_Driver = []\<rparr>)]\<rparr>"

definition web_container :: container_config where
  "web_container =
     \<lparr>co_Name = ''shop-web'', co_Image = ''nginx'', co_Env = [''A=1''], co_ExposedPorts = [(''80/tcp'', ())],
      co_Labels = [(''underleaf.deployment_id'', ''d1''), (''underleaf.slug'', ''shop''),
                   (''underleaf.service'', ''web'')],
      co_Binds = [''shop_data:/data''],
      co_PortBindings = [(''80/tcp'', [\<lparr>HostIP = ''127.0.0.1'', HostPort = ''8080''\<rparr>])],
      co_RestartPolicy = ''unless-stopped'', co_CapDrop = [''ALL''], co_CapAdd = [''NET_BIND_SERVICE''],
      co_Memory = 536870912, co_NanoCPUs = 1000000000, co_PidsLimit = 256,
      co_ReadonlyRootfs = True, co_Tmpfs = [(''/tmp'', ''rw,noexec,nosuid,size=64m'')]\<rparr>"

definition web_run :: "call list" where
  "web_run =
     [DVolumeCreate \<lparr>vo_Name = ''shop_data'', vo_Driver = ''local'',
        vo_Labels = [(''underleaf.deployment_id'', ''d1''), (''underleaf.slug'', ''shop'')]\<rparr>,
      DImagePull ''nginx'', DContainerRemove ''shop-web'' True, DContainerCreate web_container,
      DContainerStart ''id-shop-web'', Sleep 3000000000, DContainerInspect ''id-shop-web'']"

definition web_result :: ExecutionResult where
  "web_result = \<lparr>er_DeploymentID = ''d1'', er_Status = ''completed'', er_Error = [],
     er_Output = [(''web'', VMap [(''image'', VStr ''nginx''), (''container_id'', VStr ''id-shop-web''),
       (''status'', VStr ''running'')])]\<rparr>"

lemma web_executes:
  "Execute sample_docker sample_network sample_host stored_order web_graph [] sample_fs =
     ((web_result, None), web_run, sample_fs)"
  by code_simp

lemma web_graph_wf: "gm_wf (g_Services web_graph)" "gm_wf (g_Volumes web_graph)"
  by (simp_all add: web_graph_def gm_wf_def)

text \<open>
  A graph with a service that cannot run (neither image nor build, or an unknown network)
  reaches neither Docker nor the network nor the disk: the execution fails before its first call.
\<close>
theorem Execute_rejects:
  assumes "(name, svc) \<in> set (g_Services g)"
    and "sn_Image svc = [] \<and> sn_Build svc = None \<or> (\<exists>n \<in> set (sn_Networks svc). map_of (g_Networks g) n = None)"
    and "fair_order \<pi>" and "gm_wf (g_Services g)"
  shows "snd (Execute D N H \<pi> g h fs) = (h, fs) \<and>
    er_Status (fst (fst (Execute D N H \<pi> g h fs))) = ''failed'' \<and> snd (fst (Execute D N H \<pi> g h fs)) \<noteq> None"
proof -
  have "\<not> service_ok (g_Networks g) svc" using assms(2) by (auto simp: service_ok_def)
  then have "\<not> graph_ok g" using assms(1) by (auto simp: graph_ok_def)
  then obtain e where "Validate_graph \<pi> g = Some e"
    using Validate_graph_None [OF assms(3,4)] by blast
  then show ?thesis by (simp add: Execute_def)
qed

theorem Execute_rejects_witness:
  "snd (Execute sample_docker sample_network sample_host stored_order (web_graph\<lparr>g_Services := [(''web'', web_node\<lparr>sn_Image := []\<rparr>)]\<rparr>) [] sample_fs) =
     ([], sample_fs) \<and>
   er_Status (fst (fst (Execute sample_docker sample_network sample_host stored_order
     (web_graph\<lparr>g_Services := [(''web'', web_node\<lparr>sn_Image := []\<rparr>)]\<rparr>) [] sample_fs))) = ''failed'' \<and>
   snd (fst (Execute sample_docker sample_network sample_host stored_order
     (web_graph\<lparr>g_Services := [(''web'', web_node\<lparr>sn_Image := []\<rparr>)]\<rparr>) [] sample_fs)) \<noteq> None"
  by (rule Execute_rejects [of "''web''" "web_node\<lparr>sn_Image := []\<rparr>"])
     (simp_all add: web_node_def gm_wf_def)

lemma parse_ports_local:
  assumes "parse_ports D ports (ep, pb) = (ep', pb')"
    and "\<And>p bs b. map_of pb p = Some bs \<Longrightarrow> b \<in> set bs \<Longrightarrow> HostIP b = ''127.0.0.1''"
    and "map_of pb' p = Some bs" and "b \<in> set bs"
  shows "HostIP b = ''127.0.0.1''"
  using assms
proof (induction ports arbitrary: ep pb)
  case (Cons s ports)
  show ?case
  proof (cases rule: SplitN2_cases [of "CHR '':''" s])
    case whole
    then show ?thesis using Cons by simp
  next
    case (parts hp q)
    show ?thesis
    proof (cases "d_parse_port D (q @ ''/tcp'')")
      case (Inl e)
      then show ?thesis using Cons parts(1) by simp
    next
      case (Inr cp)
      have inv: "HostIP b = ''127.0.0.1''"
        if "map_of (AList.update cp [\<lparr>HostIP = ''127.0.0.1'', HostPort = hp\<rparr>] pb) p = Some bs" "b \<in> set bs"
        for p bs b using that Cons.prems(2) by (auto simp: gomap_simps split: if_splits)
      show ?thesis
        by (rule Cons.IH [OF _ inv Cons.prems(3,4)]) (use Cons.prems(1) parts(1) Inr in simp)
    qed
  qed
qed simp

lemma volume_binds_declared:
  "b \<in> set (volume_binds vols slug mounts) \<Longrightarrow>
     \<exists>volName path. b = docker_volume slug volName @ '':'' @ path \<and> volName \<in> set (gm_keys vols) \<and>
       volName @ '':'' @ path \<in> set mounts"
proof (induction mounts)
  case (Cons s mounts)
  show ?case
  proof (cases rule: SplitN2_cases [of "CHR '':''" s])
    case whole
    then show ?thesis using Cons by auto
  next
    case (parts v p)
    have k: "map_of vols v \<noteq> None \<Longrightarrow> v \<in> set (gm_keys vols)" by (auto dest: map_of_SomeD simp: rev_image_eqI)
    show ?thesis
    proof (cases "b \<in> set (volume_binds vols slug mounts)")
      case True
      then show ?thesis using Cons.IH by auto
    next
      case False
      then have "b = docker_volume slug v @ '':'' @ p" "map_of vols v \<noteq> None"
        using Cons.prems parts(1) by (auto split: if_splits)
      then show ?thesis using k parts(2) by (intro exI [of _ v] exI [of _ p]) simp
    qed
  qed
qed simp

text \<open>
  C3. Every container the runner creates is confined, whatever the graph asks for: all capabilities
  dropped but one, no more than 512 MB, one CPU and 256 processes, a read-only root file system,
  ports bound on the loopback address only, and as mounts only volumes declared in the graph, under
  names of the deployment. It carries the name and the labels of a service of the graph.
\<close>
theorem Execute_hardened:
  assumes "Execute D N H \<pi> g h fs = ((res, err), h @ cs, fs')" and "DContainerCreate cfg \<in> set cs"
    and "fair_order \<pi>" and "gm_wf (g_Services g)" and "gm_wf (g_Volumes g)"
  shows "co_CapDrop cfg = [''ALL''] \<and> co_CapAdd cfg = [''NET_BIND_SERVICE''] \<and>
    co_Memory cfg = 512 * 2 ^ 20 \<and> co_NanoCPUs cfg = 10 ^ 9 \<and> co_PidsLimit cfg = 256 \<and> co_ReadonlyRootfs cfg \<and>
    (\<forall>p bs b. map_of (co_PortBindings cfg) p = Some bs \<and> b \<in> set bs \<longrightarrow> HostIP b = ''127.0.0.1'') \<and>
    (\<exists>(name, svc) \<in> set (g_Services g).
       co_Name cfg = g_Slug g @ ''-'' @ name \<and> map_of (co_Labels cfg) ''underleaf.slug'' = Some (g_Slug g) \<and>
       map_of (co_Labels cfg) ''underleaf.deployment_id'' = Some (g_DeploymentID g) \<and>
       (\<forall>b \<in> set (co_Binds cfg). \<exists>volName path. b = g_Slug g @ ''_'' @ volName @ '':'' @ path \<and>
          volName \<in> set (gm_keys (g_Volumes g)) \<and> volName @ '':'' @ path \<in> set (sn_VolumeMounts svc)))"
proof -
  obtain name svc imageRef where s: "(name, svc) \<in> set (g_Services g)"
      "cfg = service_container D \<pi> g name svc imageRef"
    using Execute_calls [OF assms(1,3-5)] assms(2) by (fastforce simp: service_call_def)
  obtain ep pb where p: "parse_ports D (sn_Ports svc) ([], []) = (ep, pb)" by fastforce
  have "HostIP b = ''127.0.0.1''" if "map_of pb p = Some bs" "b \<in> set bs" for p bs b
    by (rule parse_ports_local [OF p _ that]) simp
  moreover have "\<exists>volName path. b = g_Slug g @ ''_'' @ volName @ '':'' @ path \<and>
          volName \<in> set (gm_keys (g_Volumes g)) \<and> volName @ '':'' @ path \<in> set (sn_VolumeMounts svc)"
    if "b \<in> set (volume_binds (g_Volumes g) (g_Slug g) (sn_VolumeMounts svc))" for b
    using volume_binds_declared [OF that] by (auto simp: docker_volume_def)
  ultimately show ?thesis
    using s by (auto simp: service_container_def p container_name_def intro!: bexI [of _ "(name, svc)"])
qed

theorem Execute_hardened_witness:
  "co_CapDrop web_container = [''ALL''] \<and> co_CapAdd web_container = [''NET_BIND_SERVICE''] \<and>
   co_Memory web_container = 512 * 2 ^ 20 \<and> co_ReadonlyRootfs web_container"
proof -
  have "Execute sample_docker sample_network sample_host stored_order web_graph [] sample_fs =
     ((web_result, None), [] @ web_run, sample_fs)" using web_executes by simp
  note * = Execute_hardened [OF this _ fair_stored web_graph_wf, of web_container]
  have "DContainerCreate web_container \<in> set web_run" by (simp add: web_run_def)
  from * [OF this] show ?thesis by (elim conjE) (intro conjI; assumption)
qed

lemma Execute_services:
  assumes "Execute D N H \<pi> g h fs = ((res, err), h', fs')" and "Validate_graph \<pi> g = None"
  obtains vs where "set vs \<subseteq> range DVolumeCreate"
    "deploy_services D N H \<pi> g (gm_range \<pi> R_ExecServices (g_Services g)) [] (h @ vs) fs =
       (err, er_Output res, h', fs')"
  using assms(1)
proof (cases rule: Execute_cases)
  case (failed e h1)
  then show ?thesis by (intro that) auto
next
  case (completed h1)
  then show ?thesis by (intro that) auto
qed (use assms(2) in simp)

lemma came_up_within_prefix:
  "came_up_within D \<pi> g (h @ vs) h' out x \<Longrightarrow> came_up_within D \<pi> g h h' out x"
  unfolding came_up_within_def
  by (cases x) (use append_prefixD in blast)

text \<open>A service that came up, in the calls of the whole execution.\<close>

lemma came_up_obtain:
  assumes "came_up_within D \<pi> g h h' out (name, svc)"
  obtains pre img up post cfg i imageRef where "h' = h @ pre @ img @ up @ post"
    "cfg = service_container D \<pi> g name svc imageRef"
    "image_ready D (h @ pre) (g_Slug g) name (sn_Image svc) (sn_Build svc) (sn_Source svc) img imageRef"
    "container_up D (h @ pre @ img) cfg i up" "map_of out name = Some (running_output imageRef i)"
    "\<forall>c \<in> set post. \<exists>m s. m \<noteq> name \<and> service_call D \<pi> g m s c"
proof -
  obtain h1 h2 rest v where u: "prefix h h1" "h' = h2 @ rest" "came_up D \<pi> g name svc h1 h2 v"
      "map_of out name = Some v" "\<forall>c \<in> set rest. \<exists>m s. m \<noteq> name \<and> service_call D \<pi> g m s c"
    using assms unfolding came_up_within_def by blast
  obtain pre where pre: "h1 = h @ pre" using u(1) by (auto simp: prefix_def)
  obtain img up imageRef i where c: "h2 = h1 @ img @ up" "v = running_output imageRef i"
      "image_ready D h1 (g_Slug g) name (sn_Image svc) (sn_Build svc) (sn_Source svc) img imageRef"
      "container_up D (h1 @ img) (service_container D \<pi> g name svc imageRef) i up"
    using u(3) unfolding came_up_def by blast
  show ?thesis
    by (rule that [OF _ refl c(3) [unfolded pre] _ _ u(5)]) (use u(2,4) c(1,2,4) pre in simp_all)
qed

lemma executed_service:
  assumes "Execute D N H \<pi> g h fs = ((res, None), h', fs')"
    and "fair_order \<pi>" and "gm_wf (g_Services g)"
    and "(name, svc) \<in> set (g_Services g)" and "gm_wf (sn_Environment svc)"
  shows "er_Status res = ''completed'' \<and> er_Error res = [] \<and>
    (\<exists>pre img up post cfg i. h' = h @ pre @ img @ up @ post \<and> co_Name cfg = g_Slug g @ ''-'' @ name \<and>
       image_ready D (h @ pre) (g_Slug g) name (sn_Image svc) (sn_Build svc) (sn_Source svc) img (co_Image cfg) \<and>
       container_up D (h @ pre @ img) cfg i up \<and>
       mset (co_Env cfg) = mset (map (\<lambda>(k, v). k @ ''='' @ v) (sn_Environment svc)) \<and>
       map_of (er_Output res) name = Some (running_output (co_Image cfg) i))"
proof -
  have valid: "Validate_graph \<pi> g = None" "er_Status res = ''completed''" "er_Error res = []"
    using assms(1) by (cases rule: Execute_cases; simp)+
  obtain vs where d: "deploy_services D N H \<pi> g (gm_range \<pi> R_ExecServices (g_Services g)) [] (h @ vs) fs =
       (None, er_Output res, h', fs')"
    using assms(1) valid(1) by (rule Execute_services)
  have "came_up_within D \<pi> g (h @ vs) h' (er_Output res) (name, svc)"
    using deploy_services_split [OF d] assms(2-4) by simp
  from came_up_within_prefix [OF this]
  obtain pre img up post cfg i imageRef where u: "h' = h @ pre @ img @ up @ post"
    "cfg = service_container D \<pi> g name svc imageRef"
    "image_ready D (h @ pre) (g_Slug g) name (sn_Image svc) (sn_Build svc) (sn_Source svc) img imageRef"
    "container_up D (h @ pre @ img) cfg i up" "map_of (er_Output res) name = Some (running_output imageRef i)"
    by (rule came_up_obtain)
  have env: "mset (env_list \<pi> name (sn_Environment svc)) = mset (map (\<lambda>(k, v). k @ ''='' @ v) (sn_Environment svc))"
    unfolding env_list_def mset_map mset_gm_range [OF assms(2,5)] ..
  have c: "co_Name cfg = g_Slug g @ ''-'' @ name" "co_Image cfg = imageRef"
      "mset (co_Env cfg) = mset (map (\<lambda>(k, v). k @ ''='' @ v) (sn_Environment svc))"
    unfolding u(2) using env by (simp_all add: container_name_def)
  show ?thesis
    by (intro conjI valid exI [of _ pre] exI [of _ img] exI [of _ up] exI [of _ post] exI [of _ cfg] exI [of _ i])
       (use u(1,3,4,5) c in simp_all)
qed

lemma image_ready_ref:
  "image_ready D h slug name img build source cs imageRef \<Longrightarrow>
     if build = None then imageRef = img
     else \<exists>src. source = Some src \<and> imageRef = image_tag slug name src"
  by (auto simp: image_ready_def split: option.splits)



text \<open>
  C18. An execution that fails after the graph check stops at the first service that does not come
  up. The services before it in the order of the loop have a container the daemon created, started
  and did not report as ended, and the execution leaves these alone: after their start it stops no
  container at all and removes none but that of another service. The output says \<open>failed\<close> with the
  message of the returned error for the failed service, and for the services after it the output
  has nothing and no container is created.
\<close>
theorem Execute_stops:
  assumes "Execute D N H \<pi> g h fs = ((res, Some e), h', fs')" and "\<nexists>v. e = GraphInvalid v"
    and "fair_order \<pi>" and "gm_wf (g_Services g)"
  shows "er_Status res = ''failed'' \<and> er_Error res = exec_error_text H e \<and>
    (\<exists>pre name svc post info. mset (pre @ (name, svc) # post) = mset (g_Services g) \<and>
       (\<forall>(n, s) \<in> set pre. \<exists>before up after cfg i. h' = h @ before @ up @ after \<and>
          container_up D (h @ before) cfg i up \<and> co_Name cfg = g_Slug g @ ''-'' @ n \<and>
          (\<forall>j t. DContainerStop j t \<notin> set after) \<and>
          (\<forall>x f. DContainerRemove x f \<in> set after \<longrightarrow> (\<exists>m. m \<noteq> n \<and> x = g_Slug g @ ''-'' @ m)) \<and>
          map_of (er_Output res) n = Some (VMap [(''image'', VStr (co_Image cfg)), (''container_id'', VStr i),
            (''status'', VStr ''running'')])) \<and>
       map_of (er_Output res) name = Some (VMap (info @ [(''status'', VStr ''failed''), (''error'', VStr (er_Error res))])) \<and>
       (\<forall>(n, s) \<in> set post. map_of (er_Output res) n = None \<and>
          (\<forall>cfg. DContainerCreate cfg \<in> set (drop (length h) h') \<longrightarrow> co_Name cfg \<noteq> g_Slug g @ ''-'' @ n)))"
proof -
  have r: "Validate_graph \<pi> g = None" "er_Status res = ''failed''" "er_Error res = exec_error_text H e"
    using assms(1) by (cases rule: Execute_cases; use assms(2) in simp)+
  obtain vs where d: "set vs \<subseteq> range DVolumeCreate"
      "deploy_services D N H \<pi> g (gm_range \<pi> R_ExecServices (g_Services g)) [] (h @ vs) fs =
       (Some e, er_Output res, h', fs')"
    using assms(1) r(1) by (rule Execute_services)
  obtain pre name svc post info cs where s: "gm_range \<pi> R_ExecServices (g_Services g) = pre @ (name, svc) # post"
      "\<forall>x \<in> set pre. came_up_within D \<pi> g (h @ vs) h' (er_Output res) x"
      "map_of (er_Output res) name = Some (failed_output H info e)"
      "\<forall>n. n \<notin> fst ` set pre \<and> n \<noteq> name \<longrightarrow> map_of (er_Output res) n = map_of [] n"
      "h' = (h @ vs) @ cs" "\<forall>c \<in> set cs. \<exists>(m, s) \<in> set (pre @ [(name, svc)]). service_call D \<pi> g m s c"
    using deploy_services_split [OF d(2)] assms(3,4) by auto
  have m: "mset (pre @ (name, svc) # post) = mset (g_Services g)"
    using mset_gm_range [OF assms(3,4), of R_ExecServices] s(1) by simp
  have dist: "gm_wf (pre @ (name, svc) # post)" using s(1) assms(3,4) by (metis gm_wf_range)
  have post: "map_of (er_Output res) n = None \<and> (\<forall>cfg. DContainerCreate cfg \<in> set (drop (length h) h') \<longrightarrow>
      co_Name cfg \<noteq> g_Slug g @ ''-'' @ n)" if "(n, v) \<in> set post" for n v
  proof -
    have "n \<in> fst ` set post" using that by force
    then have n: "n \<notin> fst ` set pre" "n \<noteq> name" using dist by (auto simp: gm_wf_def)
    have "co_Name cfg \<noteq> g_Slug g @ ''-'' @ n" if "DContainerCreate cfg \<in> set (vs @ cs)" for cfg
    proof -
      have "DContainerCreate cfg \<in> set cs" using that d(1) by auto
      then obtain m v where m: "(m, v) \<in> set (pre @ [(name, svc)])" "service_call D \<pi> g m v (DContainerCreate cfg)"
        using s(6) by blast
      then have "m \<noteq> n" using n by force
      then show ?thesis using m(2) by (auto simp: service_call_def container_name_def)
    qed
    then show ?thesis using s(4,5) n by simp
  qed
  have pre: "\<exists>before up after cfg i. h' = h @ before @ up @ after \<and>
      container_up D (h @ before) cfg i up \<and> co_Name cfg = g_Slug g @ ''-'' @ n \<and>
      (\<forall>j t. DContainerStop j t \<notin> set after) \<and>
      (\<forall>x f. DContainerRemove x f \<in> set after \<longrightarrow> (\<exists>m. m \<noteq> n \<and> x = g_Slug g @ ''-'' @ m)) \<and>
      map_of (er_Output res) n = Some (VMap [(''image'', VStr (co_Image cfg)), (''container_id'', VStr i),
        (''status'', VStr ''running'')])" if np: "(n, v) \<in> set pre" for n v
  proof -
    obtain before img up after cfg i imageRef where u: "h' = h @ before @ img @ up @ after"
        "cfg = service_container D \<pi> g n v imageRef" "container_up D (h @ before @ img) cfg i up"
        "map_of (er_Output res) n = Some (running_output imageRef i)"
        "\<forall>c \<in> set after. \<exists>m s. m \<noteq> n \<and> service_call D \<pi> g m s c"
      by (rule came_up_obtain [OF came_up_within_prefix [OF bspec [OF s(2) np]]])
    have "DContainerStop j t \<notin> set after" for j t using u(5) by (fastforce simp: service_call_def)
    moreover have "\<exists>m. m \<noteq> n \<and> x = g_Slug g @ ''-'' @ m" if "DContainerRemove x f \<in> set after" for x f
      using bspec [OF u(5) that] by (auto simp: service_call_def container_name_def)
    ultimately show ?thesis
      by (intro exI [of _ "before @ img"] exI [of _ up] exI [of _ after] exI [of _ cfg] exI [of _ i])
         (use u(1-4) in \<open>simp add: container_name_def running_output_def\<close>)
  qed
  show ?thesis
    using r s(3) m pre post by (intro conjI exI [of _ pre] exI [of _ name] exI [of _ svc] exI [of _ post]
        exI [of _ info]) (auto simp: failed_output_def)
qed

definition half_graph :: CompiledGraph where
  "half_graph = web_graph\<lparr>g_Services := [(''web'', web_node), (''db'', web_node\<lparr>sn_Image := ''gone''\<rparr>)]\<rparr>"

definition half_result :: ExecutionResult where
  "half_result = \<lparr>er_DeploymentID = ''d1'', er_Status = ''failed'',
     er_Error = ''failed to pull image gone: not found'',
     er_Output = er_Output web_result @ [(''db'', VMap [(''image'', VStr ''gone''), (''status'', VStr ''failed''),
       (''error'', VStr ''failed to pull image gone: not found'')])]\<rparr>"

lemma half_executes:
  "Execute sample_docker sample_network sample_host stored_order half_graph [] sample_fs =
     ((half_result, Some (PullFailed ''gone'' ''not found'')), web_run @ [DImagePull ''gone''], sample_fs)"
  by code_simp

theorem Execute_stops_witness:
  "\<exists>pre name svc post info. mset (pre @ (name, svc) # post) = mset (g_Services half_graph) \<and>
     map_of (er_Output half_result) name =
       Some (VMap (info @ [(''status'', VStr ''failed''), (''error'', VStr (er_Error half_result))]))"
proof -
  have "gm_wf (g_Services half_graph)" by (simp add: half_graph_def gm_wf_def)
  from Execute_stops [OF half_executes _ fair_stored this] show ?thesis by blast
qed

text \<open>
  The last mapping of a container port wins: whatever mappings come before, the host port
  bound for a container port is that of the last entry that parses to it; the host ports of
  earlier entries are not bound.
\<close>
theorem parse_ports_last:
  assumes "ports = pre @ (hostPort @ '':'' @ p) # post" and "CHR '':'' \<notin> set hostPort"
    and "d_parse_port D (p @ ''/tcp'') = Inr containerPort"
    and "\<forall>s \<in> set post. \<forall>a b. SplitN2 CHR '':'' s = [a, b] \<longrightarrow> d_parse_port D (b @ ''/tcp'') \<noteq> Inr containerPort"
  shows "map_of (snd (parse_ports D ports ([], []))) containerPort =
      Some [\<lparr>HostIP = ''127.0.0.1'', HostPort = hostPort\<rparr>] \<and>
    map_of (fst (parse_ports D ports ([], []))) containerPort = Some ()"
proof -
  have app: "parse_ports D (xs @ ys) acc = parse_ports D ys (parse_ports D xs acc)" for xs ys acc
    by (induction D xs acc rule: parse_ports.induct) (simp_all split: list.splits sum.splits)
  have keep: "map_of (snd (parse_ports D post acc)) containerPort = map_of (snd acc) containerPort \<and>
      map_of (fst (parse_ports D post acc)) containerPort = map_of (fst acc) containerPort" for acc
    using assms(4)
  proof (induction D post acc rule: parse_ports.induct)
    case (2 D s rest ep pb)
    show ?case
    proof (cases rule: SplitN2_cases [of "CHR '':''" s])
      case whole
      then show ?thesis using 2 by simp
    next
      case (parts a b)
      then show ?thesis using 2
        by (cases "d_parse_port D (b @ ''/tcp'')") (auto simp: gomap_simps)
    qed
  qed simp
  obtain ep pb where e: "parse_ports D pre ([], []) = (ep, pb)" by fastforce
  have "SplitN2 CHR '':'' (hostPort @ '':'' @ p) = [hostPort, p]" using assms(2) by simp
  then show ?thesis
    using keep assms(3) by (simp add: assms(1) app e gomap_simps)
qed

theorem parse_ports_last_witness:
  "map_of (snd (parse_ports sample_docker [''8080:80'', ''9090:80'', ''80''] ([], []))) ''80/tcp'' =
      Some [\<lparr>HostIP = ''127.0.0.1'', HostPort = ''9090''\<rparr>] \<and>
   map_of (fst (parse_ports sample_docker [''8080:80'', ''9090:80'', ''80''] ([], []))) ''80/tcp'' = Some ()"
  by (rule parse_ports_last [of _ "[''8080:80'']" "''9090''" "''80''" "[''80'']"])
     (simp_all add: sample_docker_def SplitN2_def)

section \<open>Where the source token goes\<close>

text \<open>
  To say that the token goes nowhere else, two executions are compared, of graphs that differ in
  their tokens only, by a renaming \<open>\<sigma>\<close> of tokens. \<open>sees\<close> is the world of the first: it answers as
  the world of the second does after the same calls with the tokens renamed in their
  \<open>Authorization\<close> headers. So the two worlds may tell a good token from a bad one in any way.
\<close>

definition rename_header :: "(string \<Rightarrow> string) \<Rightarrow> string \<times> string \<Rightarrow> string \<times> string" where
  "rename_header \<sigma> = (\<lambda>(k, v).
     (k, if k = ''Authorization'' \<and> HasPrefix v ''Bearer '' then ''Bearer '' @ \<sigma> (drop 7 v) else v))"

definition rename_call :: "(string \<Rightarrow> string) \<Rightarrow> call \<Rightarrow> call" where
  "rename_call \<sigma> c = (case c of HttpGet url hds \<Rightarrow> HttpGet url (map (rename_header \<sigma>) hds) | _ \<Rightarrow> c)"

definition rename_node :: "(string \<Rightarrow> string) \<Rightarrow> ServiceNode \<Rightarrow> ServiceNode" where
  "rename_node \<sigma> svc = svc\<lparr>sn_Source := map_option (\<lambda>src. src\<lparr>src_Token := \<sigma> (src_Token src)\<rparr>) (sn_Source svc)\<rparr>"

definition rename_graph :: "(string \<Rightarrow> string) \<Rightarrow> CompiledGraph \<Rightarrow> CompiledGraph" where
  "rename_graph \<sigma> g = g\<lparr>g_Services := map (\<lambda>(n, svc). (n, rename_node \<sigma> svc)) (g_Services g)\<rparr>"

abbreviation renamed :: "(string \<Rightarrow> string) \<Rightarrow> history \<Rightarrow> history" where
  "renamed \<sigma> h \<equiv> map (rename_call \<sigma>) h"

definition docker_sees :: "(string \<Rightarrow> string) \<Rightarrow> docker \<Rightarrow> docker" where
  "docker_sees \<sigma> D = D\<lparr>d_new_client := \<lambda>h. d_new_client D (renamed \<sigma> h), d_ping := \<lambda>h. d_ping D (renamed \<sigma> h),
     d_volume_create := \<lambda>h. d_volume_create D (renamed \<sigma> h), d_image_pull := \<lambda>h. d_image_pull D (renamed \<sigma> h),
     d_image_build := \<lambda>h. d_image_build D (renamed \<sigma> h),
     d_container_create := \<lambda>h. d_container_create D (renamed \<sigma> h),
     d_container_start := \<lambda>h. d_container_start D (renamed \<sigma> h),
     d_container_inspect := \<lambda>h. d_container_inspect D (renamed \<sigma> h),
     d_container_logs := \<lambda>h. d_container_logs D (renamed \<sigma> h),
     d_container_list := \<lambda>h. d_container_list D (renamed \<sigma> h),
     d_container_stop := \<lambda>h. d_container_stop D (renamed \<sigma> h),
     d_container_remove := \<lambda>h. d_container_remove D (renamed \<sigma> h)\<rparr>"

definition network_sees :: "(string \<Rightarrow> string) \<Rightarrow> network \<Rightarrow> network" where
  "network_sees \<sigma> N = N\<lparr>nw_do := \<lambda>h url hds. nw_do N (renamed \<sigma> h) url (map (rename_header \<sigma>) hds)\<rparr>"

lemma sees_simps [simp]:
  "d_parse_port (docker_sees \<sigma> D) = d_parse_port D" "d_std_copy (docker_sees \<sigma> D) = d_std_copy D"
  "d_volume_create (docker_sees \<sigma> D) h v = d_volume_create D (renamed \<sigma> h) v"
  "d_image_pull (docker_sees \<sigma> D) h i = d_image_pull D (renamed \<sigma> h) i"
  "d_image_build (docker_sees \<sigma> D) h t o' = d_image_build D (renamed \<sigma> h) t o'"
  "d_container_create (docker_sees \<sigma> D) h c = d_container_create D (renamed \<sigma> h) c"
  "d_container_start (docker_sees \<sigma> D) h i = d_container_start D (renamed \<sigma> h) i"
  "d_container_inspect (docker_sees \<sigma> D) h i = d_container_inspect D (renamed \<sigma> h) i"
  "d_container_logs (docker_sees \<sigma> D) h i n = d_container_logs D (renamed \<sigma> h) i n"
  "nw_bad_request (network_sees \<sigma> N) = nw_bad_request N"
  "nw_do (network_sees \<sigma> N) h u hds = nw_do N (renamed \<sigma> h) u (map (rename_header \<sigma>) hds)"
  by (simp_all add: docker_sees_def network_sees_def)

lemma rename_call_simps [simp]:
  "rename_call \<sigma> (HttpGet u hds) = HttpGet u (map (rename_header \<sigma>) hds)"
  "rename_call \<sigma> (DVolumeCreate v) = DVolumeCreate v" "rename_call \<sigma> (DImagePull i) = DImagePull i"
  "rename_call \<sigma> (DImageBuild t e o') = DImageBuild t e o'" "rename_call \<sigma> (DContainerRemove n f) = DContainerRemove n f"
  "rename_call \<sigma> (DContainerCreate c) = DContainerCreate c" "rename_call \<sigma> (DContainerStart i) = DContainerStart i"
  "rename_call \<sigma> (DContainerInspect i) = DContainerInspect i" "rename_call \<sigma> (DContainerLogs i n) = DContainerLogs i n"
  "rename_call \<sigma> (Sleep d) = Sleep d"
  by (simp_all add: rename_call_def)

lemma rename_node_simps [simp]:
  "sn_Name (rename_node \<sigma> svc) = sn_Name svc" "sn_Image (rename_node \<sigma> svc) = sn_Image svc"
  "sn_Build (rename_node \<sigma> svc) = sn_Build svc" "sn_Environment (rename_node \<sigma> svc) = sn_Environment svc"
  "sn_Ports (rename_node \<sigma> svc) = sn_Ports svc" "sn_VolumeMounts (rename_node \<sigma> svc) = sn_VolumeMounts svc"
  "sn_Networks (rename_node \<sigma> svc) = sn_Networks svc"
  "sn_Source (rename_node \<sigma> svc) = map_option (\<lambda>src. src\<lparr>src_Token := \<sigma> (src_Token src)\<rparr>) (sn_Source svc)"
  "g_Slug (rename_graph \<sigma> g) = g_Slug g" "g_DeploymentID (rename_graph \<sigma> g) = g_DeploymentID g"
  "g_Volumes (rename_graph \<sigma> g) = g_Volumes g" "g_Networks (rename_graph \<sigma> g) = g_Networks g"
  "g_Services (rename_graph \<sigma> g) = map (\<lambda>(n, svc). (n, rename_node \<sigma> svc)) (g_Services g)"
  by (simp_all add: rename_node_def rename_graph_def)

lemma request_headers_renamed:
  assumes "\<forall>t. \<sigma> t = [] \<longleftrightarrow> t = []"
  shows "request_headers (src\<lparr>src_Token := \<sigma> (src_Token src)\<rparr>) = map (rename_header \<sigma>) (request_headers src)"
  using assms by (simp add: request_headers_def rename_header_def HasPrefix_def)

text \<open>Each function of an execution commutes with the renaming.\<close>

abbreviation renamed_run :: "(string \<Rightarrow> string) \<Rightarrow> 'a \<times> history \<times> fs \<Rightarrow> 'a \<times> history \<times> fs" where
  "renamed_run \<sigma> \<equiv> map_prod id (map_prod (map (rename_call \<sigma>)) id)"

lemma parse_ports_sees [simp]: "parse_ports (docker_sees \<sigma> D) = parse_ports D"
proof -
  have "parse_ports (docker_sees \<sigma> D) ps acc = parse_ports D ps acc" for ps acc
    by (induction D ps acc rule: parse_ports.induct) (simp_all split: list.splits sum.splits)
  then show ?thesis by blast
qed

lemma service_container_renamed:
  "service_container D \<pi> (rename_graph \<sigma> g) name (rename_node \<sigma> svc) imageRef =
     service_container (docker_sees \<sigma> D) \<pi> g name svc imageRef"
  by (simp add: service_container_def)

lemma build_in_dir_renamed:
  "build_in_dir D H \<pi> slug name (rename_node \<sigma> svc) tag body dir (renamed \<sigma> h) fs =
     renamed_run \<sigma> (build_in_dir (docker_sees \<sigma> D) H \<pi> slug name svc tag body dir h fs)"
  by (simp add: build_in_dir_def Let_def split: prod.splits option.splits sum.splits)

lemma buildImage_renamed:
  assumes "\<forall>t. \<sigma> t = [] \<longleftrightarrow> t = []"
  shows "buildImage D N H \<pi> slug name (rename_node \<sigma> svc) (renamed \<sigma> h) fs =
     renamed_run \<sigma> (buildImage (docker_sees \<sigma> D) (network_sees \<sigma> N) H \<pi> slug name svc h fs)"
proof -
  note b = build_in_dir_renamed [of D H \<pi> slug name \<sigma> svc _ _ _ "h @ [HttpGet u hds]" for u hds, simplified]
  show ?thesis
    by (simp add: buildImage_def image_tag_def request_headers_renamed [OF assms] b Let_def
        split: option.splits sum.splits prod.splits)
qed

lemma obtain_image_renamed:
  assumes "\<forall>t. \<sigma> t = [] \<longleftrightarrow> t = []"
  shows "obtain_image D N H \<pi> slug name (rename_node \<sigma> svc) (renamed \<sigma> h) fs =
     renamed_run \<sigma> (obtain_image (docker_sees \<sigma> D) (network_sees \<sigma> N) H \<pi> slug name svc h fs)"
  by (simp add: obtain_image_def buildImage_renamed [OF assms] Let_def split: prod.splits sum.splits option.splits)

lemma containerTailLogs_renamed:
  "containerTailLogs D i n (renamed \<sigma> h) = map_prod id (map (rename_call \<sigma>)) (containerTailLogs (docker_sees \<sigma> D) i n h)"
  by (simp add: containerTailLogs_def Let_def split: sum.splits)

lemma run_container_renamed:
  "run_container D H cname imageRef cfg (renamed \<sigma> h) =
     map_prod id (map (rename_call \<sigma>)) (run_container (docker_sees \<sigma> D) H cname imageRef cfg h)"
proof -
  have l: "containerTailLogs D i 20 (renamed \<sigma> h @ [DContainerRemove cname True, DContainerCreate cfg,
        DContainerStart i, Sleep (3 * second), DContainerInspect i]) = map_prod id (map (rename_call \<sigma>))
      (containerTailLogs (docker_sees \<sigma> D) i 20 (h @ [DContainerRemove cname True, DContainerCreate cfg,
        DContainerStart i, Sleep (3 * second), DContainerInspect i]))" for i
    using containerTailLogs_renamed [of D i 20 \<sigma> "h @ [DContainerRemove cname True, DContainerCreate cfg,
        DContainerStart i, Sleep (3 * second), DContainerInspect i]"] by simp
  show ?thesis
  proof (cases "d_container_create D (renamed \<sigma> h @ [DContainerRemove cname True]) cfg")
    case (Inr i)
    let ?s = "d_container_inspect D (renamed \<sigma> h @ [DContainerRemove cname True, DContainerCreate cfg,
        DContainerStart i, Sleep (3 * second)]) i"
    consider code where "?s = Inr (Some (False, code))" | e where "?s = Inl e" | "?s = Inr None"
      | code where "?s = Inr (Some (True, code))"
      by (cases ?s; cases "projr ?s"; cases "fst (the (projr ?s))") (auto simp: prod_eq_iff)
    then show ?thesis
      by cases (use Inr in \<open>simp_all add: run_container_def l Let_def split: option.split prod.split\<close>)
  qed (simp add: run_container_def Let_def)
qed

lemma deploy_service_renamed:
  assumes "\<forall>t. \<sigma> t = [] \<longleftrightarrow> t = []"
  shows "deploy_service D N H \<pi> (rename_graph \<sigma> g) name (rename_node \<sigma> svc) (renamed \<sigma> h) fs =
     renamed_run \<sigma> (deploy_service (docker_sees \<sigma> D) (network_sees \<sigma> N) H \<pi> g name svc h fs)"
  by (simp add: deploy_service_def obtain_image_renamed [OF assms] service_container_renamed run_container_renamed
      split: prod.splits sum.splits)

lemma deploy_services_renamed:
  assumes "\<forall>t. \<sigma> t = [] \<longleftrightarrow> t = []"
  shows "deploy_services D N H \<pi> (rename_graph \<sigma> g) (map (\<lambda>(n, svc). (n, rename_node \<sigma> svc)) svcs) out (renamed \<sigma> h) fs =
     map_prod id (renamed_run \<sigma>) (deploy_services (docker_sees \<sigma> D) (network_sees \<sigma> N) H \<pi> g svcs out h fs)"
proof (induction svcs arbitrary: out h fs)
  case (Cons x svcs)
  then show ?case
    by (cases x) (simp add: deploy_service_renamed [OF assms] split: prod.splits sum.splits)
qed simp

lemma volumes_renamed:
  "renamed \<sigma> (snd (for_each (create_volume (docker_sees \<sigma> D) g) vols h)) =
     snd (for_each (create_volume D (rename_graph \<sigma> g)) vols (renamed \<sigma> h))"
  by (simp add: volume_calls volume_request_def comp_def case_prod_beta)

lemma gm_range_map: "gm_range \<pi> s (map (\<lambda>(k, v). (k, f v)) m) = map (\<lambda>(k, v). (k, f v)) (gm_range \<pi> s m)"
proof -
  have k: "map fst (map (\<lambda>(k, v). (k, f v)) m) = map fst m" by (simp add: comp_def case_prod_beta)
  have m: "map_of (map (\<lambda>(k, v). (k, f v)) m) x = map_option f (map_of m x)" for x
    by (simp add: map_of_map)
  show ?thesis
    unfolding gm_range_def k m
    by (simp add: List.map_filter_def filter_map comp_def option.map_comp o_def case_prod_beta)
       (auto intro!: map_cong)
qed

lemma check_services_renamed:
  "check_services nets (map (\<lambda>(n, svc). (n, rename_node \<sigma> svc)) svcs) = check_services nets svcs"
  by (induction nets svcs rule: check_services.induct) (simp_all split: option.splits)

lemma Execute_renamed:
  assumes "\<forall>t. \<sigma> t = [] \<longleftrightarrow> t = []"
  shows "Execute D N H \<pi> (rename_graph \<sigma> g) (renamed \<sigma> h) fs =
     renamed_run \<sigma> (Execute (docker_sees \<sigma> D) (network_sees \<sigma> N) H \<pi> g h fs)"
proof -
  have v: "Validate_graph \<pi> (rename_graph \<sigma> g) = Validate_graph \<pi> g"
    by (simp add: Validate_graph_def gm_range_map check_services_renamed)
  show ?thesis
    by (simp add: Execute_def v volumes_renamed [symmetric] gm_range_map deploy_services_renamed [OF assms] Let_def
        split: option.splits prod.splits)
qed

text \<open>
  C20. The source token leaves the process only in the \<open>Authorization\<close> header of a request to the
  archive URL of a \<open>github\<close> (or untyped) source. Every request of an execution goes to the archive URL
  of a service of the graph, with exactly the two headers of such a source, and with no header for
  any other type. And if other tokens are put in the place of the tokens of the graph, in a world
  that answers the renamed calls in the same way, nothing but these headers changes: the result with its
  messages and outputs, the file tree, and all other calls with all their arguments are the same.
\<close>
theorem Execute_token:
  assumes "Execute (docker_sees \<sigma> D) (network_sees \<sigma> N) H \<pi> g h fs = (r, h @ cs, fs')"
    and "\<forall>t. \<sigma> t = [] \<longleftrightarrow> t = []"
    and "fair_order \<pi>" and "gm_wf (g_Services g)" and "gm_wf (g_Volumes g)"
  shows "Execute D N H \<pi> (rename_graph \<sigma> g) (renamed \<sigma> h) fs = (r, renamed \<sigma> h @ renamed \<sigma> cs, fs') \<and>
    (\<forall>url hds. HttpGet url hds \<in> set cs \<longrightarrow> (\<exists>(name, svc) \<in> set (g_Services g). \<exists>src. sn_Source svc = Some src \<and>
       url = src_ArchiveURL src \<and>
       hds = (if src_Type src \<in> {[], ''github''} then
                (if src_Token src = [] then [] else [(''Authorization'', ''Bearer '' @ src_Token src)]) @
                [(''Accept'', ''application/vnd.github+json'')]
              else [])))"
proof -
  have "\<exists>(name, svc) \<in> set (g_Services g). \<exists>src. sn_Source svc = Some src \<and> url = src_ArchiveURL src \<and>
      hds = request_headers src" if "HttpGet url hds \<in> set cs" for url hds
  proof -
    obtain res err where r: "r = (res, err)" by fastforce
    have "(\<exists>(volName, vol) \<in> set (g_Volumes g). HttpGet url hds = DVolumeCreate (volume_request g volName vol)) \<or>
        (\<exists>(name, svc) \<in> set (g_Services g). service_call (docker_sees \<sigma> D) \<pi> g name svc (HttpGet url hds))"
      using Execute_calls [OF assms(1) [unfolded r] assms(3-5)] that unfolding same_append_eq by metis
    then show ?thesis by (auto simp: service_call_def)
  qed
  moreover have "request_headers src = (if src_Type src \<in> {[], ''github''} then
      (if src_Token src = [] then [] else [(''Authorization'', ''Bearer '' @ src_Token src)]) @
      [(''Accept'', ''application/vnd.github+json'')] else [])" for src
    by (auto simp: request_headers_def)
  moreover have "Execute D N H \<pi> (rename_graph \<sigma> g) (renamed \<sigma> h) fs = (r, renamed \<sigma> h @ renamed \<sigma> cs, fs')"
    unfolding Execute_renamed [OF assms(2)] assms(1) by simp
  ultimately show ?thesis by simp
qed

definition build_node :: ServiceNode where
  "build_node = web_node\<lparr>sn_Image := [], sn_Build := Some \<lparr>bc_Context = [], bc_Dockerfile = [], bc_Args = []\<rparr>,
     sn_Source := Some (sample_source\<lparr>src_ArchiveURL := ''https://host/a''\<rparr>)\<rparr>"

definition build_graph :: CompiledGraph where
  "build_graph = web_graph\<lparr>g_Services := [(''web'', build_node)], g_Volumes := []\<rparr>"

definition other_token :: "string \<Rightarrow> string" where
  "other_token t = (if t = ''ghp_1'' then ''ghp_2'' else t)"

definition guarded_network :: network where
  "guarded_network = \<lparr>nw_bad_request = \<lambda>u. None,
     nw_do = \<lambda>h u hds. Inl (if (''Authorization'', ''Bearer ghp_2'') \<in> set hds then ''not found'' else ''denied'')\<rparr>"

text \<open>The server knows the second token only; the first run sees a server that knows the first.\<close>

lemma build_executes:
  "Execute (docker_sees other_token sample_docker) (network_sees other_token guarded_network) sample_host
     stored_order build_graph [] sample_fs =
     (fst (Execute (docker_sees other_token sample_docker) (network_sees other_token guarded_network) sample_host
        stored_order build_graph [] sample_fs),
      [] @ [HttpGet ''https://host/a'' [(''Authorization'', ''Bearer ghp_1''),
              (''Accept'', ''application/vnd.github+json'')]], sample_fs)"
  by code_simp

theorem Execute_token_witness:
  "fst (snd (Execute sample_docker guarded_network sample_host stored_order (rename_graph other_token build_graph)
     [] sample_fs)) =
   [HttpGet ''https://host/a'' [(''Authorization'', ''Bearer ghp_2''), (''Accept'', ''application/vnd.github+json'')]]"
proof -
  have "gm_wf (g_Services build_graph)" "gm_wf (g_Volumes build_graph)" "\<forall>t. other_token t = [] \<longleftrightarrow> t = []"
    by (simp_all add: build_graph_def gm_wf_def other_token_def)
  note e = conjunct1 [OF Execute_token [OF build_executes this(3) fair_stored this(1,2)]]
  have "renamed other_token [HttpGet ''https://host/a'' [(''Authorization'', ''Bearer ghp_1''),
      (''Accept'', ''application/vnd.github+json'')]] = [HttpGet ''https://host/a''
        [(''Authorization'', ''Bearer ghp_2''), (''Accept'', ''application/vnd.github+json'')]]" by code_simp
  then show ?thesis using e by simp
qed

lemma map_of_removed: "map_of (filter (\<lambda>(q, n). \<not> prefix p q) fs) q = (if prefix p q then None else map_of fs q)"
  by (induction fs) auto

definition no_links :: "tar_stream \<Rightarrow> bool" where
  "no_links body \<longleftrightarrow>
     (case body of NotGzip e \<Rightarrow> True | Tar hdrs tail \<Rightarrow> \<forall>hdr \<in> set hdrs. te_Typeflag hdr \<noteq> TypeSymlink)"

lemma build_in_dir_confined:
  assumes "build_in_dir D H \<pi> slug name svc tag body (abs_path ds) h fs = (r, h', fs')"
    and "no_links body" and "ds \<noteq> []" and "jail ds fs"
  shows "confined ds fs fs' \<and> jail ds fs'"
proof -
  obtain e fs1 where x: "extractTarGzStripped H body (abs_path ds) fs = (e, fs1)" by fastforce
  have "fs' = fs1"
    using assms(1) x by (cases e) (auto simp: build_in_dir_def Let_def split: prod.splits option.splits sum.splits)
  moreover have "confined ds fs fs1 \<and> jail ds fs1"
  proof (cases body)
    case (NotGzip e)
    then show ?thesis using x assms(4) by (auto simp: extractTarGzStripped_def)
  next
    case (Tar hdrs tail)
    then show ?thesis using extract_stays [of H hdrs tail ds fs e fs1] x assms(2-4)
      by (simp add: no_links_def stays_def) (simp add: jail_def)
  qed
  ultimately show ?thesis by simp
qed

text \<open>
  C19. A build leaves no trace on disk: when the archive has no symbolic links and the temporary
  directory is fresh, lies below real directories and can be removed, every path reads after the
  build as before it, whether the build succeeded or failed at any point.
\<close>
theorem build_no_trace:
  assumes "buildImage D N H \<pi> slug name svc h fs = (r, h', fs')"
    and "ho_temp_name H fs = Inr (abs_path ds)" and "plain_path ds" and "ds \<noteq> []"
    and "\<forall>p. strict_prefix p ds \<longrightarrow> map_of fs p = Some NDir" and "\<forall>p. prefix ds p \<longrightarrow> map_of fs p = None"
    and "\<forall>f. ho_fault H (SysRemove ds) f = None"
    and "\<forall>hh u hds resp. nw_do N hh u hds = Inr resp \<longrightarrow> no_links (hr_Body resp)"
  shows "map_of fs' = map_of fs"
proof (cases "fs' = fs")
  case False
  have pc: "path_comps H (abs_path ds) = ds" using assms(3) by simp
  have dirs: "walk n f fsx [] ds = Inr ds" if "jail ds fsx" for n f fsx
  proof -
    have "map_of fsx (take k ds) = Some NDir" for k
      using that by (simp add: jail_def take_is_prefix)
    then show ?thesis using walk_dirs [OF assms(3), of fsx "[]" n f] by simp
  qed
  obtain src resp where src: "sn_Source svc = Some src" "src_ArchiveURL src \<noteq> []"
      "nw_bad_request N (src_ArchiveURL src) = None"
      "nw_do N h (src_ArchiveURL src) (request_headers src) = Inr resp" "hr_StatusCode resp = 200"
    using assms(1) False by (auto simp: buildImage_def Let_def split: option.splits if_splits sum.splits)
  obtain m fs1 where mk: "os_mkdir H ds fs = (m, fs1)" by fastforce
  have m: "m = None"
    using assms(1) False src mk
    by (auto simp: buildImage_def Let_def os_mkdir_temp_def assms(2) pc os_mkdir_def
          split: option.splits if_splits sum.splits)
  obtain p where p: "walk max_links False fs [] ds = Inr p" "map_of fs p = None" "fs1 = AList.update p NDir fs"
    using mk m by (auto simp: os_mkdir_def split: option.splits if_splits sum.splits)
  have "\<not> is_link (map_of fs ([] @ take k ds))" if "k \<le> length ds" for k
  proof (cases "take k ds = ds")
    case True
    then show ?thesis using assms(6) by (simp add: is_link_def)
  next
    case False
    then have "strict_prefix (take k ds) ds" by (simp add: strict_prefix_def take_is_prefix)
    then show ?thesis using assms(5) by (simp add: is_link_def)
  qed
  from walk_no_links [OF assms(3) this p(1)] have "p = ds" by simp
  then have fs1: "map_of fs1 = (map_of fs)(ds \<mapsto> NDir)" using p(3) by (simp add: gomap_simps)
  have j: "jail ds fs1"
    using assms(3,5,6) unfolding jail_def fs1 by (auto simp: is_link_def strict_prefix_def)
  obtain r2 h2 fs2 where b: "build_in_dir D H \<pi> slug name svc (image_tag slug name src) (hr_Body resp)
      (abs_path ds) (h @ [HttpGet (src_ArchiveURL src) (request_headers src)]) fs1 = (r2, h2, fs2)"
    by (metis prod.exhaust)
  have c: "confined ds fs1 fs2" "jail ds fs2"
    using build_in_dir_confined [OF b _ assms(4) j] assms(8) src(4) by auto
  have "fs' = os_remove_all H ds fs2"
    using assms(1) src mk m b by (simp add: buildImage_def Let_def os_mkdir_temp_def assms(2) pc)
  also have "\<dots> = filter (\<lambda>(q, n). \<not> prefix ds q) fs2"
    using assms(7) by (simp add: os_remove_all_def dirs [OF c(2)])
  finally have "map_of fs' q = (if prefix ds q then None else map_of fs2 q)" for q
    by (simp add: map_of_removed)
  moreover have "map_of fs2 q = map_of fs q" if "\<not> prefix ds q" for q
    using c(1) that fs1 by (auto simp: confined_def)
  ultimately have "map_of fs' q = map_of fs q" for q using assms(6) by (cases "prefix ds q") simp_all
  then show ?thesis by (rule ext)
qed simp

definition archive_network :: network where
  "archive_network = \<lparr>nw_bad_request = \<lambda>u. None,
     nw_do = \<lambda>h u hds. Inr \<lparr>hr_StatusCode = 200,
       hr_Body = Tar [dir_entry ''r/'', reg_entry ''r/Dockerfile'' ''FROM x''] None\<rparr>\<rparr>"

definition clean_fs :: fs where
  "clean_fs = [([], NDir), ([''tmp''], NDir), ([''etc''], NDir)]"

lemma clean_fs_fresh:
  "\<forall>p. strict_prefix p [''tmp'', ''b''] \<longrightarrow> map_of clean_fs p = Some NDir"
  "\<forall>p. prefix [''tmp'', ''b''] p \<longrightarrow> map_of clean_fs p = None"
  by (auto simp: clean_fs_def strict_prefix_def prefix_Cons)

lemma archive_builds:
  "fst (buildImage sample_docker archive_network sample_host stored_order ''shop'' ''web'' build_node [] clean_fs) =
     Inr ''shop/web:local''"
  by code_simp

theorem build_no_trace_witness:
  "map_of (snd (snd (buildImage sample_docker archive_network sample_host stored_order ''shop'' ''web''
      build_node [] clean_fs))) = map_of clean_fs"
proof (rule build_no_trace [OF _ _ _ _ clean_fs_fresh])
  show "buildImage sample_docker archive_network sample_host stored_order ''shop'' ''web'' build_node [] clean_fs =
      (fst (buildImage sample_docker archive_network sample_host stored_order ''shop'' ''web'' build_node [] clean_fs),
       fst (snd (buildImage sample_docker archive_network sample_host stored_order ''shop'' ''web'' build_node [] clean_fs)),
       snd (snd (buildImage sample_docker archive_network sample_host stored_order ''shop'' ''web''
         build_node [] clean_fs)))"
    by simp
  show "ho_temp_name sample_host clean_fs = Inr (abs_path [''tmp'', ''b''])"
    by (simp add: sample_host_def abs_path_def)
qed (simp_all add: sample_host_def archive_network_def no_links_def dir_entry_def reg_entry_def plain_def)

section \<open>Properties of stopping and reconciling\<close>

lemma stopAndRemove_cases [consumes 1, case_names failed stopped]:
  assumes "stopAndRemove D i h = (r, h')"
  obtains e cs where "r = Some e" "h' = h @ DContainerStop i 10 # cs"
      "cs \<in> {[], [DContainerRemove i False]}"
  | "r = None" "h' = h @ [DContainerStop i 10, DContainerRemove i False]"
  using assms that by (cases r) (auto simp: stopAndRemove_def Let_def split: option.splits)

lemma stop_loop_spec:
  assumes "stop_loop D slug ctrs stopped errs h = ((n, errs'), h')"
  shows "(\<exists>new. errs' = errs @ new \<and> n + length new = stopped + length (filter (stop_matches slug) ctrs) \<and>
     (new = [] \<longrightarrow> h' = h @ concat (map (\<lambda>c. [DContainerStop (cs_ID c) 10, DContainerRemove (cs_ID c) False])
        (filter (stop_matches slug) ctrs)))) \<and>
     (\<exists>cs. h' = h @ cs \<and> (\<forall>i t. DContainerStop i t \<in> set cs \<longleftrightarrow>
        t = 10 \<and> i \<in> cs_ID ` set (filter (stop_matches slug) ctrs)))"
  using assms
proof (induction ctrs arbitrary: stopped errs h)
  case (Cons c ctrs)
  show ?case
  proof (cases "stop_matches slug c")
    case False
    then show ?thesis using Cons by simp
  next
    case True
    obtain r h1 where s: "stopAndRemove D (cs_ID c) h = (r, h1)" by fastforce
    then show ?thesis
    proof (cases rule: stopAndRemove_cases)
      case (failed e cs)
      have IH: "stop_loop D slug ctrs stopped (errs @ [e]) h1 = ((n, errs'), h')"
        using Cons.prems True s failed(1) by simp
      obtain new cs' where "errs' = (errs @ [e]) @ new"
          "n + length new = stopped + length (filter (stop_matches slug) ctrs)" "h' = h1 @ cs'"
          "\<forall>i t. DContainerStop i t \<in> set cs' \<longleftrightarrow> t = 10 \<and> i \<in> cs_ID ` set (filter (stop_matches slug) ctrs)"
        using Cons.IH [OF IH] by blast
      then show ?thesis using failed(2,3) True
        by (intro conjI exI [of _ "e # new"] exI [of _ "DContainerStop (cs_ID c) 10 # cs @ cs'"]) auto
    next
      case stopped
      have IH: "stop_loop D slug ctrs (Suc stopped) errs h1 = ((n, errs'), h')"
        using Cons.prems True s stopped(1) by simp
      obtain new cs' where "errs' = errs @ new"
          "n + length new = Suc stopped + length (filter (stop_matches slug) ctrs)"
          "new = [] \<longrightarrow> h' = h1 @ concat (map (\<lambda>c. [DContainerStop (cs_ID c) 10, DContainerRemove (cs_ID c) False])
        (filter (stop_matches slug) ctrs))" "h' = h1 @ cs'"
          "\<forall>i t. DContainerStop i t \<in> set cs' \<longleftrightarrow> t = 10 \<and> i \<in> cs_ID ` set (filter (stop_matches slug) ctrs)"
        using Cons.IH [OF IH] by blast
      then show ?thesis using stopped(2) True
        by (intro conjI exI [of _ new]
              exI [of _ "[DContainerStop (cs_ID c) 10, DContainerRemove (cs_ID c) False] @ cs'"]) auto
    qed
  qed
qed simp

lemma Stop_loop:
  assumes "Stop D slug h = (r, h')" and "d_container_list D h True = Inr ctrs"
  obtains n errs where "stop_loop D slug ctrs 0 [] (h @ [DContainerList True]) = ((n, errs), h')"
    "r = (if errs \<noteq> [] then Some (StopErrors n errs) else None)"
  using assms by (auto simp: Stop_def Let_def split: prod.splits)

text \<open>
  C29. Stopping is complete, also in the presence of errors: every container the test matches is
  asked to stop, with the ten seconds' grace, and no other; the success and error counts add up
  to their number; and a stop without error consists of a stop and a removal for each of them, in
  the order of the list.
\<close>
theorem Stop_complete:
  assumes "Stop D slug h = (r, h')" and "d_container_list D h True = Inr ctrs"
  shows "\<exists>cs. h' = h @ DContainerList True # cs \<and>
    (\<forall>i t. DContainerStop i t \<in> set cs \<longleftrightarrow> t = 10 \<and> (\<exists>c \<in> set ctrs. stop_matches slug c \<and> cs_ID c = i)) \<and>
    (case r of
       None \<Rightarrow> cs = concat (map (\<lambda>c. [DContainerStop (cs_ID c) 10, DContainerRemove (cs_ID c) False])
         (filter (stop_matches slug) ctrs))
     | Some e \<Rightarrow> \<exists>stopped errs. e = StopErrors stopped errs \<and>
         stopped + length errs = length (filter (stop_matches slug) ctrs))"
proof -
  obtain n errs where l: "stop_loop D slug ctrs 0 [] (h @ [DContainerList True]) = ((n, errs), h')"
    and r: "r = (if errs \<noteq> [] then Some (StopErrors n errs) else None)"
    using assms by (rule Stop_loop)
  then show ?thesis using stop_loop_spec [OF l] by (auto split: option.splits)
qed

definition shop_containers :: "container_summary list" where
  "shop_containers =
     [\<lparr>cs_ID = ''c1'', cs_Names = [''/shop-web''], cs_Labels = Some [(''underleaf.slug'', ''shop'')], cs_State = ''running''\<rparr>,
      \<lparr>cs_ID = ''c2'', cs_Names = [''/other-web''], cs_Labels = Some [(''underleaf.slug'', ''other'')], cs_State = ''running''\<rparr>]"

definition shop_docker :: docker where
  "shop_docker = sample_docker\<lparr>d_container_list := \<lambda>h a. Inr shop_containers\<rparr>"

lemma shop_stops:
  "Stop shop_docker ''shop'' [] =
     (None, [DContainerList True, DContainerStop ''c1'' 10, DContainerRemove ''c1'' False])"
  by code_simp

theorem Stop_complete_witness:
  "\<exists>cs. [DContainerList True, DContainerStop ''c1'' 10, DContainerRemove ''c1'' False] =
      [] @ DContainerList True # cs \<and>
    (\<forall>i t. DContainerStop i t \<in> set cs \<longleftrightarrow>
       t = 10 \<and> (\<exists>c \<in> set shop_containers. stop_matches ''shop'' c \<and> cs_ID c = i))"
  using Stop_complete [OF shop_stops, of shop_containers] by (auto simp: shop_docker_def)

text \<open>
  Stopping a deployment takes others down with it: a container that the runner created for a
  deployment whose slug extends the given one by a dash is stopped too, although its label names the
  other deployment.
\<close>
theorem Stop_hits_others:
  assumes "d_container_list D h True = Inr ctrs" and "c \<in> set ctrs"
    and "cs_Names c = [CHR ''/'' # container_name (slug @ ''-'' @ ext) service]"
    and "label_of c ''underleaf.slug'' = slug @ ''-'' @ ext"
  shows "DContainerStop (cs_ID c) 10 \<in> set (snd (Stop D slug h))"
proof -
  have "HasPrefix (bare_name (CHR ''/'' # container_name (slug @ ''-'' @ ext) service)) (slug @ ''-'')"
    by (simp add: bare_name_def HasPrefix_def container_name_def)
  then have "stop_matches slug c" using assms(3) by (simp add: stop_matches_def)
  then show ?thesis
    using Stop_complete [OF prod.collapse [symmetric] assms(1), of slug] assms(2)
    by (metis Un_iff list.set_intros(2) set_append)
qed

definition staging_container :: container_summary where
  "staging_container = \<lparr>cs_ID = ''c9'', cs_Names = [''/shop-staging-web''],
     cs_Labels = Some [(''underleaf.slug'', ''shop-staging'')], cs_State = ''running''\<rparr>"

theorem Stop_hits_others_witness:
  "DContainerStop (cs_ID staging_container) 10 \<in>
     set (snd (Stop (sample_docker\<lparr>d_container_list := \<lambda>h a. Inr [staging_container]\<rparr>) ''shop'' []))"
  by (rule Stop_hits_others [where ext = "''staging''" and ctrs = "[staging_container]" and service = "''web''"])
     (simp_all add: staging_container_def container_name_def label_of_def)

definition managed_stopped :: "container_summary \<Rightarrow> bool" where
  "managed_stopped c \<longleftrightarrow> label_of c ''underleaf.deployment_id'' \<noteq> [] \<and> cs_State c \<noteq> ''running''"

lemma reconcile_loop_spec:
  assumes "\<forall>c \<in> set ctrs. managed_stopped c \<longrightarrow> 12 \<le> length (cs_ID c)"
  shows "\<exists>n e. reconcile_loop D ctrs restarted errCount h =
      (Some (restarted + n, errCount + e), h @ map (DContainerStart \<circ> cs_ID) (filter managed_stopped ctrs)) \<and>
      n + e = length (filter managed_stopped ctrs) \<and>
      n = card {k. k < length (filter managed_stopped ctrs) \<and> d_container_start D (h @ map (DContainerStart \<circ> cs_ID)
          (take k (filter managed_stopped ctrs))) (cs_ID (filter managed_stopped ctrs ! k)) = None}"
  using assms
proof (induction ctrs arbitrary: restarted errCount h)
  case (Cons c ctrs)
  show ?case
  proof (cases "managed_stopped c")
    case False
    then show ?thesis using Cons by (auto simp: managed_stopped_def)
  next
    case True
    let ?cs = "filter managed_stopped ctrs" and ?h1 = "h @ [DContainerStart (cs_ID c)]"
    let ?S = "{k. k < length ?cs \<and> d_container_start D (?h1 @ map (DContainerStart \<circ> cs_ID)
          (take k ?cs)) (cs_ID (?cs ! k)) = None}"
    let ?T = "{k. k < Suc (length ?cs) \<and> d_container_start D (h @ map (DContainerStart \<circ> cs_ID)
          (take k (c # ?cs))) (cs_ID ((c # ?cs) ! k)) = None}"
    have T: "card ?T = (if d_container_start D h (cs_ID c) = None then 1 else 0) + card ?S"
    proof -
      have "?T = (if d_container_start D h (cs_ID c) = None then {0} else {}) \<union> Suc ` ?S"
        by (auto simp: image_iff less_Suc_eq_0_disj)
      moreover have "card (Suc ` ?S) = card ?S" by (simp add: card_image)
      ultimately show ?thesis by (simp add: card_insert_if)
    qed
    have step: "reconcile_loop D (c # ctrs) restarted errCount h =
        (case d_container_start D h (cs_ID c) of
           Some e \<Rightarrow> reconcile_loop D ctrs restarted (Suc errCount) ?h1
         | None \<Rightarrow> reconcile_loop D ctrs (Suc restarted) errCount ?h1)"
      using True Cons.prems by (auto simp: managed_stopped_def Let_def)
    have prems: "\<forall>c \<in> set ctrs. managed_stopped c \<longrightarrow> 12 \<le> length (cs_ID c)"
      using Cons.prems by simp
    have f: "filter managed_stopped (c # ctrs) = c # ?cs" using True by simp
    show ?thesis
    proof (cases "d_container_start D h (cs_ID c)")
      case None
      obtain n e where IH: "reconcile_loop D ctrs (Suc restarted) errCount ?h1 =
          (Some (Suc restarted + n, errCount + e), ?h1 @ map (DContainerStart \<circ> cs_ID) ?cs)"
          "n + e = length ?cs" "n = card ?S"
        using Cons.IH [OF prems, of "Suc restarted" errCount ?h1] by blast
      show ?thesis
        by (intro exI [of _ "Suc n"] exI [of _ e])
           (unfold f step None, use IH T None in \<open>simp add: comp_def\<close>)
    next
      case (Some x)
      obtain n e where IH: "reconcile_loop D ctrs restarted (Suc errCount) ?h1 =
          (Some (restarted + n, Suc errCount + e), ?h1 @ map (DContainerStart \<circ> cs_ID) ?cs)"
          "n + e = length ?cs" "n = card ?S"
        using Cons.IH [OF prems, of restarted "Suc errCount" ?h1] by blast
      show ?thesis
        by (intro exI [of _ n] exI [of _ "Suc e"])
           (unfold f step Some, use IH T Some in \<open>simp add: comp_def\<close>)
    qed
  qed
qed simp

text \<open>
  C30. At startup every container of the engine that is not running is started once, in the order
  of the list, and no other container is touched; the result counts the starts the daemon accepted
  and the others. (Container IDs have at least the twelve characters the log statement cuts off.)
\<close>
theorem Reconcile_restarts:
  assumes "d_container_list D h True = Inr ctrs"
    and "\<forall>c \<in> set ctrs. label_of c ''underleaf.deployment_id'' \<noteq> [] \<and> cs_State c \<noteq> ''running'' \<longrightarrow>
           12 \<le> length (cs_ID c)"
    and "stopped = filter (\<lambda>c. label_of c ''underleaf.deployment_id'' \<noteq> [] \<and> cs_State c \<noteq> ''running'') ctrs"
  shows "\<exists>n e. ReconcileContainers D h =
      (Some (n, e), h @ DContainerList True # map (DContainerStart \<circ> cs_ID) stopped) \<and>
    n + e = length stopped \<and>
    n = card {k. k < length stopped \<and>
      d_container_start D (h @ DContainerList True # map (DContainerStart \<circ> cs_ID) (take k stopped))
        (cs_ID (stopped ! k)) = None}"
proof -
  have m: "stopped = filter managed_stopped ctrs" unfolding assms(3) managed_stopped_def ..
  have "\<forall>c \<in> set ctrs. managed_stopped c \<longrightarrow> 12 \<le> length (cs_ID c)"
    using assms(2) by (simp add: managed_stopped_def)
  from reconcile_loop_spec [OF this, of D 0 0 "h @ [DContainerList True]"]
  show ?thesis unfolding m [symmetric] by (simp add: ReconcileContainers_def assms(1))
qed

definition rebooted :: "container_summary list" where
  "rebooted =
     [\<lparr>cs_ID = ''0123456789ab'', cs_Names = [''/shop-web''],
        cs_Labels = Some [(''underleaf.deployment_id'', ''d1'')], cs_State = ''exited''\<rparr>,
      \<lparr>cs_ID = ''ffff'', cs_Names = [''/mine''], cs_Labels = None, cs_State = ''exited''\<rparr>]"

theorem Reconcile_restarts_witness:
  "\<exists>n e. ReconcileContainers (sample_docker\<lparr>d_container_list := \<lambda>h a. Inr rebooted\<rparr>) [] =
      (Some (n, e), [] @ DContainerList True # map (DContainerStart \<circ> cs_ID) (take 1 rebooted)) \<and>
    n + e = length (take 1 rebooted)"
proof -
  have s: "take 1 rebooted =
      filter (\<lambda>c. label_of c ''underleaf.deployment_id'' \<noteq> [] \<and> cs_State c \<noteq> ''running'') rebooted"
    by (simp add: rebooted_def label_of_def)
  have "d_container_list (sample_docker\<lparr>d_container_list := \<lambda>h a. Inr rebooted\<rparr>) [] True = Inr rebooted"
    by simp
  from Reconcile_restarts [OF this _ s] show ?thesis
    by (auto simp: rebooted_def label_of_def)
qed

end
