(* ===== verification/Event_Subscriber.thy ===== *)
theory Event_Subscriber
  imports Runner
begin

text \<open>
  The event subscriber and the reconciliation component (\<open>cmd/serve/main.go\<close>): the handlers of
  apply and delete requests, which compose the compiler, the runner and the kernel client; the
  progress and result events with their retries; and the subscription loop as a step relation.
  The environment of a handler (kernel, Docker, network, host, clock, decoders) is one record.
\<close>

section \<open>Payloads\<close>

record exposeFromPayload =
  ep_Port :: int
  ep_Hostname :: string

record serviceFromPayload =
  sp_Name :: string
  sp_Image :: string
  sp_Build :: "BuildConfig option"
  sp_Environment :: "string gomap"
  sp_Ports :: "string list"
  sp_Volumes :: "string list"
  sp_Networks :: "string list"
  sp_Expose :: "exposeFromPayload option"

record networkFromPayload =
  np_Name :: string
  np_Driver :: string

record volumeFromPayload =
  vp_Name :: string
  vp_Path :: string

record deploymentFromPayload =
  dp_ID :: string
  dp_Name :: string
  dp_Slug :: string
  dp_Version :: int
  dp_Source :: "SourceRef option"
  dp_Services :: "serviceFromPayload list"
  dp_Networks :: "networkFromPayload list"
  dp_Volumes :: "volumeFromPayload list"

record deploymentEventPayload =
  ev_JobID :: string
  ev_Deployment :: deploymentFromPayload

record deletePayload =
  dl_DeploymentID :: string
  dl_Slug :: string

record engine =
  en_kernel :: kernel
  en_docker :: docker
  en_network :: network
  en_host :: host
  en_order :: iter_order
  en_quote :: "string \<Rightarrow> string" \<comment> \<open>\<open>strconv.Quote\<close>\<close>
  en_now :: "history \<Rightarrow> string" \<comment> \<open>the time in RFC 3339\<close>
  en_decode :: "string \<Rightarrow> string + deploymentEventPayload"
  en_decode_delete :: "string \<Rightarrow> string + deletePayload"

section \<open>Progress and result events\<close>

definition progress_payload :: "string \<Rightarrow> string \<Rightarrow> int \<Rightarrow> string \<Rightarrow> string \<Rightarrow> string \<Rightarrow> payload" where
  "progress_payload jobID deploymentID version stage message now =
     [(''job_id'', VStr jobID), (''deployment_id'', VStr deploymentID), (''version'', VInt version),
      (''stage'', VStr stage), (''message'', VStr message), (''timestamp'', VStr now)]"

definition emitDeploymentProgress ::
    "engine \<Rightarrow> string \<Rightarrow> string \<Rightarrow> int \<Rightarrow> string \<Rightarrow> string \<Rightarrow> history \<Rightarrow> history" where
  "emitDeploymentProgress E jobID deploymentID version stage message h =
     snd (retry_from (EmitDeploymentEvent (en_kernel E) ''deployments.progress'' deploymentID
            (progress_payload jobID deploymentID version stage message (en_now E h))) 3 0 h)"

definition result_payload :: "string \<Rightarrow> string \<Rightarrow> int \<Rightarrow> bool \<Rightarrow> string \<Rightarrow> string \<Rightarrow> payload" where
  "result_payload jobID deploymentID version success errMsg out =
     [(''job_id'', VStr jobID), (''deployment_id'', VStr deploymentID), (''version'', VInt version),
      (''success'', VBool success), (''error'', VStr errMsg), (''output'', VStr out)]"

definition emitDeploymentResult ::
    "engine \<Rightarrow> string \<Rightarrow> string \<Rightarrow> int \<Rightarrow> bool \<Rightarrow> string \<Rightarrow> string \<Rightarrow> bool action" where
  "emitDeploymentResult E jobID deploymentID version success errMsg out h =
     retry_from (EmitDeploymentEvent (en_kernel E) ''deployments.result'' deploymentID
       (result_payload jobID deploymentID version success errMsg out)) 5 0 h"

section \<open>The handlers\<close>

definition expose_of :: "exposeFromPayload option \<Rightarrow> ExposeConfig option" where
  "expose_of = map_option (\<lambda>e. \<lparr>ex_Port = ep_Port e, ex_Hostname = ep_Hostname e\<rparr>)"

definition service_of :: "serviceFromPayload \<Rightarrow> ServiceSpec" where
  "service_of svc =
     \<lparr>ss_Image = sp_Image svc, ss_Build = sp_Build svc, ss_Ports = sp_Ports svc,
      ss_Environment = sp_Environment svc, ss_Volumes = sp_Volumes svc, ss_Networks = sp_Networks svc,
      ss_Expose = expose_of (sp_Expose svc)\<rparr>"

fun services_of :: "serviceFromPayload list \<Rightarrow> ServiceSpec gomap \<Rightarrow> ServiceSpec gomap" where
  "services_of [] services = services"
| "services_of (svc # rest) services =
     services_of rest (AList.update (sp_Name svc) (service_of svc) services)"

text \<open>The literal sets neither \<open>Networks\<close> nor \<open>Volumes\<close>: both are the nil map.\<close>

definition spec_of :: "deploymentFromPayload \<Rightarrow> DeploymentSpec" where
  "spec_of dep =
     \<lparr>ds_ID = dp_ID dep, ds_Slug = dp_Slug dep, ds_Version = show_int (dp_Version dep),
      ds_Source = dp_Source dep, ds_ServiceMap = Some (services_of (dp_Services dep) []),
      ds_Networks = [], ds_Volumes = []\<rparr>"

text \<open>What an apply request comes to: the outcome that is reported, after the stages on the way.\<close>

definition versioned :: "string \<Rightarrow> deploymentFromPayload \<Rightarrow> string" where
  "versioned message dep = message @ dp_Slug dep @ '' v'' @ show_int (dp_Version dep)"

definition run_deployment ::
    "engine \<Rightarrow> string \<Rightarrow> deploymentFromPayload \<Rightarrow> history \<Rightarrow> fs \<Rightarrow> (bool \<times> string) \<times> history \<times> fs" where
  "run_deployment E jobID dep h fs =
     (let spec = spec_of dep;
          progress = emitDeploymentProgress E jobID (dp_ID dep) (dp_Version dep)
      in case Compile (Some (en_kernel E)) (en_order E) (Some spec) h of
           (Inl e, h1) \<Rightarrow> ((False, ''compilation failed: '' @ compile_error_text (en_quote E) e), h1, fs)
         | (Inr graph, h1) \<Rightarrow>
             (case d_new_client (en_docker E) h1 of
                Some e \<Rightarrow>
                  ((False, ''failed to create runner: failed to create Docker client: '' @ e), h1, fs)
              | None \<Rightarrow>
                  (case Ping (en_docker E) h1 of
                     (Some e, h2) \<Rightarrow> ((False, ''docker daemon unreachable: '' @ e), h2, fs)
                   | (None, h2) \<Rightarrow>
                       (let hasBuild = list_ex (\<lambda>(n, svc). ss_Build svc \<noteq> None) (ds_Services spec);
                            h3 = (if hasBuild
                                  then progress ''building'' (versioned ''building image(s) for '' dep) h2
                                  else progress ''pulling'' (versioned ''pulling image(s) for '' dep) h2)
                        in case Execute (en_docker E) (en_network E) (en_host E) (en_order E) graph h3 fs of
                             ((result, Some e), h4, fs1) \<Rightarrow>
                               ((False, exec_error_text (en_host E) e), h4, fs1)
                           | ((result, None), h4, fs1) \<Rightarrow>
                               (let h5 = progress ''starting'' (versioned ''starting container(s) for '' dep) h4;
                                    h6 = progress ''deployed'' (versioned ''container(s) running for '' dep) h5
                                in ((er_Status result = ''completed'', er_Error result), h6, fs1))))))"

definition processDeployment :: "engine \<Rightarrow> string \<Rightarrow> history \<Rightarrow> fs \<Rightarrow> history \<times> fs" where
  "processDeployment E payload h fs =
     (case en_decode E payload of
        Inl e \<Rightarrow> (h, fs)
      | Inr ep \<Rightarrow>
          (case run_deployment E (ev_JobID ep) (ev_Deployment ep) h fs of
             ((success, errMsg), h1, fs1) \<Rightarrow>
               (snd (emitDeploymentResult E (ev_JobID ep) (dp_ID (ev_Deployment ep))
                       (dp_Version (ev_Deployment ep)) success errMsg [] h1), fs1)))"

definition processDeploymentDelete :: "engine \<Rightarrow> string \<Rightarrow> history \<Rightarrow> history" where
  "processDeploymentDelete E payload h =
     (case en_decode_delete E payload of
        Inl e \<Rightarrow> h
      | Inr ep \<Rightarrow>
          if dl_Slug ep = [] then h
          else
            (case d_new_client (en_docker E) h of
               Some e \<Rightarrow> h
             | None \<Rightarrow> snd (Stop (en_docker E) (dl_Slug ep) h)))"

text \<open>
  The reconciliation component. \<open>None\<close> is a panic of \<open>ReconcileContainers\<close>, which nothing
  recovers from at startup; otherwise the component starts whatever the counts.
\<close>

definition reconciliation_Start :: "engine \<Rightarrow> unit option action" where
  "reconciliation_Start E h =
     (case d_new_client (en_docker E) h of
        Some e \<Rightarrow> (Some (), h)
      | None \<Rightarrow>
          (case ReconcileContainers (en_docker E) h of
             (None, h1) \<Rightarrow> (None, h1)
           | (Some (restarted, errCount), h1) \<Rightarrow> (Some (), h1)))"

section \<open>The subscription loop\<close>

text \<open>
  The goroutine of \<open>Start\<close>. Its program points are the two \<open>select\<close> statements, the blocking calls
  their \<open>default\<close> cases go on to, the tests on an event that was received, and the return; another
  goroutine can close \<open>stopChan\<close> between any two of them, so also while a call blocks. The state
  also has the calls so far, the handlers spawned, and whether \<open>stopChan\<close> is closed. \<open>recv\<close> is the
  stream, \<open>marshal\<close> is \<open>json.Marshal\<close> of the event's payload. The \<open>break\<close> after a receive error leaves
  only the \<open>select\<close> statement, so the loop stays at its inner point.
\<close>

record event =
  ev_EventType :: string
  ev_Payload :: payload

datatype handler = HandleApply string | HandleDelete string

datatype loop_point = Outer | Subscribing | Inner | Receiving | Handling event | Returned

record loop_state =
  lp_point :: loop_point
  lp_calls :: history
  lp_spawned :: "handler list"
  lp_stopped :: bool

definition loop_init :: loop_state where
  "loop_init = \<lparr>lp_point = Outer, lp_calls = [], lp_spawned = [], lp_stopped = False\<rparr>"

definition dispatch :: "(payload \<Rightarrow> string + string) \<Rightarrow> event \<Rightarrow> handler list" where
  "dispatch marshal ev =
     (if ev_EventType ev = ''deployments.apply.server.request'' then
        (case marshal (ev_Payload ev) of Inl e \<Rightarrow> [] | Inr bytes \<Rightarrow> [HandleApply bytes])
      else if ev_EventType ev = ''deployments.delete.server.request'' then
        (case marshal (ev_Payload ev) of Inl e \<Rightarrow> [] | Inr bytes \<Rightarrow> [HandleDelete bytes])
      else [])"

inductive loop_step ::
    "kernel \<Rightarrow> (history \<Rightarrow> string + event) \<Rightarrow> (payload \<Rightarrow> string + string) \<Rightarrow> loop_state \<Rightarrow> loop_state \<Rightarrow> bool"
  for K :: kernel and recv :: "history \<Rightarrow> string + event" and marshal :: "payload \<Rightarrow> string + string" where
  close_stop: "loop_step K recv marshal s (s\<lparr>lp_stopped := True\<rparr>)"
| outer_stop: "lp_point s = Outer \<Longrightarrow> lp_stopped s \<Longrightarrow>
    loop_step K recv marshal s (s\<lparr>lp_point := Returned\<rparr>)"
| outer_default: "lp_point s = Outer \<Longrightarrow> \<not> lp_stopped s \<Longrightarrow>
    loop_step K recv marshal s (s\<lparr>lp_point := Subscribing\<rparr>)"
| subscribe_error: "lp_point s = Subscribing \<Longrightarrow> SubscribeDeploymentEvents K (lp_calls s) = (Some e, h) \<Longrightarrow>
    loop_step K recv marshal s (s\<lparr>lp_point := Outer, lp_calls := h @ [Sleep (5 * second)]\<rparr>)"
| subscribed: "lp_point s = Subscribing \<Longrightarrow> SubscribeDeploymentEvents K (lp_calls s) = (None, h) \<Longrightarrow>
    loop_step K recv marshal s (s\<lparr>lp_point := Inner, lp_calls := h\<rparr>)"
| inner_stop: "lp_point s = Inner \<Longrightarrow> lp_stopped s \<Longrightarrow>
    loop_step K recv marshal s (s\<lparr>lp_point := Returned\<rparr>)"
| inner_default: "lp_point s = Inner \<Longrightarrow> \<not> lp_stopped s \<Longrightarrow>
    loop_step K recv marshal s (s\<lparr>lp_point := Receiving\<rparr>)"
| recv_error: "lp_point s = Receiving \<Longrightarrow> recv (lp_calls s) = Inl e \<Longrightarrow>
    loop_step K recv marshal s (s\<lparr>lp_point := Inner, lp_calls := lp_calls s @ [KRecv, Sleep (2 * second)]\<rparr>)"
| recv_event: "lp_point s = Receiving \<Longrightarrow> recv (lp_calls s) = Inr ev \<Longrightarrow>
    loop_step K recv marshal s (s\<lparr>lp_point := Handling ev, lp_calls := lp_calls s @ [KRecv]\<rparr>)"
| handle: "lp_point s = Handling ev \<Longrightarrow>
    loop_step K recv marshal s (s\<lparr>lp_point := Inner, lp_spawned := lp_spawned s @ dispatch marshal ev\<rparr>)"

text \<open>The handler a spawned goroutine runs, with the panics it recovers from left out: there are none.\<close>

fun run_handler :: "engine \<Rightarrow> handler \<Rightarrow> history \<Rightarrow> fs \<Rightarrow> history \<times> fs" where
  "run_handler E (HandleApply bytes) h fs = processDeployment E bytes h fs"
| "run_handler E (HandleDelete bytes) h fs = (processDeploymentDelete E bytes h, fs)"

section \<open>Emission\<close>

lemma retry_calls: "\<exists>n \<le> left. (0 < left \<longrightarrow> 0 < n) \<and> snd (retry_from (EmitDeploymentEvent K t d p) left a h) =
    h @ concat (map (\<lambda>i. backoff_sleep i [] @
          (if k_struct_error K p = None then [KEmitEvent (deployment_event t d p)] else [])) [a..<a + n])"
  using kernel_emit.retry_spec [of K t d p left a h]
  unfolding kernel_emit.attempts_def by (metis (no_types, lifting) snd_conv)

lemma progress_calls:
  "\<exists>cs. emitDeploymentProgress E j d v stage msg h = h @ cs \<and>
     (\<forall>c \<in> set cs. c \<in> range Sleep \<or> (\<exists>q. c = KEmitEvent q \<and> EventType q = ''deployments.progress''))"
proof -
  let ?p = "progress_payload j d v stage msg (en_now E h)" and ?K = "en_kernel E"
  let ?at = "\<lambda>i. backoff_sleep i [] @ (if k_struct_error ?K ?p = None
      then [KEmitEvent (deployment_event ''deployments.progress'' d ?p)] else [])"
  obtain n where n: "emitDeploymentProgress E j d v stage msg h = h @ concat (map ?at [0..<n])"
    using retry_calls [of 3 ?K "''deployments.progress''" d ?p 0 h] by (auto simp: emitDeploymentProgress_def)
  have "c \<in> range Sleep \<or> (\<exists>q. c = KEmitEvent q \<and> EventType q = ''deployments.progress'')"
    if "c \<in> set (?at i)" for c i
    using that by (auto simp: backoff_sleep_def deployment_event_def split: if_splits)
  then show ?thesis using n by (intro exI [of _ "concat (map ?at [0..<n])"]) (simp only: set_concat set_map, blast)
qed

text \<open>
  C16. The result event is sent until the kernel takes it, at most five times, after pauses of 1,
  2, 4 and 8 seconds; the loop ends at the first success and gives up only after five refusals.
  A result the kernel's payload format cannot represent is never sent: the loop just sleeps.
\<close>
theorem result_retries:
  assumes "emitDeploymentResult E jobID d version success errMsg out h = (ok, h')"
    and "req = deployment_event ''deployments.result'' d (result_payload jobID d version success errMsg out)"
    and "sent = (\<lambda>n. h @ concat (map (\<lambda>i. backoff_sleep i [] @ [KEmitEvent req]) [0..<n]))"
  shows "if k_struct_error (en_kernel E) (Payload req) \<noteq> None
    then \<not> ok \<and> h' = h @ [Sleep second, Sleep (2 * second), Sleep (4 * second), Sleep (8 * second)]
    else \<exists>n. 0 < n \<and> n \<le> 5 \<and> h' = sent n \<and> (\<not> ok \<longrightarrow> n = 5) \<and>
      (\<forall>i < n. k_emit (en_kernel E) (backoff_sleep i (sent i)) req = None \<longleftrightarrow> ok \<and> i = n - 1)"
proof -
  let ?K = "en_kernel E" and ?t = "''deployments.result''" and ?p = "result_payload jobID d version success errMsg out"
  have p: "Payload req = ?p" by (simp add: assms(2) deployment_event_def)
  obtain n where r: "h' = h @ kernel_emit.attempts ?K ?p ?t d 0 n" "n \<le> 5"
      "ok \<Longrightarrow> 0 < n \<and> emit_answer ?K ?t d ?p (kernel_emit.before ?K ?p ?t d 0 h (n - 1)) = None \<and>
         (\<forall>i<n - 1. emit_answer ?K ?t d ?p (kernel_emit.before ?K ?p ?t d 0 h i) \<noteq> None)"
      "\<not> ok \<Longrightarrow> n = 5 \<and> (\<forall>i<5. emit_answer ?K ?t d ?p (kernel_emit.before ?K ?p ?t d 0 h i) \<noteq> None)"
    using kernel_emit.retry_spec [of ?K ?t d ?p 5 0 h] assms(1,2) by (auto simp: emitDeploymentResult_def)
  have at: "kernel_emit.attempts ?K ?p ?t d 0 m = concat (map (\<lambda>i. backoff_sleep i [] @
      (if k_struct_error ?K ?p = None then [KEmitEvent req] else [])) [0..<0 + m])" for m
    by (simp only: kernel_emit.attempts_def assms(2))
  show ?thesis
  proof (cases "k_struct_error ?K ?p")
    case (Some e)
    then have ne: "emit_answer ?K ?t d ?p hh \<noteq> None" for hh
      by (simp add: emit_answer_def EmitDeploymentEvent_def)
    then have "\<not> ok" using r(3) by blast
    moreover then have "n = 5" using r(4) by blast
    ultimately show ?thesis using Some p r(1) [unfolded at]
      by (simp add: backoff_sleep_def upt_rec eval_nat_numeral)
  next
    case None
    have b: "kernel_emit.before ?K ?p ?t d 0 h i = backoff_sleep i (sent i)" for i
      unfolding kernel_emit.before_def at using None by (simp add: assms(3))
    have a: "emit_answer ?K ?t d ?p hh = None \<longleftrightarrow> k_emit ?K hh req = None" for hh
      using None by (simp add: emit_answer_def EmitDeploymentEvent_def assms(2) Let_def split: option.splits)
    have h': "h' = sent n" using r(1) [unfolded at] None assms(3) by simp
    show ?thesis
    proof (cases ok)
      case True
      have "k_emit ?K (backoff_sleep i (sent i)) req = None \<longleftrightarrow> i = n - 1" if "i < n" for i
        using r(3) [OF True] that unfolding a b by (cases "i < n - 1") auto
      then show ?thesis using r(2,3) True h' None p by (auto intro!: exI [of _ n])
    next
      case False
      then show ?thesis using r(4) h' None p unfolding a b by (auto intro!: exI [of _ 5])
    qed
  qed
qed

section \<open>The apply handler\<close>

definition result_call :: "call \<Rightarrow> bool" where
  "result_call c \<longleftrightarrow> (\<exists>q. c = KEmitEvent q \<and> EventType q = ''deployments.result'')"

text \<open>The calls of a deployment but its result: no result event, and what the compiler and runner call.\<close>

definition quiet :: "call \<Rightarrow> bool" where
  "quiet c \<longleftrightarrow> \<not> result_call c \<and> (\<nexists>cfg. c = DContainerCreate cfg) \<and> (\<nexists>v. c = DVolumeCreate v)"

lemma progress_quiet: "\<exists>cs. emitDeploymentProgress E j d v stage msg h = h @ cs \<and> (\<forall>c \<in> set cs. quiet c)"
  using progress_calls [of E j d v stage msg h] by (fastforce simp: quiet_def result_call_def)

lemma service_call_no_result: "service_call D \<pi> g name svc c \<Longrightarrow> \<not> result_call c"
  by (auto simp: service_call_def result_call_def)

lemma exec_error_text_not_Nil: "exec_error_text H e \<noteq> []"
  by (cases e) simp_all

lemma services_of_wf: "gm_wf acc \<Longrightarrow> gm_wf (services_of svcs acc)"
  by (induction svcs arbitrary: acc) simp_all

lemma services_of_keys: "set (gm_keys (services_of svcs acc)) = sp_Name ` set svcs \<union> set (gm_keys acc)"
  by (induction svcs arbitrary: acc) (auto simp: dom_update)

lemma map_of_services_of:
  "map_of (services_of svcs acc) n =
     (case List.find (\<lambda>s. sp_Name s = n) (rev svcs) of Some s \<Rightarrow> Some (service_of s) | None \<Rightarrow> map_of acc n)"
proof (induction svcs arbitrary: acc)
  case (Cons s svcs)
  have "List.find P (xs @ ys) = (case List.find P xs of Some x \<Rightarrow> Some x | None \<Rightarrow> List.find P ys)"
    for P and xs ys :: "serviceFromPayload list"
    by (induction xs) auto
  then show ?case by (simp add: Cons.IH gomap_simps split: option.splits)
qed simp

lemma services_of_env:
  "\<forall>s \<in> set svcs. gm_wf (sp_Environment s) \<Longrightarrow> \<forall>(n, s) \<in> set acc. gm_wf (ss_Environment s) \<Longrightarrow> gm_wf acc \<Longrightarrow>
     \<forall>(n, s) \<in> set (services_of svcs acc). gm_wf (ss_Environment s)"
proof (induction svcs arbitrary: acc)
  case (Cons s svcs)
  have "\<forall>(n, x) \<in> set (AList.update (sp_Name s) (service_of s) acc). gm_wf (ss_Environment x)"
  proof safe
    fix n x assume "(n, x) \<in> set (AList.update (sp_Name s) (service_of s) acc)"
    then have "map_of (AList.update (sp_Name s) (service_of s) acc) n = Some x"
      using Cons.prems(3) by (simp add: map_of_mem_iff)
    then show "gm_wf (ss_Environment x)"
      using Cons.prems by (auto simp: gomap_simps service_of_def dest!: map_of_SomeD split: if_splits)
  qed
  then show ?case using Cons by simp
qed simp

definition dep_wf :: "deploymentFromPayload \<Rightarrow> bool" where
  "dep_wf dep \<longleftrightarrow> (\<forall>s \<in> set (dp_Services dep). gm_wf (sp_Environment s))"

lemma spec_of_wf: "dep_wf dep \<Longrightarrow> spec_wf (spec_of dep)"
  using services_of_env [of "dp_Services dep" "[]"]
  by (simp add: dep_wf_def spec_wf_def spec_of_def services_of_wf)

lemma gm_range_Nil [simp]: "gm_range \<pi> s [] = []"
  by (simp add: gm_range_def List.map_filter_def)

lemma compiled_spec:
  assumes "Compile client \<pi> (Some (spec_of dep)) h = (Inr g, h')" and "fair_order \<pi>" and "dep_wf dep"
  shows "gm_wf (g_Services g)" and "g_Volumes g = []" and "g_Networks g = []" and "g_Slug g = dp_Slug dep"
    and "\<And>n. rel_option (node_for client (spec_of dep) n) (map_of (services_of (dp_Services dep) []) n)
          (map_of (g_Services g) n)"
    and "\<exists>ks. h' = h @ map KGetSecret ks"
proof -
  have c: "ds_Services (spec_of dep) = services_of (dp_Services dep) []" "ds_Networks (spec_of dep) = []"
    "ds_Volumes (spec_of dep) = []" "ds_Slug (spec_of dep) = dp_Slug dep" by (simp_all add: spec_of_def)
  obtain out where "g = \<lparr>g_DeploymentID = ds_ID (spec_of dep), g_Version = ds_Version (spec_of dep),
      g_Slug = ds_Slug (spec_of dep), g_Services = out,
      g_Networks = gm_build network_node (gm_range \<pi> R_CompileNetworks (ds_Networks (spec_of dep))) [],
      g_Volumes = gm_build volume_node (gm_range \<pi> R_CompileVolumes (ds_Volumes (spec_of dep))) []\<rparr>"
    "gm_wf out"
    "h' = h @ (if client = None then []
       else map KGetSecret (services_refs \<pi> (gm_range \<pi> R_CompileServices (ds_Services (spec_of dep)))))"
    "\<And>n. rel_option (node_for client (spec_of dep) n) (map_of (ds_Services (spec_of dep)) n) (map_of out n)"
    by (rule Compile_Inr [OF assms(1,2) spec_of_wf [OF assms(3)]]) blast
  then show "gm_wf (g_Services g)" and "g_Volumes g = []" and "g_Networks g = []" and "g_Slug g = dp_Slug dep"
    and "\<And>n. rel_option (node_for client (spec_of dep) n) (map_of (services_of (dp_Services dep) []) n)
          (map_of (g_Services g) n)"
    and "\<exists>ks. h' = h @ map KGetSecret ks"
    using map_ident by (auto simp: c intro: exI [of _ "[]"])
qed

lemma failed_compile_calls:
  assumes "Compile client \<pi> (Some spec) h = (Inl e, h')" and "fair_order \<pi>" and "spec_wf spec"
  shows "\<exists>ks. h' = h @ map KGetSecret ks"
proof (cases "ds_ID spec = []")
  case True
  then show ?thesis using assms(1) by (auto simp: Compile_def intro: exI [of _ "[]"])
next
  case False
  have c: "compile_services client \<pi> spec
      (gm_range \<pi> R_CompileServices (ds_Services spec)) [] h = (Inl e, h')"
    using assms(1) False by (auto simp: Compile_def split: prod.splits sum.splits)
  have "\<forall>(name, svc) \<in> set (gm_range \<pi> R_CompileServices (ds_Services spec)). gm_wf (ss_Environment svc)"
    using assms(2,3) by (auto simp: spec_wf_def)
  then obtain k ks where "h' = (h @ map KGetSecret ks) @ [KGetSecret k]"
    using compile_services_Inl [OF c assms(2)] by blast
  then show ?thesis by (intro exI [of _ "ks @ [k]"]) simp
qed

lemma secrets_quiet: "c \<in> set (map KGetSecret ks) \<Longrightarrow> quiet c"
  by (auto simp: quiet_def result_call_def)

text \<open>An apply request either ends before the execution, or runs it between quiet calls.\<close>

lemma run_deployment_cases [consumes 3, case_names early executed]:
  assumes "run_deployment E jobID dep h fs = ((success, msg), h', fs')"
    and "fair_order (en_order E)" and "dep_wf dep"
  obtains cs where "\<not> success" "msg \<noteq> []" "h' = h @ cs" "\<forall>c \<in> set cs. quiet c" "fs' = fs"
  | g h1 c1 c2 h4 res err where
      "Compile (Some (en_kernel E)) (en_order E) (Some (spec_of dep)) h = (Inr g, h1)"
      "Execute (en_docker E) (en_network E) (en_host E) (en_order E) g (h @ c1) fs = ((res, err), h4, fs')"
      "h' = h4 @ c2" "\<forall>c \<in> set (c1 @ c2). quiet c"
      "success \<longleftrightarrow> err = None \<and> er_Status res = ''completed''"
      "msg = (case err of None \<Rightarrow> er_Error res | Some e \<Rightarrow> exec_error_text (en_host E) e)"
proof -
  obtain r h1 where c: "Compile (Some (en_kernel E)) (en_order E) (Some (spec_of dep)) h = (r, h1)" by fastforce
  obtain ks where h1: "h1 = h @ map KGetSecret ks"
  proof (cases r)
    case (Inl e)
    then show ?thesis using that failed_compile_calls c assms(2) spec_of_wf [OF assms(3)] by blast
  next
    case (Inr g)
    then show ?thesis using that compiled_spec(6) c assms(2,3) by blast
  qed
  have ping: "quiet DPing" by (simp add: quiet_def result_call_def)
  show ?thesis
  proof (cases r)
    case (Inl e)
    then show ?thesis using that(1) [of "map KGetSecret ks"] assms(1) c h1 secrets_quiet
      by (auto simp: run_deployment_def Let_def)
  next
    case (Inr g)
    note g = this
    show ?thesis
    proof (cases "d_new_client (en_docker E) h1 = None \<and> d_ping (en_docker E) h1 = None")
      case False
      then show ?thesis
      proof (cases "d_new_client (en_docker E) h1")
        case (Some e)
        then show ?thesis using that(1) [of "map KGetSecret ks"] assms(1) c g h1 secrets_quiet
          by (auto simp: run_deployment_def Let_def)
      next
        case None
        then obtain e where "d_ping (en_docker E) h1 = Some e" using False by auto
        then show ?thesis
          using that(1) [of "map KGetSecret ks @ [DPing]"] assms(1) c g h1 None secrets_quiet ping
          by (auto simp: run_deployment_def Let_def Ping_def)
      qed
    next
      case True
      define stage where "stage = (if list_ex (\<lambda>(n, svc). ss_Build svc \<noteq> None) (ds_Services (spec_of dep))
        then (''building'', versioned ''building image(s) for '' dep)
        else (''pulling'', versioned ''pulling image(s) for '' dep))"
      let ?progress = "emitDeploymentProgress E jobID (dp_ID dep) (dp_Version dep)"
      define h3 where "h3 = ?progress (fst stage) (snd stage) (h1 @ [DPing])"
      obtain p1 where p1: "h3 = (h1 @ [DPing]) @ p1" "\<forall>c \<in> set p1. quiet c"
        unfolding h3_def using progress_quiet by blast
      obtain res err h4 fs1 where x: "Execute (en_docker E) (en_network E) (en_host E) (en_order E) g h3 fs =
          ((res, err), h4, fs1)" by (metis prod.exhaust)
      have run: "((success, msg), h', fs') = (case err of
            Some e \<Rightarrow> ((False, exec_error_text (en_host E) e), h4, fs1)
          | None \<Rightarrow> ((er_Status res = ''completed'', er_Error res),
              ?progress ''deployed'' (versioned ''container(s) running for '' dep)
                (?progress ''starting'' (versioned ''starting container(s) for '' dep) h4), fs1))"
      proof -
        have h3': "h3 = (if list_ex (\<lambda>(n, svc). ss_Build svc \<noteq> None) (ds_Services (spec_of dep))
            then ?progress ''building'' (versioned ''building image(s) for '' dep) (h1 @ [DPing])
            else ?progress ''pulling'' (versioned ''pulling image(s) for '' dep) (h1 @ [DPing]))"
          unfolding h3_def stage_def by (rule if_split [THEN iffD2]) simp
        have "run_deployment E jobID dep h fs = (case Execute (en_docker E) (en_network E) (en_host E)
              (en_order E) g h3 fs of
            ((result, Some e), h4, fs1) \<Rightarrow> ((False, exec_error_text (en_host E) e), h4, fs1)
          | ((result, None), h4, fs1) \<Rightarrow> ((er_Status result = ''completed'', er_Error result),
              ?progress ''deployed'' (versioned ''container(s) running for '' dep)
                (?progress ''starting'' (versioned ''starting container(s) for '' dep) h4), fs1))"
          unfolding run_deployment_def Let_def c g Ping_def prod.case sum.case conjunct1 [OF True]
            conjunct2 [OF True] option.case h3' [symmetric] ..
        then show ?thesis using assms(1) unfolding x prod.case by (cases err) simp_all
      qed
      obtain p2 where "?progress ''starting'' (versioned ''starting container(s) for '' dep) h4 = h4 @ p2"
          "\<forall>c \<in> set p2. quiet c" using progress_quiet by blast
      moreover obtain p3 where "?progress ''deployed'' (versioned ''container(s) running for '' dep) (h4 @ p2) =
          (h4 @ p2) @ p3" "\<forall>c \<in> set p3. quiet c" using progress_quiet by blast
      ultimately have "\<exists>c2. h' = h4 @ c2 \<and> (\<forall>c \<in> set c2. quiet c)"
        using run by (cases err) (auto intro: exI [of _ "[]"] exI [of _ "p2 @ p3"])
      then obtain c2 where c2: "h' = h4 @ c2" "\<forall>c \<in> set c2. quiet c" by blast
      have c1: "h3 = h @ (map KGetSecret ks @ DPing # p1)" "\<forall>c \<in> set (map KGetSecret ks @ DPing # p1). quiet c"
        using p1 h1 secrets_quiet ping by auto
      show ?thesis
        using run c g x c1 c2
        by (intro that(2) [of g h1 "map KGetSecret ks @ DPing # p1" res err h4 c2])
           (auto split: option.splits)
    qed
  qed
qed

lemma volume_binds_Nil [simp]: "volume_binds [] slug mounts = []"
proof (induction mounts)
  case (Cons s mounts)
  then show ?case by (cases rule: SplitN2_cases [of "CHR '':''" s]) simp_all
qed simp

lemma container_binds: "co_Binds (service_container D \<pi> g name svc imageRef) =
    volume_binds (g_Volumes g) (g_Slug g) (sn_VolumeMounts svc)"
  by (simp add: service_container_def split: prod.splits)

text \<open>The calls of the executed case: no result event, no volume and no bind.\<close>

lemma executed_calls:
  assumes "Compile client \<pi> (Some (spec_of dep)) h = (Inr g, h1)" and "fair_order \<pi>" and "dep_wf dep"
    and "Execute D N H \<pi> g h3 fs = ((res, err), h4, fs1)"
  shows "\<exists>cs. h4 = h3 @ cs \<and> (\<forall>c \<in> set cs. \<not> result_call c \<and> (\<nexists>v. c = DVolumeCreate v) \<and>
    (\<forall>cfg. c = DContainerCreate cfg \<longrightarrow> co_Binds cfg = []))"
proof -
  note g = compiled_spec [OF assms(1-3)]
  have v: "gm_wf (g_Volumes g)" by (simp add: g(2))
  obtain cs where cs: "h4 = h3 @ cs" "\<forall>c \<in> set cs.
    (\<exists>(volName, vol) \<in> set (g_Volumes g). c = DVolumeCreate (volume_request g volName vol)) \<or>
    (\<exists>(name, svc) \<in> set (g_Services g). service_call D \<pi> g name svc c)"
    using Execute_calls [OF assms(4,2) g(1) v] by blast
  have "\<not> result_call c \<and> (\<nexists>v. c = DVolumeCreate v) \<and> (\<forall>cfg. c = DContainerCreate cfg \<longrightarrow> co_Binds cfg = [])"
    if "service_call D \<pi> g name svc c" for name svc c
    using that service_call_no_result [OF that]
    by (auto simp: service_call_def container_binds g(2))
  then show ?thesis using cs g(2) by (intro exI [of _ cs]) fastforce
qed

text \<open>
  What the calls \<open>cs\<close> after the history \<open>h\<close> show for a service of a request that is up: its image was
  pulled or built, and its container created and started with the resolved environment, all
  accepted by the daemon.
\<close>

definition service_up ::
    "docker \<Rightarrow> kernel \<Rightarrow> deploymentFromPayload \<Rightarrow> serviceFromPayload \<Rightarrow> history \<Rightarrow> call list \<Rightarrow> bool" where
  "service_up D K dep svc h cs \<longleftrightarrow>
    (\<exists>pre img up post cfg i env. cs = pre @ img @ up @ post \<and>
       co_Name cfg = dp_Slug dep @ ''-'' @ sp_Name svc \<and>
       image_ready D (h @ pre) (dp_Slug dep) (sp_Name svc) (sp_Image svc) (sp_Build svc) (dp_Source dep) img
         (co_Image cfg) \<and>
       container_up D (h @ pre @ img) cfg i up \<and>
       env_resolved K (sp_Environment svc) env \<and> mset (co_Env cfg) = mset (map (\<lambda>(k, v). k @ ''='' @ v) env))"

lemma service_up_append:
  assumes "service_up D K dep svc (h @ a) cs"
  shows "service_up D K dep svc h (a @ cs @ b)"
proof -
  obtain pre img up post cfg i env where cs: "cs = pre @ img @ up @ post"
    and u: "co_Name cfg = dp_Slug dep @ ''-'' @ sp_Name svc" "image_ready D (h @ a @ pre) (dp_Slug dep) (sp_Name svc)
         (sp_Image svc) (sp_Build svc) (dp_Source dep) img (co_Image cfg)"
      "container_up D (h @ a @ pre @ img) cfg i up" "env_resolved K (sp_Environment svc) env"
      "mset (co_Env cfg) = mset (map (\<lambda>(k, v). k @ ''='' @ v) env)"
    using assms unfolding service_up_def append_assoc by blast
  show ?thesis
    unfolding service_up_def
    by (rule exI [of _ "a @ pre"], rule exI [of _ img], rule exI [of _ up], rule exI [of _ "post @ b"],
        rule exI [of _ cfg], rule exI [of _ i], rule exI [of _ env])
       (use u in \<open>simp add: cs\<close>)
qed

lemma find_service: "svc \<in> set svcs \<Longrightarrow>
    \<exists>last. List.find (\<lambda>s. sp_Name s = sp_Name svc) (rev svcs) = Some last \<and> sp_Name last = sp_Name svc"
  by (cases "List.find (\<lambda>s. sp_Name s = sp_Name svc) (rev svcs)")
     (auto simp: find_None_iff find_Some_iff)

lemma executed_up:
  assumes "Compile (Some K) \<pi> (Some (spec_of dep)) h = (Inr g, h1)" and "fair_order \<pi>" and "dep_wf dep"
    and "Execute D N H \<pi> g h3 fs = ((res, None), h4, fs1)"
    and "List.find (\<lambda>s. sp_Name s = sp_Name svc) (rev (dp_Services dep)) = Some svc"
  shows "\<exists>cs. h4 = h3 @ cs \<and> service_up D K dep svc h3 cs"
proof -
  note g = compiled_spec [OF assms(1-3)]
  have "map_of (services_of (dp_Services dep) []) (sp_Name svc) = Some (service_of svc)"
    by (simp add: map_of_services_of assms(5))
  then obtain node where n: "map_of (g_Services g) (sp_Name svc) = Some node"
      "node_for (Some K) (spec_of dep) (sp_Name svc) (service_of svc) node"
    using g(5) [of "sp_Name svc"] by (cases "map_of (g_Services g) (sp_Name svc)") auto
  have f: "gm_wf (sn_Environment node)" "sn_Build node = sp_Build svc" "sn_Image node = sp_Image svc"
    "sn_Source node = dp_Source dep" "env_resolved K (sp_Environment svc) (sn_Environment node)"
    using n(2) by (simp_all add: node_for_def service_of_def spec_of_def)
  obtain pre img up post cfg i where u: "h4 = h3 @ pre @ img @ up @ post" "co_Name cfg = g_Slug g @ ''-'' @ sp_Name svc"
      "image_ready D (h3 @ pre) (g_Slug g) (sp_Name svc) (sn_Image node) (sn_Build node) (sn_Source node) img (co_Image cfg)"
      "container_up D (h3 @ pre @ img) cfg i up"
      "mset (co_Env cfg) = mset (map (\<lambda>(k, v). k @ ''='' @ v) (sn_Environment node))"
    using executed_service [OF assms(4,2) g(1) map_of_SomeD [OF n(1)] f(1)] by blast
  show ?thesis
    by (rule exI, rule conjI [OF u(1)], unfold service_up_def,
        rule exI [of _ pre], rule exI [of _ img], rule exI [of _ up], rule exI [of _ post], rule exI [of _ cfg],
        rule exI [of _ i], rule exI [of _ "sn_Environment node"])
       (use u(2-5) f(5) in \<open>simp add: g(4) f(2-4)\<close>)
qed

lemma executed_status:
  "Execute D N H \<pi> g h fs = ((res, None), h', fs') \<Longrightarrow> er_Status res = ''completed'' \<and> er_Error res = []"
  by (erule Execute_cases) simp_all

lemma executed_networks:
  assumes "Compile client \<pi> (Some (spec_of dep)) h = (Inr g, h1)" and "fair_order \<pi>" and "dep_wf dep"
    and "List.find (\<lambda>s. sp_Name s = sp_Name svc) (rev (dp_Services dep)) = Some svc" and "sp_Networks svc \<noteq> []"
    and "Execute D N H \<pi> g h3 fs = ((res, err), h4, fs1)"
  shows "h4 = h3 \<and> fs1 = fs \<and> err \<noteq> None"
proof -
  note g = compiled_spec [OF assms(1-3)]
  have "map_of (services_of (dp_Services dep) []) (sp_Name svc) = Some (service_of svc)"
    by (simp add: map_of_services_of assms(4))
  then obtain node where n: "map_of (g_Services g) (sp_Name svc) = Some node"
      "node_for client (spec_of dep) (sp_Name svc) (service_of svc) node"
    using g(5) [of "sp_Name svc"] by (cases "map_of (g_Services g) (sp_Name svc)") auto
  have "sn_Networks node = sp_Networks svc"
    using n(2) by (auto simp: node_for_def service_node_def service_of_def)
  then have "\<not> service_ok (g_Networks g) node" using assms(5) g(3) by (cases "sp_Networks svc") (auto simp: service_ok_def)
  then have "\<not> graph_ok g" using n(1) by (auto simp: graph_ok_def dest!: map_of_SomeD)
  then obtain e where "Validate_graph \<pi> g = Some e" using Validate_graph_None [OF assms(2) g(1)] by blast
  then show ?thesis using assms(6) by (auto simp: Execute_def)
qed

section \<open>Properties of the apply handler\<close>

text \<open>
  The calls of the first \<open>n\<close> attempts to send a result: a pause before each but the first, and the
  request itself unless the payload format of the kernel cannot represent it.
\<close>

definition result_attempts :: "kernel \<Rightarrow> emit_request \<Rightarrow> nat \<Rightarrow> call list" where
  "result_attempts K q n = concat (map (\<lambda>i. backoff_sleep i [] @
     (if k_struct_error K (Payload q) = None then [KEmitEvent q] else [])) [0..<n])"

lemma set_result_attempts: "c \<in> set (result_attempts K q n) \<Longrightarrow> c \<in> range Sleep \<or> c = KEmitEvent q"
  by (auto simp: result_attempts_def backoff_sleep_def split: if_splits)

lemma processDeployment_obtain:
  assumes "processDeployment E payload h fs = (h', fs')" and "en_decode E payload = Inr ep"
  obtains success msg h1 n where
    "run_deployment E (ev_JobID ep) (ev_Deployment ep) h fs = ((success, msg), h1, fs')"
    "0 < n" "n \<le> 5" "h' = h1 @ result_attempts (en_kernel E) (deployment_event ''deployments.result''
       (dp_ID (ev_Deployment ep)) (result_payload (ev_JobID ep) (dp_ID (ev_Deployment ep))
         (dp_Version (ev_Deployment ep)) success msg [])) n"
proof -
  obtain success msg h1 fs1 where r: "run_deployment E (ev_JobID ep) (ev_Deployment ep) h fs =
      ((success, msg), h1, fs1)" by (metis prod.exhaust)
  let ?p = "result_payload (ev_JobID ep) (dp_ID (ev_Deployment ep)) (dp_Version (ev_Deployment ep)) success msg []"
  have "h' = snd (retry_from (EmitDeploymentEvent (en_kernel E) ''deployments.result'' (dp_ID (ev_Deployment ep)) ?p) 5 0 h1)"
    and "fs' = fs1"
    using assms(1,2) r by (simp_all add: processDeployment_def emitDeploymentResult_def)
  then show ?thesis
    using retry_calls [of 5 "en_kernel E" "''deployments.result''" "dp_ID (ev_Deployment ep)" ?p 0 h1] that r
    by (auto simp: result_attempts_def deployment_event_def)
qed

definition web_payload :: deploymentFromPayload where
  "web_payload =
     \<lparr>dp_ID = ''d1'', dp_Name = ''Shop'', dp_Slug = ''shop'', dp_Version = 2, dp_Source = None,
      dp_Services = [\<lparr>sp_Name = ''web'', sp_Image = ''nginx'', sp_Build = None, sp_Environment = [],
        sp_Ports = [], sp_Volumes = [''data:/data''], sp_Networks = [], sp_Expose = None\<rparr>],
      dp_Networks = [\<lparr>np_Name = ''front'', np_Driver = ''bridge''\<rparr>],
      dp_Volumes = [\<lparr>vp_Name = ''data'', vp_Path = ''/data''\<rparr>]\<rparr>"

definition front_payload :: deploymentFromPayload where
  "front_payload = web_payload\<lparr>dp_Services := [hd (dp_Services web_payload)\<lparr>sp_Networks := [''front'']\<rparr>]\<rparr>"

definition sample_engine :: engine where
  "sample_engine =
     \<lparr>en_kernel = sample_kernel, en_docker = sample_docker, en_network = sample_network,
      en_host = sample_host, en_order = stored_order, en_quote = \<lambda>s. s, en_now = \<lambda>h. ''now'',
      en_decode = \<lambda>s. if s = ''web'' then Inr \<lparr>ev_JobID = ''j1'', ev_Deployment = web_payload\<rparr>
        else if s = ''front'' then Inr \<lparr>ev_JobID = ''j2'', ev_Deployment = front_payload\<rparr>
        else Inl ''syntax'',
      en_decode_delete = \<lambda>s. Inl ''syntax''\<rparr>"

lemma sample_engine_facts:
  "fair_order (en_order sample_engine)" "k_struct_error (en_kernel sample_engine) p = None"
  "dep_wf web_payload" "dep_wf front_payload"
  by (simp_all add: sample_engine_def sample_kernel_def dep_wf_def web_payload_def front_payload_def)

text \<open>What holds of the calls \<open>pre\<close> before the result, made after \<open>h\<close>, given the result.\<close>

definition reported :: "engine \<Rightarrow> deploymentFromPayload \<Rightarrow> bool \<Rightarrow> string \<Rightarrow> history \<Rightarrow> call list \<Rightarrow> bool" where
  "reported E dep success msg h pre \<longleftrightarrow> (\<forall>c \<in> set pre. \<not> result_call c) \<and> (success \<longleftrightarrow> msg = []) \<and>
     (success \<longrightarrow> (\<forall>svc. List.find (\<lambda>s. sp_Name s = sp_Name svc) (rev (dp_Services dep)) = Some svc \<longrightarrow>
        service_up (en_docker E) (en_kernel E) dep svc h pre))"

lemma reported_append: "reported E dep success msg (h @ c1) cs \<Longrightarrow> \<forall>c \<in> set (c1 @ c2). quiet c \<Longrightarrow>
    reported E dep success msg h (c1 @ cs @ c2)"
  unfolding reported_def set_append quiet_def by (blast intro: service_up_append)

lemma run_deployment_reported:
  assumes "run_deployment E jobID dep h fs = ((success, msg), h1, fs')"
    and "fair_order (en_order E)" and "dep_wf dep"
  shows "\<exists>pre. h1 = h @ pre \<and> reported E dep success msg h pre"
  using assms
proof (cases rule: run_deployment_cases)
  case (early cs)
  then show ?thesis by (intro exI [of _ cs]) (auto simp: quiet_def reported_def)
next
  case (executed g k1 c1 c2 h4 res err)
  obtain cs where cs: "h4 = (h @ c1) @ cs" "\<forall>c \<in> set cs. \<not> result_call c"
    using executed_calls [OF executed(1) assms(2,3) executed(2)] by blast
  have "reported E dep success msg (h @ c1) cs"
  proof (cases err)
    case (Some e)
    then have "\<not> success" "msg \<noteq> []" using executed(5,6) exec_error_text_not_Nil by simp_all
    then show ?thesis using cs(2) by (simp add: reported_def)
  next
    case None
    note x = executed(2) [unfolded None]
    have m: success "msg = []" using executed_status [OF x] executed(5,6) None by simp_all
    have "service_up (en_docker E) (en_kernel E) dep svc (h @ c1) cs"
      if "List.find (\<lambda>s. sp_Name s = sp_Name svc) (rev (dp_Services dep)) = Some svc" for svc
      using executed_up [OF executed(1) assms(2,3) x that] unfolding cs(1) same_append_eq by blast
    then show ?thesis using cs(2) m unfolding reported_def by blast
  qed
  then have "reported E dep success msg h (c1 @ cs @ c2)" using executed(4) by (rule reported_append)
  then show ?thesis using cs(1) executed(3) by (intro exI [of _ "c1 @ cs @ c2"]) simp
qed

text \<open>
  C2. What the handler of an apply request that decodes ends with: after all its other calls,
  among which there is no result, it tries one to five times to send one result. If the payload
  format of the kernel can represent it, every attempt sends it; if not (an error message that
  is not UTF-8), none does. The result says success exactly when it has no error message,
  and then for every service of the request the calls have a container of its name that the
  daemon created, started under the ID it gave it, and did not report as ended.
\<close>
theorem apply_reports:
  assumes "processDeployment E payload h fs = (h', fs')" and "en_decode E payload = Inr ep"
    and "dep = ev_Deployment ep" and "dep_wf dep" and "fair_order (en_order E)"
  shows "\<exists>success msg pre n result. 0 < n \<and> n \<le> 5 \<and>
    result = deployment_event ''deployments.result'' (dp_ID dep)
      (result_payload (ev_JobID ep) (dp_ID dep) (dp_Version dep) success msg []) \<and>
    h' = h @ pre @ concat (map (\<lambda>i. backoff_sleep i [] @
      (if k_struct_error (en_kernel E) (Payload result) = None then [KEmitEvent result] else [])) [0..<n]) \<and>
    (\<forall>q. KEmitEvent q \<in> set pre \<longrightarrow> EventType q \<noteq> ''deployments.result'') \<and> (success \<longleftrightarrow> msg = []) \<and>
    (success \<longrightarrow> (\<forall>svc \<in> set (dp_Services dep). \<exists>before up after cfg i. pre = before @ up @ after \<and>
       container_up (en_docker E) (h @ before) cfg i up \<and> co_Name cfg = dp_Slug dep @ ''-'' @ sp_Name svc))"
proof -
  obtain success msg h1 n where r: "run_deployment E (ev_JobID ep) dep h fs = ((success, msg), h1, fs')"
    and n: "0 < n" "n \<le> 5" "h' = h1 @ result_attempts (en_kernel E) (deployment_event
       ''deployments.result'' (dp_ID dep) (result_payload (ev_JobID ep) (dp_ID dep) (dp_Version dep)
         success msg [])) n"
    using assms(1,2) unfolding assms(3) by (rule processDeployment_obtain) blast
  obtain pre where p: "h1 = h @ pre" "reported E dep success msg h pre"
    using run_deployment_reported [OF r assms(5,4)] by blast
  have "\<forall>q. KEmitEvent q \<in> set pre \<longrightarrow> EventType q \<noteq> ''deployments.result''" "success \<longleftrightarrow> msg = []"
    using p(2) unfolding reported_def result_call_def by blast+
  moreover have "\<exists>before up after cfg i. pre = before @ up @ after \<and>
      container_up (en_docker E) (h @ before) cfg i up \<and> co_Name cfg = dp_Slug dep @ ''-'' @ sp_Name svc"
    if ok: "success" and svc: "svc \<in> set (dp_Services dep)" for svc
  proof -
    obtain s where s: "List.find (\<lambda>x. sp_Name x = sp_Name svc) (rev (dp_Services dep)) = Some s"
        "sp_Name s = sp_Name svc" using find_service [OF svc] by blast
    then have "service_up (en_docker E) (en_kernel E) dep s h pre"
      using p(2) ok unfolding reported_def by simp
    then obtain a img up post cfg i where "pre = (a @ img) @ up @ post" "co_Name cfg = dp_Slug dep @ ''-'' @ sp_Name svc"
        "container_up (en_docker E) (h @ a @ img) cfg i up"
      unfolding service_up_def s(2) by auto
    then show ?thesis by blast
  qed
  ultimately show ?thesis
    using n p(1) unfolding result_attempts_def
    by (intro exI [of _ success] exI [of _ msg] exI [of _ pre] exI [of _ n]) simp
qed

theorem result_retries_witness:
  "\<exists>n. 0 < n \<and> n \<le> 5 \<and> snd (emitDeploymentResult sample_engine ''j1'' ''d1'' 2 True [] [] []) =
    [] @ concat (map (\<lambda>i. backoff_sleep i [] @ [KEmitEvent (deployment_event ''deployments.result'' ''d1''
      (result_payload ''j1'' ''d1'' 2 True [] []))]) [0..<n])"
proof -
  note r = result_retries [OF prod.collapse [symmetric] refl refl,
    of sample_engine "''d1''" "''j1''" 2 True "[]" "[]" "[]"]
  have "\<not> k_struct_error (en_kernel sample_engine) (Payload (deployment_event ''deployments.result'' ''d1''
      (result_payload ''j1'' ''d1'' 2 True [] []))) \<noteq> None"
    using sample_engine_facts(2) by simp
  from r [unfolded if_not_P [OF this]] show ?thesis by blast
qed

lemma sample_decodes:
  "en_decode sample_engine ''web'' = Inr \<lparr>ev_JobID = ''j1'', ev_Deployment = web_payload\<rparr>"
  "en_decode sample_engine ''front'' = Inr \<lparr>ev_JobID = ''j2'', ev_Deployment = front_payload\<rparr>"
  by (simp_all add: sample_engine_def)

theorem apply_reports_witness:
  "\<exists>success msg pre n result. 0 < n \<and> n \<le> 5 \<and>
    result = deployment_event ''deployments.result'' (dp_ID web_payload)
      (result_payload (ev_JobID \<lparr>ev_JobID = ''j1'', ev_Deployment = web_payload\<rparr>) (dp_ID web_payload) (dp_Version web_payload) success msg []) \<and>
    fst (processDeployment sample_engine ''web'' [] sample_fs) = [] @ pre @ concat (map (\<lambda>i. backoff_sleep i [] @
      (if k_struct_error (en_kernel sample_engine) (Payload result) = None then [KEmitEvent result] else [])) [0..<n])"
proof -
  have "web_payload = ev_Deployment \<lparr>ev_JobID = ''j1'', ev_Deployment = web_payload\<rparr>" by simp
  from apply_reports [where h = "[]" and fs = sample_fs,
      OF prod.collapse [symmetric] sample_decodes(1) this sample_engine_facts(3,1)]
  show ?thesis by (elim exE conjE, intro exI conjI) assumption+
qed

text \<open>
  C28. A request with a service on a network always fails, even if it declares that network: the
  handler does not pass the declared networks on, so the graph check rejects the graph. No
  container is created and every result that is sent for the request reports a failure.
\<close>
theorem apply_drops_networks:
  assumes "processDeployment E payload h fs = (h @ cs, fs')" and "en_decode E payload = Inr ep"
    and "dep = ev_Deployment ep" and "dep_wf dep" and "fair_order (en_order E)"
    and "List.find (\<lambda>s. sp_Name s = sp_Name svc) (rev (dp_Services dep)) = Some svc" and "sp_Networks svc \<noteq> []"
  shows "(\<forall>cfg. DContainerCreate cfg \<notin> set cs) \<and>
    (\<forall>q. KEmitEvent q \<in> set cs \<and> EventType q = ''deployments.result'' \<longrightarrow>
       map_of (Payload q) ''success'' = Some (VBool False))"
proof -
  obtain success msg h1 n where r: "run_deployment E (ev_JobID ep) dep h fs = ((success, msg), h1, fs')"
    and n: "h @ cs = h1 @ result_attempts (en_kernel E) (deployment_event ''deployments.result''
       (dp_ID dep) (result_payload (ev_JobID ep) (dp_ID dep) (dp_Version dep) success msg [])) n"
    using assms(1,2) unfolding assms(3) by (rule processDeployment_obtain) blast
  have "\<not> success \<and> (\<exists>pre. h1 = h @ pre \<and> (\<forall>c \<in> set pre. quiet c))"
    using r assms(5,4)
  proof (cases rule: run_deployment_cases)
    case (executed g k1 c1 c2 h4 res err)
    have "h4 = h @ c1" "err \<noteq> None"
      using executed_networks [OF executed(1) assms(5,4,6,7) executed(2)] by simp_all
    then show ?thesis using executed(3,4,5) by (auto intro: exI [of _ "c1 @ c2"])
  qed blast
  then obtain pre where p: "\<not> success" "h1 = h @ pre" "\<forall>c \<in> set pre. quiet c" by blast
  let ?q = "deployment_event ''deployments.result'' (dp_ID dep)
      (result_payload (ev_JobID ep) (dp_ID dep) (dp_Version dep) success msg [])"
  have "quiet c \<or> c = KEmitEvent ?q" if "c \<in> set cs" for c
    using that n p(2,3) set_result_attempts [of c "en_kernel E" ?q n] by (auto simp: quiet_def result_call_def)
  then show ?thesis using p(1)
    by (fastforce simp: quiet_def result_call_def deployment_event_def result_payload_def)
qed

theorem apply_drops_networks_witness:
  "(\<nexists>cfg. DContainerCreate cfg \<in> set (fst (processDeployment sample_engine ''front'' [] sample_fs))) \<and>
   dp_Networks front_payload \<noteq> []"
proof -
  have "processDeployment sample_engine ''front'' [] sample_fs =
      ([] @ fst (processDeployment sample_engine ''front'' [] sample_fs),
       snd (processDeployment sample_engine ''front'' [] sample_fs))" by simp
  note * = apply_drops_networks [OF this sample_decodes(2) _ sample_engine_facts(4,1)]
  have "List.find (\<lambda>s. sp_Name s = sp_Name (hd (dp_Services front_payload))) (rev (dp_Services front_payload)) =
      Some (hd (dp_Services front_payload))" "sp_Networks (hd (dp_Services front_payload)) \<noteq> []"
    by (simp_all add: front_payload_def web_payload_def)
  from * [OF _ this] show ?thesis by (simp add: front_payload_def web_payload_def)
qed

text \<open>
  The volumes of a request are lost as well: no volume is created for it, and every container
  created for it has no mounts, also when the request declares the volumes its services mount.
\<close>
theorem apply_drops_volumes:
  assumes "processDeployment E payload h fs = (h @ cs, fs')" and "en_decode E payload = Inr ep"
    and "dep_wf (ev_Deployment ep)" and "fair_order (en_order E)"
  shows "(\<forall>v. DVolumeCreate v \<notin> set cs) \<and> (\<forall>cfg. DContainerCreate cfg \<in> set cs \<longrightarrow> co_Binds cfg = [])"
proof -
  obtain success msg h1 n where r: "run_deployment E (ev_JobID ep) (ev_Deployment ep) h fs = ((success, msg), h1, fs')"
    and n: "h @ cs = h1 @ result_attempts (en_kernel E) (deployment_event
       ''deployments.result'' (dp_ID (ev_Deployment ep)) (result_payload (ev_JobID ep) (dp_ID (ev_Deployment ep))
         (dp_Version (ev_Deployment ep)) success msg [])) n"
    using assms(1,2) by (rule processDeployment_obtain) blast
  have "\<exists>pre. h1 = h @ pre \<and> (\<forall>c \<in> set pre. (\<nexists>v. c = DVolumeCreate v) \<and>
      (\<forall>cfg. c = DContainerCreate cfg \<longrightarrow> co_Binds cfg = []))"
    using r assms(4,3)
  proof (cases rule: run_deployment_cases)
    case (early cs)
    then show ?thesis by (intro exI [of _ cs]) (auto simp: quiet_def)
  next
    case (executed g k1 c1 c2 h4 res err)
    obtain xs where "h4 = (h @ c1) @ xs" "\<forall>c \<in> set xs. \<not> result_call c \<and> (\<nexists>v. c = DVolumeCreate v) \<and>
        (\<forall>cfg. c = DContainerCreate cfg \<longrightarrow> co_Binds cfg = [])"
      using executed_calls [OF executed(1) assms(4,3) executed(2)] by blast
    then show ?thesis using executed(3,4)
      by (intro exI [of _ "c1 @ xs @ c2"]) (auto simp: quiet_def)
  qed
  then obtain pre where "h1 = h @ pre" "\<forall>c \<in> set pre. (\<nexists>v. c = DVolumeCreate v) \<and>
      (\<forall>cfg. c = DContainerCreate cfg \<longrightarrow> co_Binds cfg = [])" by blast
  then show ?thesis using n by (auto dest!: set_result_attempts)
qed

theorem apply_drops_volumes_witness:
  "(\<nexists>v. DVolumeCreate v \<in> set (fst (processDeployment sample_engine ''web'' [] sample_fs))) \<and>
   dp_Volumes web_payload \<noteq> []"
proof -
  have "processDeployment sample_engine ''web'' [] sample_fs =
      ([] @ fst (processDeployment sample_engine ''web'' [] sample_fs),
       snd (processDeployment sample_engine ''web'' [] sample_fs))" by simp
  from apply_drops_volumes [OF this sample_decodes(1) _ sample_engine_facts(1)] sample_engine_facts(3)
  show ?thesis by (simp add: web_payload_def)
qed

section \<open>Properties of the subscription loop\<close>

text \<open>The events the loop has received, by the positions of the receive calls in its history.\<close>

fun received :: "(history \<Rightarrow> string + event) \<Rightarrow> history \<Rightarrow> history \<Rightarrow> event list" where
  "received recv before [] = []"
| "received recv before (c # cs) =
     (if c = KRecv then case_sum (\<lambda>e. []) (\<lambda>ev. [ev]) (recv before) else []) @
     received recv (before @ [c]) cs"

lemma received_append:
  "received recv b (cs @ ds) = received recv b cs @ received recv (b @ cs) ds"
  by (induction cs arbitrary: b) simp_all

inductive_cases loop_stepE: "loop_step K recv marshal s s'"

lemma subscribe_calls: "SubscribeDeploymentEvents K h = (r, h') \<Longrightarrow>
    h' = h @ [KSubscribeLocal subscribed_events 100]"
  by (auto simp: SubscribeDeploymentEvents_def Let_def split: option.splits)

text \<open>What a spawned handler must be, for the event it was spawned for.\<close>

definition handles :: "(payload \<Rightarrow> string + string) \<Rightarrow> event \<Rightarrow> handler \<Rightarrow> bool" where
  "handles marshal ev task \<longleftrightarrow> (case task of
     HandleApply bytes \<Rightarrow> ev_EventType ev = ''deployments.apply.server.request'' \<and> marshal (ev_Payload ev) = Inr bytes
   | HandleDelete bytes \<Rightarrow> ev_EventType ev = ''deployments.delete.server.request'' \<and> marshal (ev_Payload ev) = Inr bytes)"

definition is_request :: "(payload \<Rightarrow> string + string) \<Rightarrow> event \<Rightarrow> bool" where
  "is_request marshal ev \<longleftrightarrow> (\<exists>bytes. marshal (ev_Payload ev) = Inr bytes) \<and>
     ev_EventType ev \<in> {''deployments.apply.server.request'', ''deployments.delete.server.request''}"

lemma dispatch_handles: "list_all2 (handles marshal) (filter (is_request marshal) [ev]) (dispatch marshal ev)"
  by (auto simp: dispatch_def is_request_def handles_def split: sum.splits)

lemma length_dispatch: "length (dispatch marshal ev) \<le> 1"
  by (simp add: dispatch_def split: sum.splits)

text \<open>
  C15. The loop loses, repeats, reorders and confuses nothing: in every state it can reach, all
  events it has received but the one it may be looking at have been dealt with, in order; the
  spawned handlers match, one to one, those of these events that are apply or delete requests with a
  payload that can be encoded: an apply request has an apply handler and a delete request a delete
  handler, each with the encoding of its own payload. No other event has a handler.
\<close>
theorem loop_dispatches:
  assumes "(loop_step K recv marshal)\<^sup>*\<^sup>* loop_init s"
  shows "\<exists>handled. received recv [] (lp_calls s) = handled @ (case lp_point s of Handling ev \<Rightarrow> [ev] | _ \<Rightarrow> []) \<and>
    list_all2 (\<lambda>ev task. case task of
        HandleApply bytes \<Rightarrow> ev_EventType ev = ''deployments.apply.server.request'' \<and> marshal (ev_Payload ev) = Inr bytes
      | HandleDelete bytes \<Rightarrow> ev_EventType ev = ''deployments.delete.server.request'' \<and> marshal (ev_Payload ev) = Inr bytes)
      (filter (\<lambda>ev. (\<exists>bytes. marshal (ev_Payload ev) = Inr bytes) \<and>
         ev_EventType ev \<in> {''deployments.apply.server.request'', ''deployments.delete.server.request''}) handled)
      (lp_spawned s)"
proof -
  have "\<exists>handled. received recv [] (lp_calls s) = handled @ (case lp_point s of Handling ev \<Rightarrow> [ev] | _ \<Rightarrow> []) \<and>
      list_all2 (handles marshal) (filter (is_request marshal) handled) (lp_spawned s)"
    using assms
  proof (induction rule: rtranclp_induct)
    case base
    show ?case by (simp add: loop_init_def)
  next
    case (step s s')
    then obtain handled where IH: "received recv [] (lp_calls s) = handled @ (case lp_point s of Handling ev \<Rightarrow> [ev] | _ \<Rightarrow> [])"
      "list_all2 (handles marshal) (filter (is_request marshal) handled) (lp_spawned s)" by blast
    from step.hyps(2) show ?case
    proof (cases rule: loop_step.cases)
      case (handle ev)
      then show ?thesis using IH list_all2_appendI [OF IH(2) dispatch_handles [of marshal ev]]
        by (intro exI [of _ "handled @ [ev]"]) simp
    qed (use IH in \<open>auto dest!: subscribe_calls simp: received_append\<close>)
  qed
  then show ?thesis unfolding handles_def is_request_def .
qed

definition one_request :: "history \<Rightarrow> string + event" where
  "one_request h = (if KRecv \<in> set h then Inl ''EOF''
     else Inr \<lparr>ev_EventType = ''deployments.apply.server.request'', ev_Payload = []\<rparr>)"

lemma one_request_run:
  "(loop_step sample_kernel one_request (\<lambda>p. Inr ''web''))\<^sup>*\<^sup>* loop_init
     \<lparr>lp_point = Inner, lp_calls = [KSubscribeLocal subscribed_events 100, KRecv],
      lp_spawned = [HandleApply ''web''], lp_stopped = False\<rparr>"
proof -
  let ?step = "loop_step sample_kernel one_request (\<lambda>p. Inr ''web'')"
  let ?ev = "\<lparr>ev_EventType = ''deployments.apply.server.request'', ev_Payload = []\<rparr>"
  let ?s = "\<lambda>p cs. \<lparr>lp_point = p, lp_calls = cs, lp_spawned = [], lp_stopped = False\<rparr>"
  let ?sub = "[KSubscribeLocal subscribed_events 100]"
  have "?step loop_init (?s Subscribing [])"
    using loop_step.outer_default [of loop_init] by (simp add: loop_init_def)
  moreover have "?step (?s Subscribing []) (?s Inner ?sub)"
    using loop_step.subscribed [of "?s Subscribing []" sample_kernel ?sub] by (simp add: sample_kernel_simps Let_def)
  moreover have "?step (?s Inner ?sub) (?s Receiving ?sub)"
    using loop_step.inner_default [of "?s Inner ?sub"] by simp
  moreover have "?step (?s Receiving ?sub) (?s (Handling ?ev) (?sub @ [KRecv]))"
    using loop_step.recv_event [of "?s Receiving ?sub" one_request ?ev] by (simp add: one_request_def)
  moreover have "?step (?s (Handling ?ev) (?sub @ [KRecv])) ((?s Inner (?sub @ [KRecv]))\<lparr>lp_spawned := [HandleApply ''web'']\<rparr>)"
    using loop_step.handle [of "?s (Handling ?ev) (?sub @ [KRecv])" ?ev sample_kernel one_request "\<lambda>p. Inr ''web''"]
    by (simp add: dispatch_def)
  ultimately show ?thesis by (simp add: converse_rtranclp_into_rtranclp)
qed

theorem loop_dispatches_witness:
  "\<exists>handled. received one_request [] [KSubscribeLocal subscribed_events 100, KRecv] = handled \<and> length handled = 1"
  using loop_dispatches [OF one_request_run] by (auto simp: one_request_def)

text \<open>
  C27. Once subscribed, the loop never subscribes again: a receive error does not lead back to the
  outer loop. If the stream stays broken, no further event is ever handled.
\<close>
theorem loop_never_resubscribes:
  assumes "(loop_step K recv marshal)\<^sup>*\<^sup>* s s'" and "lp_point s = Inner"
  shows "lp_point s' \<notin> {Outer, Subscribing} \<and>
    (\<exists>cs. lp_calls s' = lp_calls s @ cs \<and> set cs \<subseteq> {KRecv, Sleep (2 * second)} \<and>
    ((\<forall>ds. \<exists>e. recv (lp_calls s @ ds) = Inl e) \<longrightarrow> lp_spawned s' = lp_spawned s))"
proof -
  have "lp_point s' \<notin> {Outer, Subscribing} \<and>
    (\<exists>cs. lp_calls s' = lp_calls s @ cs \<and> set cs \<subseteq> {KRecv, Sleep (2 * second)} \<and>
    ((\<forall>ds. \<exists>e. recv (lp_calls s @ ds) = Inl e) \<longrightarrow> lp_spawned s' = lp_spawned s \<and> (\<nexists>ev. lp_point s' = Handling ev)))"
    using assms
  proof (induction rule: rtranclp_induct)
    case (step t t')
    then obtain cs where IH: "lp_point t \<notin> {Outer, Subscribing}" "lp_calls t = lp_calls s @ cs"
        "set cs \<subseteq> {KRecv, Sleep (2 * second)}"
        "(\<forall>ds. \<exists>e. recv (lp_calls s @ ds) = Inl e) \<Longrightarrow> lp_spawned t = lp_spawned s \<and> (\<nexists>ev. lp_point t = Handling ev)"
      by blast
    from step.hyps(2) show ?case
    proof (cases rule: loop_step.cases)
      case (recv_error e)
      then show ?thesis using IH by (intro conjI exI [of _ "cs @ [KRecv, Sleep (2 * second)]"]) auto
    next
      case (recv_event ev)
      have "\<not> (\<forall>ds. \<exists>e. recv (lp_calls s @ ds) = Inl e)"
        using recv_event IH(2) by (metis Inl_Inr_False)
      then show ?thesis using IH recv_event by (intro conjI exI [of _ "cs @ [KRecv]"]) auto
    qed (use IH in auto)
  qed auto
  then show ?thesis by blast
qed

theorem loop_never_resubscribes_witness:
  "\<not> (\<exists>s'. (loop_step sample_kernel (\<lambda>h. Inl ''EOF'') (\<lambda>p. Inl []))\<^sup>*\<^sup>*
      \<lparr>lp_point = Inner, lp_calls = [], lp_spawned = [], lp_stopped = False\<rparr> s' \<and>
      (lp_point s' = Outer \<or> KSubscribeLocal subscribed_events 100 \<in> set (lp_calls s') \<or> lp_spawned s' \<noteq> []))"
  using loop_never_resubscribes [where s = "\<lparr>lp_point = Inner, lp_calls = [], lp_spawned = [], lp_stopped = False\<rparr>"
    and K = sample_kernel and recv = "\<lambda>h. Inl ''EOF''" and marshal = "\<lambda>p. Inl []"]
  by fastforce

text \<open>Once the channel is closed, what a program point still allows: steps, calls, handlers.\<close>

fun steps_left :: "loop_point \<Rightarrow> nat" where
  "steps_left Outer = 1" | "steps_left Subscribing = 2" | "steps_left Inner = 1"
| "steps_left Receiving = 3" | "steps_left (Handling ev) = 2" | "steps_left Returned = 0"

fun calls_left :: "loop_point \<Rightarrow> nat" where
  "calls_left Subscribing = 1" | "calls_left Receiving = 1" | "calls_left _ = 0"

fun handlers_left :: "loop_point \<Rightarrow> nat" where
  "handlers_left Receiving = 1" | "handlers_left (Handling ev) = 1" | "handlers_left _ = 0"

definition blocking :: "call \<Rightarrow> bool" where
  "blocking c \<longleftrightarrow> c \<notin> range Sleep"

lemma loop_stopped_step:
  assumes "loop_step K recv marshal s s'" and "lp_stopped s"
  obtains cs hs where "lp_stopped s'" "lp_calls s' = lp_calls s @ cs" "lp_spawned s' = lp_spawned s @ hs"
    "length (filter blocking cs) + calls_left (lp_point s') \<le> calls_left (lp_point s)"
    "length hs + handlers_left (lp_point s') \<le> handlers_left (lp_point s)"
    "s' = s \<or> steps_left (lp_point s') < steps_left (lp_point s)"
    "calls_left (lp_point s) = 0 \<Longrightarrow> cs = []"
  using assms(1)
proof (cases rule: loop_step.cases)
  case (handle ev)
  then show ?thesis using assms(2) length_dispatch [of marshal ev] by (intro that [of "[]" "dispatch marshal ev"]) simp_all
next
  case (subscribe_error e h)
  then show ?thesis using assms(2)
    by (intro that [of "[KSubscribeLocal subscribed_events 100, Sleep (5 * second)]" "[]"])
       (auto dest!: subscribe_calls simp: blocking_def)
next
  case (subscribed h)
  then show ?thesis using assms(2)
    by (intro that [of "[KSubscribeLocal subscribed_events 100]" "[]"]) (auto dest!: subscribe_calls)
next
  case (recv_error e)
  then show ?thesis using assms(2) by (intro that [of "[KRecv, Sleep (2 * second)]" "[]"]) (auto simp: blocking_def)
next
  case (recv_event ev)
  then show ?thesis using assms(2) by (intro that [of "[KRecv]" "[]"]) auto
qed (use assms(2) in \<open>auto intro: that [of "[]" "[]"]\<close>)

lemma loop_stopped_run:
  assumes "(loop_step K recv marshal)\<^sup>*\<^sup>* s s'" and "lp_stopped s"
  obtains cs hs where "lp_stopped s'" "lp_calls s' = lp_calls s @ cs" "lp_spawned s' = lp_spawned s @ hs"
    "length (filter blocking cs) + calls_left (lp_point s') \<le> calls_left (lp_point s)"
    "length hs + handlers_left (lp_point s') \<le> handlers_left (lp_point s)"
    "calls_left (lp_point s) = 0 \<Longrightarrow> cs = []"
  using assms
proof (induction arbitrary: thesis rule: rtranclp_induct)
  case base
  show ?case by (rule base(1) [of "[]" "[]"]) (use base(2) in simp_all)
next
  case (step t t')
  obtain cs hs where 1: "lp_stopped t" "lp_calls t = lp_calls s @ cs" "lp_spawned t = lp_spawned s @ hs"
    "length (filter blocking cs) + calls_left (lp_point t) \<le> calls_left (lp_point s)"
    "length hs + handlers_left (lp_point t) \<le> handlers_left (lp_point s)"
    "calls_left (lp_point s) = 0 \<Longrightarrow> cs = []"
    by (rule step.IH [OF _ step.prems(2)]) (rule that; assumption)
  obtain ds gs where 2: "lp_stopped t'" "lp_calls t' = lp_calls t @ ds" "lp_spawned t' = lp_spawned t @ gs"
    "length (filter blocking ds) + calls_left (lp_point t') \<le> calls_left (lp_point t)"
    "length gs + handlers_left (lp_point t') \<le> handlers_left (lp_point t)"
    "calls_left (lp_point t) = 0 \<Longrightarrow> ds = []"
    by (rule loop_stopped_step [OF step.hyps(2) 1(1)]) (rule that; assumption)
  have "calls_left (lp_point s) = 0 \<Longrightarrow> cs @ ds = []" using 1(4,6) 2(6) by simp
  moreover have "lp_calls t' = lp_calls s @ cs @ ds" "lp_spawned t' = lp_spawned s @ hs @ gs"
    using 1(2,3) 2(2,3) by simp_all
  moreover have "length (filter blocking (cs @ ds)) + calls_left (lp_point t') \<le> calls_left (lp_point s)"
    "length (hs @ gs) + handlers_left (lp_point t') \<le> handlers_left (lp_point s)"
    using 1(4,5) 2(4,5) by simp_all
  ultimately show ?case by (intro step.prems(1) [of "cs @ ds" "hs @ gs"] 2(1))
qed

lemma steps_left_le: "steps_left p \<le> 3"
  by (cases p) simp_all

lemma loop_stopped_steps:
  assumes "((\<lambda>a b. loop_step K recv marshal a b \<and> a \<noteq> b) ^^ n) s t" and "lp_stopped s"
  shows "n + steps_left (lp_point t) \<le> steps_left (lp_point s) \<and> lp_stopped t"
  using assms
proof (induction n arbitrary: t)
  case (Suc n)
  then obtain u where u: "((\<lambda>a b. loop_step K recv marshal a b \<and> a \<noteq> b) ^^ n) s u" "loop_step K recv marshal u t" "u \<noteq> t"
    by auto
  then have IH: "n + steps_left (lp_point u) \<le> steps_left (lp_point s)" "lp_stopped u" using Suc by blast+
  show ?case by (rule loop_stopped_step [OF u(2) IH(2)]) (use IH u(3) in auto)
qed simp

lemma loop_not_stuck:
  assumes "lp_point s \<noteq> Returned"
  shows "\<exists>t. loop_step K recv marshal s t \<and> s \<noteq> t"
proof -
  have "\<exists>t. loop_step K recv marshal s t \<and> lp_point t \<noteq> lp_point s"
  proof (cases "lp_point s")
    case Outer
    then show ?thesis using loop_step.outer_stop [OF Outer, of K recv marshal] loop_step.outer_default [OF Outer, of K recv marshal]
      by (cases "lp_stopped s") fastforce+
  next
    case Subscribing
    obtain r h where r: "SubscribeDeploymentEvents K (lp_calls s) = (r, h)" by fastforce
    show ?thesis
    proof (cases r)
      case None
      then show ?thesis using loop_step.subscribed [OF Subscribing, of K h] r Subscribing by fastforce
    next
      case (Some e)
      then show ?thesis using loop_step.subscribe_error [OF Subscribing, of K e h] r Subscribing by fastforce
    qed
  next
    case Inner
    then show ?thesis using loop_step.inner_stop [OF Inner, of K recv marshal] loop_step.inner_default [OF Inner, of K recv marshal]
      by (cases "lp_stopped s") fastforce+
  next
    case Receiving
    show ?thesis
    proof (cases "recv (lp_calls s)")
      case (Inl e)
      then show ?thesis using loop_step.recv_error [OF Receiving, of recv e] Receiving by fastforce
    next
      case (Inr ev)
      then show ?thesis using loop_step.recv_event [OF Receiving, of recv ev] Receiving by fastforce
    qed
  next
    case (Handling ev)
    then show ?thesis using loop_step.handle [OF Handling] by fastforce
  qed (use assms in simp)
  then show ?thesis by blast
qed

text \<open>
  C40. Once the stop channel is closed, the loop returns after at most three further steps of its
  own, provided a call it is blocked in returns. Until then it makes at most one further call that
  can block, and that only if it was already on its way to it, and it spawns at most one further
  handler, and that only for an event it was receiving or looking at when the channel was closed.
\<close>
theorem loop_stops:
  assumes "(loop_step K recv marshal)\<^sup>*\<^sup>* s s'" and "lp_stopped s"
  shows "(\<exists>cs hs. lp_calls s' = lp_calls s @ cs \<and> lp_spawned s' = lp_spawned s @ hs \<and>
      length (filter (\<lambda>c. c \<notin> range Sleep) cs) \<le> 1 \<and> (cs \<noteq> [] \<longrightarrow> lp_point s \<in> {Subscribing, Receiving}) \<and>
      length hs \<le> 1 \<and> (hs \<noteq> [] \<longrightarrow> lp_point s \<in> {Receiving} \<union> range Handling)) \<and>
    (\<forall>n t. ((\<lambda>a b. loop_step K recv marshal a b \<and> a \<noteq> b) ^^ n) s' t \<longrightarrow> n \<le> 3 \<and>
      (lp_point t = Returned \<or> (\<exists>u. loop_step K recv marshal t u \<and> t \<noteq> u)))"
proof -
  obtain cs hs where 1: "lp_stopped s'" "lp_calls s' = lp_calls s @ cs" "lp_spawned s' = lp_spawned s @ hs"
    "length (filter blocking cs) + calls_left (lp_point s') \<le> calls_left (lp_point s)"
    "length hs + handlers_left (lp_point s') \<le> handlers_left (lp_point s)"
    "calls_left (lp_point s) = 0 \<Longrightarrow> cs = []"
    by (rule loop_stopped_run [OF assms]) (rule that; assumption)
  have le: "calls_left (lp_point s) \<le> 1" "handlers_left (lp_point s) \<le> 1" by (cases "lp_point s"; simp)+
  have cs: "length (filter (\<lambda>c. c \<notin> range Sleep) cs) \<le> 1" "length hs \<le> 1"
    using 1(4,5) le unfolding blocking_def [abs_def] by linarith+
  have "cs \<noteq> [] \<longrightarrow> lp_point s \<in> {Subscribing, Receiving}" using 1(6) by (cases "lp_point s") auto
  moreover have "hs \<noteq> [] \<longrightarrow> lp_point s \<in> {Receiving} \<union> range Handling" using 1(5) by (cases "lp_point s") auto
  moreover have "n \<le> 3" if "((\<lambda>a b. loop_step K recv marshal a b \<and> a \<noteq> b) ^^ n) s' t" for n t
    using loop_stopped_steps [OF that 1(1)] steps_left_le [of "lp_point s'"] by linarith
  ultimately show ?thesis using 1(2,3) cs loop_not_stuck by blast
qed

theorem loop_stops_witness:
  "\<exists>u. loop_step sample_kernel one_request (\<lambda>p. Inr []) \<lparr>lp_point = Receiving, lp_calls = [], lp_spawned = [], lp_stopped = True\<rparr> u \<and>
     \<lparr>lp_point = Receiving, lp_calls = [], lp_spawned = [], lp_stopped = True\<rparr> \<noteq> u"
proof -
  let ?s = "\<lparr>lp_point = Receiving, lp_calls = [], lp_spawned = [], lp_stopped = True\<rparr>"
  have "lp_stopped ?s" by simp
  from loop_stops [OF rtranclp.rtrancl_refl this, THEN conjunct2, rule_format, where n = 0 and t = ?s and
    K = sample_kernel and recv = one_request and marshal = "\<lambda>p. Inr []"]
  show ?thesis by simp
qed

end
