(* ===== verification/Umc_Binaries.thy ===== *)
theory Umc_Binaries
  imports World File_System
begin

text \<open>
  The binaries of managed components (\<open>internal/supervisor/supervisor.go\<close>): the names they may
  have, the search for an executable, and the installation from a URL with its checksum test.
  Home directory, arguments, environment, download and hash are in one record; \<open>url.Parse\<close> is
  modelled for the scheme, and its other syntax checks are a field of the record.
\<close>

section \<open>Environment and errors\<close>

record download =
  dl_StatusCode :: int
  dl_Status :: string
  dl_Body :: string
  dl_BodyError :: "string option" \<comment> \<open>a read error after \<open>dl_Body\<close>\<close>

record umc_host =
  uh_host :: host
  uh_home :: "string + string" \<comment> \<open>\<open>os.UserHomeDir\<close>\<close>
  uh_arg0 :: string
  uh_environ :: "string list"
  uh_url_error :: "string \<Rightarrow> string option" \<comment> \<open>why \<open>url.Parse\<close> rejects a URL\<close>
  uh_get :: "history \<Rightarrow> string \<Rightarrow> string + download"
  uh_sha256 :: "string \<Rightarrow> string" \<comment> \<open>SHA-256 in hexadecimal\<close>
  uh_start :: "history \<Rightarrow> string \<Rightarrow> string list \<Rightarrow> string + int" \<comment> \<open>\<open>cmd.Start\<close>: the process id\<close>
  uh_exits_in_time :: "history \<Rightarrow> int \<Rightarrow> int \<Rightarrow> bool" \<comment> \<open>whether a process ends within a time\<close>
  uh_health :: "history \<Rightarrow> string \<Rightarrow> int \<Rightarrow> string + int" \<comment> \<open>the status of a GET with a timeout\<close>
  uh_monitors_end :: "history \<Rightarrow> bool" \<comment> \<open>whether the monitors end before the shutdown's context\<close>
  uh_now :: "history \<Rightarrow> int" \<comment> \<open>nanoseconds\<close>

fun separate :: "'a \<Rightarrow> 'a list \<Rightarrow> 'a list" where
  "separate x (y # z # ys) = y # x # separate x (z # ys)"
| "separate x ys = ys"

datatype sup_error =
    NameEmpty
  | NameInvalid string
  | NameTooLong
  | PortOutOfRange int
  | AlreadyRunning string int
  | NoExecutable string
  | StartFailed string string
  | UmcNotFound string
  | NotFoundUmc string \<comment> \<open>the same condition with the other wording\<close>
  | UmcNotRunning string
  | NotRunningUmc string
  | StopFailed sup_error
  | ShutdownTimeout
  | ShutdownErrors "sup_error list"
  | InvalidURL string
  | NotHTTPS string
  | NoChecksum
  | NoHome string
  | BinDirFailed os_error
  | DownloadFailed string
  | DownloadStatus string
  | TempFileFailed os_error
  | WriteFailed string
  | CloseFailed string
  | ChecksumMismatch string string
  | ChmodFailed os_error
  | InstallFailed os_error

fun sup_error_text :: "(string \<Rightarrow> string) \<Rightarrow> host \<Rightarrow> sup_error \<Rightarrow> string" where
  "sup_error_text q H NameEmpty = ''UMC name is empty''"
| "sup_error_text q H (NameInvalid n) =
     ''invalid UMC name '' @ q n @ '': must be alphanumeric with optional hyphens''"
| "sup_error_text q H NameTooLong = ''UMC name too long: max 64 characters''"
| "sup_error_text q H (PortOutOfRange p) = ''invalid port '' @ show_int p @ '': must be 1-65535''"
| "sup_error_text q H (AlreadyRunning n pid) =
     ''UMC '' @ n @ '' is already running (PID: '' @ show_int pid @ '')''"
| "sup_error_text q H (NoExecutable n) = ''UMC executable not found for '' @ n"
| "sup_error_text q H (StartFailed n e) = ''failed to start UMC '' @ n @ '': '' @ e"
| "sup_error_text q H (UmcNotFound n) = ''UMC '' @ n @ '' not found''"
| "sup_error_text q H (NotFoundUmc n) = ''UMC not found: '' @ n"
| "sup_error_text q H (UmcNotRunning n) = ''UMC '' @ n @ '' is not running''"
| "sup_error_text q H (NotRunningUmc n) = ''UMC is not running: '' @ n"
| "sup_error_text q H (StopFailed e) = ''failed to stop UMC: '' @ sup_error_text q H e"
| "sup_error_text q H ShutdownTimeout = ''supervisor shutdown timeout''"
| "sup_error_text q H (ShutdownErrors es) =
     ''supervisor shutdown had errors: ['' @ concat (separate '' '' (map (sup_error_text q H) es)) @ '']''"
| "sup_error_text q H (InvalidURL e) = ''invalid artifact URL: '' @ e"
| "sup_error_text q H (NotHTTPS s) = ''artifact URL must use HTTPS (got '' @ q s @ '')''"
| "sup_error_text q H NoChecksum = ''checksum is required for binary installation''"
| "sup_error_text q H (NoHome e) = ''failed to get home directory: '' @ e"
| "sup_error_text q H (BinDirFailed e) = ''failed to create bin directory: '' @ ho_error_text H e"
| "sup_error_text q H (DownloadFailed e) = ''failed to download binary: '' @ e"
| "sup_error_text q H (DownloadStatus s) = ''download failed with status: '' @ s"
| "sup_error_text q H (TempFileFailed e) = ''failed to create temp file: '' @ ho_error_text H e"
| "sup_error_text q H (WriteFailed e) = ''failed to write binary: '' @ e"
| "sup_error_text q H (CloseFailed e) = ''failed to close temp file: '' @ e"
| "sup_error_text q H (ChecksumMismatch expected actual) =
     ''checksum mismatch: expected '' @ expected @ '', got '' @ actual"
| "sup_error_text q H (ChmodFailed e) = ''failed to make binary executable: '' @ ho_error_text H e"
| "sup_error_text q H (InstallFailed e) = ''failed to install binary: '' @ ho_error_text H e"

section \<open>Names\<close>

text \<open>The pattern \<open>^[a-zA-Z0-9][a-zA-Z0-9\-]*$\<close>.\<close>

definition alnum :: "char \<Rightarrow> bool" where
  "alnum c \<longleftrightarrow> byte_in 0x61 0x7A c \<or> byte_in 0x41 0x5A c \<or> byte_in 0x30 0x39 c"

fun validUMCName :: "string \<Rightarrow> bool" where
  "validUMCName [] \<longleftrightarrow> False"
| "validUMCName (c # cs) \<longleftrightarrow> alnum c \<and> list_all (\<lambda>d. alnum d \<or> d = CHR ''-'') cs"

definition validateUMCName :: "string \<Rightarrow> sup_error option" where
  "validateUMCName name =
     (if name = [] then Some NameEmpty
      else if \<not> validUMCName name then Some (NameInvalid name)
      else if length name > 64 then Some NameTooLong
      else None)"

section \<open>Search\<close>

definition search_paths :: "umc_host \<Rightarrow> string \<Rightarrow> string list" where
  "search_paths U umcName =
     (let homeDir = (case uh_home U of Inl e \<Rightarrow> [] | Inr d \<Rightarrow> d);
          exeName = umcName @ ''-serve''
      in [Join [homeDir, ''.underleaf'', ''bin'', exeName],
          Join [''/usr/local/bin'', exeName],
          Join [Dir (uh_arg0 U), ''..'', umcName, ''serve'']])"

fun first_executable :: "host \<Rightarrow> fs \<Rightarrow> string list \<Rightarrow> string" where
  "first_executable H fs [] = []"
| "first_executable H fs (p # ps) =
     (case lstat fs (path_comps H p) of
        Inl e \<Rightarrow> first_executable H fs ps
      | Inr NDir \<Rightarrow> first_executable H fs ps
      | Inr (NLink t) \<Rightarrow> first_executable H fs ps
      | Inr (NFile d m) \<Rightarrow> p)"

definition findExecutable :: "umc_host \<Rightarrow> string \<Rightarrow> fs \<Rightarrow> string" where
  "findExecutable U umcName fs = first_executable (uh_host U) fs (search_paths U umcName)"

section \<open>Installation\<close>

text \<open>The scheme of \<open>url.Parse\<close>: the letters before the first colon, in lower case.\<close>

fun getScheme :: "string \<Rightarrow> string \<Rightarrow> string" where
  "getScheme seen [] = []"
| "getScheme seen (c # cs) =
     (if byte_in 0x61 0x7A c \<or> byte_in 0x41 0x5A c then getScheme (seen @ [c]) cs
      else if byte_in 0x30 0x39 c \<or> c \<in> set ''+-.'' then
        (if seen = [] then [] else getScheme (seen @ [c]) cs)
      else if c = CHR '':'' then seen
      else [])"

definition lower :: "char \<Rightarrow> char" where
  "lower c = (if byte_in 0x41 0x5A c then char_of (of_char c + (32 :: nat)) else c)"

definition url_scheme :: "umc_host \<Rightarrow> string \<Rightarrow> string + string" where
  "url_scheme U rawURL =
     (case uh_url_error U rawURL of
        Some e \<Rightarrow> Inl e
      | None \<Rightarrow> Inr (map lower (getScheme [] (fst (Cut (CHR ''#'') rawURL)))))"

text \<open>
  The copy for a rename across devices. \<open>os_copy\<close> writes to the real path \<open>os_create\<close> returned.
\<close>

definition copyFile :: "host \<Rightarrow> string \<Rightarrow> string \<Rightarrow> fs \<Rightarrow> os_error option \<times> fs" where
  "copyFile H src dst fs =
     (case os_read H (path_comps H src) fs of
        Inl e \<Rightarrow> (Some e, fs)
      | Inr (content, perm) \<Rightarrow>
          (case os_create H (path_comps H dst) 0x1B6 fs of
             (Inl e, fs1) \<Rightarrow> (Some e, fs1)
           | (Inr p, fs1) \<Rightarrow>
               (case os_copy H p content fs1 of
                  ((n, Some e), fs2) \<Rightarrow> (Some (EOther e), fs2)
                | ((n, None), fs2) \<Rightarrow>
                    (case stat fs2 (path_comps H src) of
                       Inl e \<Rightarrow> (Some e, fs2)
                     | Inr (NFile d m) \<Rightarrow> os_chmod H (path_comps H dst) m fs2
                     | Inr n \<Rightarrow> os_chmod H (path_comps H dst) (ho_dir_mode H (path_comps H src) fs2) fs2))))"

text \<open>From the open temporary file to the installed one.\<close>

definition install_from_temp ::
    "umc_host \<Rightarrow> string \<Rightarrow> string \<Rightarrow> string list \<Rightarrow> download \<Rightarrow> string \<Rightarrow> fs \<Rightarrow> sup_error option \<times> fs" where
  "install_from_temp U targetPath tempPath p resp checksum fs =
     (let H = uh_host U; temp = path_comps H tempPath; target = path_comps H targetPath
      in case os_copy H p (dl_Body resp) fs of
           ((n, Some e), fs1) \<Rightarrow> (Some (WriteFailed e), fs1)
         | ((n, None), fs1) \<Rightarrow>
             (case dl_BodyError resp of
                Some e \<Rightarrow> (Some (WriteFailed e), fs1)
              | None \<Rightarrow>
                  (case ho_fault H (SysClose temp) fs1 of
                     Some e \<Rightarrow> (Some (CloseFailed e), fs1)
                   | None \<Rightarrow>
                       if uh_sha256 U (dl_Body resp) \<noteq> checksum
                       then (Some (ChecksumMismatch checksum (uh_sha256 U (dl_Body resp))), fs1)
                       else
                         (case os_chmod H temp 0x1ED fs1 of
                            (Some e, fs2) \<Rightarrow> (Some (ChmodFailed e), fs2)
                          | (None, fs2) \<Rightarrow>
                              (case os_rename H temp target fs2 of
                                 (None, fs3) \<Rightarrow> (None, fs3)
                               | (Some e, fs3) \<Rightarrow>
                                   if IsPermission e \<or> e = EEXIST then (Some (InstallFailed e), fs3)
                                   else
                                     (case copyFile H tempPath targetPath fs3 of
                                        (Some e, fs4) \<Rightarrow> (Some (InstallFailed e), fs4)
                                      | (None, fs4) \<Rightarrow> (None, fs4)))))))"

definition install_download ::
    "umc_host \<Rightarrow> string \<Rightarrow> string \<Rightarrow> download \<Rightarrow> string \<Rightarrow> fs \<Rightarrow> sup_error option \<times> fs" where
  "install_download U targetPath tempPath resp checksum fs =
     (case os_create (uh_host U) (path_comps (uh_host U) tempPath) 0x1B6 fs of
        (Inl e, fs1) \<Rightarrow> (Some (TempFileFailed e), fs1)
      | (Inr p, fs1) \<Rightarrow>
          (case install_from_temp U targetPath tempPath p resp checksum fs1 of
             (r, fs2) \<Rightarrow> (r, os_remove (uh_host U) (path_comps (uh_host U) tempPath) fs2)))"

definition bin_dir :: "string \<Rightarrow> string" where
  "bin_dir homeDir = Join [homeDir, ''.underleaf'', ''bin'']"

definition target_path :: "string \<Rightarrow> string \<Rightarrow> string" where
  "target_path homeDir umcName = Join [bin_dir homeDir, umcName @ ''-serve'']"

definition InstallUMC ::
    "umc_host \<Rightarrow> string \<Rightarrow> string \<Rightarrow> string \<Rightarrow> history \<Rightarrow> fs \<Rightarrow> sup_error option \<times> history \<times> fs" where
  "InstallUMC U umcName artifactURL checksum h fs =
     (case validateUMCName umcName of
        Some e \<Rightarrow> (Some e, h, fs)
      | None \<Rightarrow>
          (case url_scheme U artifactURL of
             Inl e \<Rightarrow> (Some (InvalidURL e), h, fs)
           | Inr scheme \<Rightarrow>
               if scheme \<noteq> ''https'' then (Some (NotHTTPS scheme), h, fs)
               else if checksum = [] then (Some NoChecksum, h, fs)
               else
                 (case uh_home U of
                    Inl e \<Rightarrow> (Some (NoHome e), h, fs)
                  | Inr homeDir \<Rightarrow>
                      (case os_mkdir_all (uh_host U) (path_comps (uh_host U) (bin_dir homeDir)) fs of
                         (Some e, fs1) \<Rightarrow> (Some (BinDirFailed e), h, fs1)
                       | (None, fs1) \<Rightarrow>
                           (let h1 = h @ [HttpGet artifactURL []];
                                targetPath = target_path homeDir umcName
                            in case uh_get U h artifactURL of
                                 Inl e \<Rightarrow> (Some (DownloadFailed e), h1, fs1)
                               | Inr resp \<Rightarrow>
                                   if dl_StatusCode resp \<noteq> 200
                                   then (Some (DownloadStatus (dl_Status resp)), h1, fs1)
                                   else
                                     (case install_download U targetPath (targetPath @ ''.tmp'')
                                             resp checksum fs1 of
                                        (r, fs2) \<Rightarrow> (r, h1, fs2)))))))"

section \<open>Names and paths\<close>

lemma alnum_plain: "alnum c \<Longrightarrow> c \<noteq> CHR ''/'' \<and> c \<noteq> CHR ''.''"
  by (auto simp: alnum_def byte_in_def)

text \<open>A valid name, with what the program appends to it, is one plain path component.\<close>

lemma valid_name_plain:
  assumes "validateUMCName name = None" and "CHR ''/'' \<notin> set t"
  shows "plain (name @ t)" "length name \<le> 64"
proof -
  from assms(1) have v: "validUMCName name" "length name \<le> 64"
    by (auto simp: validateUMCName_def split: if_splits)
  then obtain c cs where c: "name = c # cs" "alnum c" "list_all (\<lambda>d. alnum d \<or> d = CHR ''-'') cs"
    by (cases name) auto
  have "CHR ''/'' \<notin> set name" using c alnum_plain by (auto simp: list_all_iff)
  then show "plain (name @ t)" using c alnum_plain [of c] assms(2) by (auto simp: plain_def)
  show "length name \<le> 64" by (rule v)
qed

lemma Join_plain:
  assumes "plain_path (ds @ cs)"
  shows "Join (abs_path ds # cs) = abs_path (ds @ cs)"
proof (cases "cs = []")
  case False
  then have "join_slash (abs_path ds # cs) = abs_path ds @ CHR ''/'' # join_slash cs"
    by (cases cs) simp_all
  moreover have "norm (abs_path ds @ CHR ''/'' # join_slash cs) = ds @ cs"
    using assms False plain_no_slash [of cs] by (simp add: norm_slash split_join clean_comps_id)
  ultimately show ?thesis by (simp add: Join_def Clean_abs IsAbs_append)
qed (use assms in \<open>simp add: Join_def\<close>)

definition bin_comps :: "string \<Rightarrow> string list" where
  "bin_comps base = [''.underleaf'', ''bin'', base]"

lemma plain_bin: "plain base \<Longrightarrow> plain_path (bin_comps base)"
  by (simp add: bin_comps_def plain_def)

lemma bin_paths:
  assumes "plain_path hs" and "validateUMCName name = None"
  shows "bin_dir (abs_path hs) = abs_path (hs @ [''.underleaf'', ''bin''])"
    and "target_path (abs_path hs) name = abs_path (hs @ bin_comps (name @ ''-serve''))"
    and "target_path (abs_path hs) name @ ''.tmp'' = abs_path (hs @ bin_comps (name @ ''-serve.tmp''))"
proof -
  have p: "plain (name @ ''-serve'')" using valid_name_plain [OF assms(2)] by simp
  show b: "bin_dir (abs_path hs) = abs_path (hs @ [''.underleaf'', ''bin''])"
    unfolding bin_dir_def using assms(1) by (intro Join_plain) (simp add: plain_def)
  have "target_path (abs_path hs) name = abs_path ((hs @ [''.underleaf'', ''bin'']) @ [name @ ''-serve''])"
    unfolding target_path_def b by (rule Join_plain) (use assms(1) p in \<open>simp add: plain_def\<close>)
  then show t: "target_path (abs_path hs) name = abs_path (hs @ bin_comps (name @ ''-serve''))"
    by (simp add: bin_comps_def)
  show "target_path (abs_path hs) name @ ''.tmp'' = abs_path (hs @ bin_comps (name @ ''-serve.tmp''))"
    unfolding t by (cases "hs = []") (simp_all add: bin_comps_def abs_path_def join_slash_append)
qed

lemma install_comps:
  assumes "plain_path hs" and "validateUMCName name = None"
  shows "path_comps H (bin_dir (abs_path hs)) = hs @ [''.underleaf'', ''bin'']"
    and "path_comps H (target_path (abs_path hs) name) = hs @ bin_comps (name @ ''-serve'')"
    and "path_comps H (target_path (abs_path hs) name @ ''.tmp'') = hs @ bin_comps (name @ ''-serve.tmp'')"
proof -
  have "plain (name @ ''-serve'')" "plain (name @ ''-serve.tmp'')"
    by (rule valid_name_plain [OF assms(2)]; simp)+
  then have "plain_path (hs @ bin_comps (name @ ''-serve''))" "plain_path (hs @ bin_comps (name @ ''-serve.tmp''))"
      "plain_path (hs @ [''.underleaf'', ''bin''])"
    using assms(1) by (simp_all add: plain_bin plain_def)
  then show "path_comps H (bin_dir (abs_path hs)) = hs @ [''.underleaf'', ''bin'']"
    "path_comps H (target_path (abs_path hs) name) = hs @ bin_comps (name @ ''-serve'')"
    "path_comps H (target_path (abs_path hs) name @ ''.tmp'') = hs @ bin_comps (name @ ''-serve.tmp'')"
    unfolding bin_paths(3) [OF assms] unfolding bin_paths(1,2) [OF assms] by (simp_all only: path_comps_abs)
qed

lemma first_executable_file:
  "first_executable H fs ps = p \<Longrightarrow> p \<noteq> [] \<Longrightarrow>
     p \<in> set ps \<and> (\<exists>d m. lstat fs (path_comps H p) = Inr (NFile d m))"
  by (induction ps) (auto split: sum.splits node.splits)

text \<open>
  The executable started for a name is one of three places, and what is there is a regular
  file: neither a directory nor a symbolic link. With a valid name the two fixed places are the
  file \<open><name>-serve\<close> directly in the directory meant for it.
\<close>
theorem find_confined:
  assumes "findExecutable U name fs = p" and "p \<noteq> []" and "validateUMCName name = None"
    and "uh_home U = Inr (abs_path hs)" and "plain_path hs"
  shows "(\<exists>d m. lstat fs (path_comps (uh_host U) p) = Inr (NFile d m)) \<and>
    (p = abs_path (hs @ [''.underleaf'', ''bin'', name @ ''-serve'']) \<or>
     p = abs_path [''usr'', ''local'', ''bin'', name @ ''-serve''] \<or>
     p = Join [Dir (uh_arg0 U), ''..'', name, ''serve''])"
proof -
  have s: "plain (name @ ''-serve'')" using valid_name_plain [OF assms(3)] by simp
  have 1: "Join [abs_path hs, ''.underleaf'', ''bin'', name @ ''-serve''] =
      abs_path (hs @ [''.underleaf'', ''bin'', name @ ''-serve''])"
    by (rule Join_plain) (use assms(5) s in \<open>simp add: plain_def\<close>)
  have 2: "Join [abs_path [''usr'', ''local'', ''bin''], name @ ''-serve''] =
      abs_path ([''usr'', ''local'', ''bin''] @ [name @ ''-serve''])"
    by (rule Join_plain) (use s in \<open>simp add: plain_def\<close>)
  have "abs_path [''usr'', ''local'', ''bin''] = ''/usr/local/bin''" by (simp add: abs_path_def)
  with first_executable_file [OF assms(1) [unfolded findExecutable_def] assms(2)] 1 2
  show ?thesis by (auto simp: search_paths_def assms(4) Let_def)
qed

section \<open>Installation in a home directory without links\<close>

lemma read_file:
  assumes "os_read H (ds @ xs) fs = Inr (content, perm)" and "jail ds fs" "plain_path xs"
    and "map_of fs (ds @ xs) = Some (NFile d m)"
  shows "content = d \<and> perm = m"
  using assms(1,4) file_stat [OF _ assms(2,3)]
  by (fastforce simp: os_read_def split: option.splits sum.splits node.splits)

lemma copyFile_result:
  assumes "copyFile H src dst fs = (r, fs')" and "jail ds fs"
    and "path_comps H src = ds @ xs" "plain_path xs" "xs \<noteq> []"
    and "path_comps H dst = ds @ ys" "plain_path ys" "ys \<noteq> []" "ys \<noteq> xs"
    and "map_of fs (ds @ xs) = Some (NFile d m)"
  shows "jail ds fs'" and "changes_only {ds @ ys} fs fs'"
    and "r = None \<Longrightarrow> map_of fs' (ds @ ys) = Some (NFile d m)"
proof -
  have "jail ds fs' \<and> changes_only {ds @ ys} fs fs' \<and> (r = None \<longrightarrow> map_of fs' (ds @ ys) = Some (NFile d m))"
  proof (cases "os_read H (ds @ xs) fs")
    case (Inl e)
    then show ?thesis using assms(1,2,3) by (auto simp: copyFile_def)
  next
    case (Inr c)
    then have r: "os_read H (ds @ xs) fs = Inr (d, m)"
      using read_file [OF _ assms(2,4,10)] by (cases c) auto
    obtain o1 fs1 where 1: "os_create H (ds @ ys) 0x1B6 fs = (o1, fs1)" by fastforce
    note c1 = file_create [OF 1 assms(2,7,8)]
    show ?thesis
    proof (cases o1)
      case (Inl e)
      then show ?thesis using assms(1,3,6) r 1 c1(1,2) by (auto simp: copyFile_def)
    next
      case (Inr p)
      obtain k where p: "p = ds @ ys" "map_of fs1 (ds @ ys) = Some (NFile [] k)" using c1(3) [OF Inr] by blast
      obtain n o2 fs2 where 2: "os_copy H (ds @ ys) d fs1 = ((n, o2), fs2)" by (metis prod.exhaust)
      note c2 = file_copy [OF 2 c1(1) assms(8)]
      have only2: "changes_only {ds @ ys} fs fs2"
        using changes_only_trans [OF c1(2) c2(2)] by simp
      show ?thesis
      proof (cases o2)
        case (Some e)
        then show ?thesis using assms(1,3,6) r 1 2 Inr p c2(1) only2 by (auto simp: copyFile_def)
      next
        case None
        have t: "map_of fs2 (ds @ xs) = Some (NFile d m)" "map_of fs2 (ds @ ys) = Some (NFile d k)"
          using only2 assms(9,10) c2(4) [OF p(2)] None by (auto simp: changes_only_def)
        show ?thesis
        proof (cases "stat fs2 (ds @ xs)")
          case (Inl e)
          then show ?thesis using assms(1,3,6) r 1 2 Inr \<open>o1 = Inr p\<close> None p c2(1) only2 by (auto simp: copyFile_def)
        next
          case (Inr node)
          then have "stat fs2 (ds @ xs) = Inr (NFile d m)" using file_stat [OF Inr c2(1) assms(4)] t(1) by simp
          then have 3: "os_chmod H (ds @ ys) m fs2 = (r, fs')"
            using assms(1,3,6) r 1 2 \<open>o1 = Inr p\<close> None p by (simp add: copyFile_def)
          note c3 = file_chmod [OF 3 c2(1) assms(7,8) t(2)]
          show ?thesis using c3(1,3) changes_only_trans [OF only2 c3(2)] by simp
        qed
      qed
    qed
  qed
  then show "jail ds fs'" "changes_only {ds @ ys} fs fs'"
    "r = None \<Longrightarrow> map_of fs' (ds @ ys) = Some (NFile d m)" by simp_all
qed

text \<open>What an installation attempt may do, given whether it succeeds and with which content.\<close>

definition installed :: "string list \<Rightarrow> string list \<Rightarrow> string list \<Rightarrow> (string \<Rightarrow> bool) \<Rightarrow> sup_error option \<Rightarrow> fs \<Rightarrow> fs \<Rightarrow> bool" where
  "installed ds temp target good r fs fs' \<longleftrightarrow> jail ds fs' \<and> changes_only {temp, target} fs fs' \<and>
     (r = None \<longrightarrow> (\<exists>d. good d \<and> map_of fs' target = Some (NFile d 0x1ED))) \<and>
     (r \<noteq> None \<and> (\<forall>e. r \<noteq> Some (InstallFailed e)) \<longrightarrow> changes_only {temp} fs fs')"

lemma installed_early: "jail ds fs' \<Longrightarrow> changes_only {temp} fs fs' \<Longrightarrow> r \<noteq> None \<Longrightarrow>
    installed ds temp target good r fs fs'"
  by (auto simp: installed_def intro: changes_only_mono)

lemma installed_late: "jail ds fs' \<Longrightarrow> changes_only {temp, target} fs fs' \<Longrightarrow>
    (r = None \<Longrightarrow> good d \<and> map_of fs' target = Some (NFile d 0x1ED)) \<Longrightarrow>
    (\<And>e. r = Some e \<Longrightarrow> \<exists>x. e = InstallFailed x) \<Longrightarrow> installed ds temp target good r fs fs'"
  by (cases r) (auto simp: installed_def)

lemma rename_step:
  assumes "(case os_rename H (ds @ xs) (ds @ ys) fs of
        (None, fs3) \<Rightarrow> (None, fs3)
      | (Some e, fs3) \<Rightarrow>
          if IsPermission e \<or> e = EEXIST then (Some (InstallFailed e), fs3)
          else (case copyFile H tempPath targetPath fs3 of
                  (Some e, fs4) \<Rightarrow> (Some (InstallFailed e), fs4)
                | (None, fs4) \<Rightarrow> (None, fs4))) = (r, fs')"
    and "jail ds fs" and "map_of fs (ds @ xs) = Some (NFile d 0x1ED)" and "good d"
    and "path_comps H tempPath = ds @ xs" "plain_path xs" "xs \<noteq> []"
    and "path_comps H targetPath = ds @ ys" "plain_path ys" "ys \<noteq> []" "ys \<noteq> xs"
  shows "installed ds (ds @ xs) (ds @ ys) good r fs fs'"
proof -
  obtain o3 fs3 where 3: "os_rename H (ds @ xs) (ds @ ys) fs = (o3, fs3)" by fastforce
  note c3 = file_rename [OF 3 assms(2,6,7,9,10,3)]
  show ?thesis
  proof (cases o3)
    case None
    then have "r = None" "fs' = fs3" using assms(1) 3 by simp_all
    then show ?thesis using c3(1-3) None assms(4) by (intro installed_late [where d = d]) simp_all
  next
    case (Some e)
    then have f3: "fs3 = fs" using c3(4) by blast
    obtain o4 fs4 where 4: "copyFile H tempPath targetPath fs = (o4, fs4)" by fastforce
    note c4 = copyFile_result [OF 4 assms(2,5,6,7,8,9,10,11,3)]
    have only: "changes_only {ds @ xs, ds @ ys} fs fs4" using c4(2) by (rule changes_only_mono) simp
    from assms(1) 3 Some f3 4
    have "r = Some (InstallFailed e) \<and> fs' = fs \<or> fs' = fs4 \<and> r = map_option InstallFailed o4"
      by (cases o4) (auto split: if_splits)
    then show ?thesis using assms(2,4) c4(1,3) only
      by (cases o4) (auto intro!: installed_late [where d = d])
  qed
qed

lemma install_from_temp_result:
  assumes "install_from_temp U targetPath tempPath (ds @ xs) resp checksum fs = (r, fs')" and "jail ds fs"
    and "map_of fs (ds @ xs) = Some (NFile [] m)"
    and "path_comps (uh_host U) tempPath = ds @ xs" "plain_path xs" "xs \<noteq> []"
    and "path_comps (uh_host U) targetPath = ds @ ys" "plain_path ys" "ys \<noteq> []" "ys \<noteq> xs"
  shows "installed ds (ds @ xs) (ds @ ys) (\<lambda>d. d = dl_Body resp \<and> uh_sha256 U d = checksum) r fs fs'"
proof -
  let ?H = "uh_host U" and ?good = "\<lambda>d. d = dl_Body resp \<and> uh_sha256 U d = checksum"
  obtain n o1 fs1 where 1: "os_copy ?H (ds @ xs) (dl_Body resp) fs = ((n, o1), fs1)" by (metis prod.exhaust)
  note c1 = file_copy [OF 1 assms(2,6)]
  show ?thesis
  proof (cases "o1 = None \<and> dl_BodyError resp = None \<and> ho_fault ?H (SysClose (ds @ xs)) fs1 = None \<and>
      uh_sha256 U (dl_Body resp) = checksum")
    case False
    then have "fs' = fs1" "r \<noteq> None"
      using assms(1,4) 1 by (auto simp: install_from_temp_def Let_def split: option.splits if_splits)
    then show ?thesis using c1(1,2) by (intro installed_early) simp_all
  next
    case True
    then have t: "map_of fs1 (ds @ xs) = Some (NFile (dl_Body resp) m)" using c1(4) [OF assms(3)] by simp
    obtain o2 fs2 where 2: "os_chmod ?H (ds @ xs) 0x1ED fs1 = (o2, fs2)" by fastforce
    note c2 = file_chmod [OF 2 c1(1) assms(5,6) t]
    have only2: "changes_only {ds @ xs} fs fs2" using changes_only_trans [OF c1(2) c2(2)] by simp
    show ?thesis
    proof (cases o2)
      case (Some e)
      then have "fs' = fs2" "r \<noteq> None"
        using assms(1,4) 1 2 True by (auto simp: install_from_temp_def Let_def)
      then show ?thesis using c2(1) only2 by (intro installed_early) simp_all
    next
      case None
      have "installed ds (ds @ xs) (ds @ ys) ?good r fs2 fs'"
      proof (rule rename_step [OF _ c2(1) c2(3) [OF None] _ assms(4-10)])
        show "dl_Body resp = dl_Body resp \<and> uh_sha256 U (dl_Body resp) = checksum" using True by simp
      qed (use assms(1,4,7) 1 2 True None in \<open>simp add: install_from_temp_def Let_def\<close>)
      then show ?thesis using only2 by (auto simp: installed_def changes_only_def)
    qed
  qed
qed

lemma mkdir_all_only:
  assumes "jail ds fs" "plain_path xs" and "os_mkdir_all H (ds @ xs) fs = (r, fs')"
  shows "changes_only {ds @ ys | ys. prefix ys xs} fs fs'"
  using assms(2,3)
proof (induction xs arbitrary: r fs' rule: rev_induct)
  case Nil
  then show ?case using assms(1) by (auto simp: os_mkdir_all.simps jail_stat_prefix)
next
  case (snoc x xs)
  obtain r1 fs1 where 1: "os_mkdir_all H (ds @ xs) fs = (r1, fs1)" by fastforce
  obtain r2 fs2 where 2: "os_mkdir H (ds @ xs @ [x]) fs1 = (r2, fs2)" by fastforce
  have b: "butlast (ds @ xs @ [x]) = ds @ xs" by (simp add: butlast_append)
  have j1: "jail ds fs1"
    using stays_mkdir_all [OF _ 1] snoc.prems(1) assms(1) by (simp add: stays_def)
  have IH: "changes_only {ds @ ys | ys. prefix ys xs} fs fs1"
    using snoc.IH [OF _ 1] snoc.prems(1) by simp
  have "fs2 = fs1 \<or> fs2 = AList.update (ds @ xs @ [x]) NDir fs1"
    using 2 jail_walk [OF j1 snoc.prems(1)]
    by (auto simp: os_mkdir_def split: option.splits sum.splits if_splits)
  then have "changes_only {ds @ ys | ys. prefix ys (xs @ [x])} fs fs2"
    using IH by (auto simp: changes_only_def gomap_simps)
  moreover have "fs' = fs \<or> fs' = fs1 \<or> fs' = fs2"
    using os_mkdir_all_result [OF snoc.prems(2)] 1 2 b by simp
  ultimately show ?case using changes_only_mono [OF IH, of "{ds @ ys | ys. prefix ys (xs @ [x])}"] by auto
qed

text \<open>The phases of an installation, for a name that passes and a home without links.\<close>

lemma InstallUMC_cases [consumes 3, case_names refused unpacked]:
  assumes "InstallUMC U name artifactURL checksum h fs = (r, h', fs')"
    and "uh_home U = Inr (abs_path hs)" and "jail hs fs"
  obtains (refused) "r \<noteq> None" "\<forall>e. r \<noteq> Some (InstallFailed e)" "h' = h \<or> h' = h @ [HttpGet artifactURL []]"
      "changes_only {hs @ ys | ys. prefix ys [''.underleaf'', ''bin'']} fs fs'"
  | (unpacked) resp fs1 where "validateUMCName name = None" "url_scheme U artifactURL = Inr ''https''" "checksum \<noteq> []"
      "uh_get U h artifactURL = Inr resp" "dl_StatusCode resp = 200" "h' = h @ [HttpGet artifactURL []]"
      "changes_only {hs @ ys | ys. prefix ys [''.underleaf'', ''bin'']} fs fs1" "jail hs fs1"
      "install_download U (target_path (abs_path hs) name) (target_path (abs_path hs) name @ ''.tmp'')
         resp checksum fs1 = (r, fs')"
proof (cases "validateUMCName name = None \<and> url_scheme U artifactURL = Inr ''https'' \<and> checksum \<noteq> []")
  case False
  then show ?thesis using assms(1)
    by (intro refused; auto simp: InstallUMC_def validateUMCName_def split: option.splits sum.splits if_splits)
next
  case True
  have hs: "plain_path hs" using assms(3) by (simp add: jail_def)
  obtain o1 fs1 where 1: "os_mkdir_all (uh_host U) (hs @ [''.underleaf'', ''bin'']) fs = (o1, fs1)" by fastforce
  have pb: "plain_path [''.underleaf'', ''bin'']" by (simp add: plain_def)
  have only: "changes_only {hs @ ys | ys. prefix ys [''.underleaf'', ''bin'']} fs fs1"
    by (rule mkdir_all_only [OF assms(3) pb 1])
  have j: "jail hs fs1" using stays_mkdir_all [OF pb 1] assms(3) by (simp add: stays_def)
  note eq = assms(1) [unfolded InstallUMC_def assms(2)] 1 True install_comps(1) [OF hs]
  show ?thesis
  proof (cases "o1 = None \<and> (\<exists>resp. uh_get U h artifactURL = Inr resp \<and> dl_StatusCode resp = 200)")
    case True
    then obtain resp where resp: "o1 = None" "uh_get U h artifactURL = Inr resp" "dl_StatusCode resp = 200"
      by blast
    show ?thesis
      by (rule unpacked [OF _ _ _ resp(2,3) _ only j])
         (use eq resp in \<open>auto simp: Let_def split: prod.splits\<close>)
  next
    case False
    have "r \<noteq> None \<and> (\<forall>e. r \<noteq> Some (InstallFailed e)) \<and> (h' = h \<or> h' = h @ [HttpGet artifactURL []]) \<and> fs' = fs1"
      using eq False by (auto simp: Let_def split: option.splits sum.splits if_splits)
    then show ?thesis using refused only by blast
  qed
qed

lemma install_download_result:
  assumes "install_download U targetPath tempPath resp checksum fs = (r, fs')" and "jail ds fs"
    and "path_comps (uh_host U) tempPath = ds @ xs" "plain_path xs" "xs \<noteq> []"
    and "path_comps (uh_host U) targetPath = ds @ ys" "plain_path ys" "ys \<noteq> []" "ys \<noteq> xs"
  shows "installed ds (ds @ xs) (ds @ ys) (\<lambda>d. d = dl_Body resp \<and> uh_sha256 U d = checksum) r fs fs'"
proof -
  obtain o1 fs1 where 1: "os_create (uh_host U) (ds @ xs) 0x1B6 fs = (o1, fs1)" by fastforce
  note c1 = file_create [OF 1 assms(2,4,5)]
  show ?thesis
  proof (cases o1)
    case (Inl e)
    then show ?thesis using assms(1,3) 1 c1(1,2)
      by (intro installed_early) (auto simp: install_download_def)
  next
    case (Inr p)
    then obtain m where p: "p = ds @ xs" "map_of fs1 (ds @ xs) = Some (NFile [] m)" using c1(3) by blast
    obtain fs2 where 2: "install_from_temp U targetPath tempPath (ds @ xs) resp checksum fs1 = (r, fs2)"
        "fs' = os_remove (uh_host U) (ds @ xs) fs2"
      using assms(1,3) 1 Inr p(1) by (auto simp: install_download_def split: prod.splits)
    note c2 = install_from_temp_result [OF 2(1) c1(1) p(2) assms(3-9)]
    then have "jail ds fs2" by (simp add: installed_def)
    note c3 = file_remove [OF this assms(4,5), of "uh_host U"]
    show ?thesis using c1(2) c2 c3 assms(9) unfolding 2(2) by (auto simp: installed_def changes_only_def)
  qed
qed

lemma InstallUMC_result:
  assumes "InstallUMC U name artifactURL checksum h fs = (r, h', fs')"
    and "uh_home U = Inr (abs_path hs)" and "jail hs fs"
  defines "dirs \<equiv> {hs @ ys | ys. prefix ys [''.underleaf'', ''bin'']}"
  shows "changes_only (dirs \<union> {hs @ bin_comps (name @ ''-serve.tmp''), hs @ bin_comps (name @ ''-serve'')}) fs fs'"
    and "r \<noteq> None \<Longrightarrow> \<forall>e. r \<noteq> Some (InstallFailed e) \<Longrightarrow>
      changes_only (dirs \<union> {hs @ bin_comps (name @ ''-serve.tmp'')}) fs fs'"
    and "r = None \<Longrightarrow> validateUMCName name = None \<and> url_scheme U artifactURL = Inr ''https'' \<and>
      h' = h @ [HttpGet artifactURL []] \<and>
      (\<exists>resp. uh_get U h artifactURL = Inr resp \<and> dl_StatusCode resp = 200 \<and> checksum \<noteq> [] \<and>
        uh_sha256 U (dl_Body resp) = checksum \<and>
        map_of fs' (hs @ bin_comps (name @ ''-serve'')) = Some (NFile (dl_Body resp) 0x1ED))"
proof -
  let ?temp = "hs @ bin_comps (name @ ''-serve.tmp'')" and ?target = "hs @ bin_comps (name @ ''-serve'')"
  let ?ok = "validateUMCName name = None \<and> url_scheme U artifactURL = Inr ''https'' \<and>
      h' = h @ [HttpGet artifactURL []] \<and>
      (\<exists>resp. uh_get U h artifactURL = Inr resp \<and> dl_StatusCode resp = 200 \<and> checksum \<noteq> [] \<and>
        uh_sha256 U (dl_Body resp) = checksum \<and> map_of fs' ?target = Some (NFile (dl_Body resp) 0x1ED))"
  have hs: "plain_path hs" using assms(3) by (simp add: jail_def)
  have "changes_only (dirs \<union> {?temp, ?target}) fs fs' \<and>
      (r \<noteq> None \<and> (\<forall>e. r \<noteq> Some (InstallFailed e)) \<longrightarrow> changes_only (dirs \<union> {?temp}) fs fs') \<and> (r = None \<longrightarrow> ?ok)"
    using assms(1-3)
  proof (cases rule: InstallUMC_cases)
    case refused
    then show ?thesis unfolding dirs_def
      by (intro conjI impI) (auto intro: changes_only_mono)
  next
    case (unpacked resp fs1)
    have p: "plain_path (bin_comps (name @ ''-serve.tmp''))" "plain_path (bin_comps (name @ ''-serve''))"
      by (rule plain_bin valid_name_plain unpacked(1) | simp)+
    have "installed hs ?temp ?target (\<lambda>d. d = dl_Body resp \<and> uh_sha256 U d = checksum) r fs1 fs'"
      by (rule install_download_result [OF unpacked(9,8) install_comps(3) _ _ install_comps(2)])
         (use hs unpacked(1) p in \<open>simp_all add: bin_comps_def\<close>)
    then have i: "changes_only {?temp, ?target} fs1 fs'"
        "r \<noteq> None \<and> (\<forall>e. r \<noteq> Some (InstallFailed e)) \<longrightarrow> changes_only {?temp} fs1 fs'"
        "r = None \<longrightarrow> uh_sha256 U (dl_Body resp) = checksum \<and> map_of fs' ?target = Some (NFile (dl_Body resp) 0x1ED)"
      unfolding installed_def by blast+
    have d: "changes_only dirs fs fs1" unfolding dirs_def by (rule unpacked(7))
    show ?thesis
    proof (intro conjI impI)
      show "changes_only (dirs \<union> {?temp, ?target}) fs fs'" by (rule changes_only_trans [OF d i(1)])
      show "changes_only (dirs \<union> {?temp}) fs fs'" if "r \<noteq> None \<and> (\<forall>e. r \<noteq> Some (InstallFailed e))"
        using changes_only_trans [OF d] i(2) that by blast
      show "\<exists>resp. uh_get U h artifactURL = Inr resp \<and> dl_StatusCode resp = 200 \<and> checksum \<noteq> [] \<and>
          uh_sha256 U (dl_Body resp) = checksum \<and> map_of fs' ?target = Some (NFile (dl_Body resp) 0x1ED)" if "r = None"
        using unpacked(3-5) i(3) that by blast
    qed (rule unpacked(1,2,6))+
  qed
  then show "changes_only (dirs \<union> {?temp, ?target}) fs fs'"
    "r \<noteq> None \<Longrightarrow> \<forall>e. r \<noteq> Some (InstallFailed e) \<Longrightarrow> changes_only (dirs \<union> {?temp}) fs fs'"
    "r = None \<Longrightarrow> ?ok" by blast+
qed

lemma https_url: "url_scheme U url = Inr ''https'' \<Longrightarrow> \<exists>a b. url = a @ CHR '':'' # b \<and> map lower a = ''https''"
proof -
  assume a: "url_scheme U url = Inr ''https''"
  have g: "getScheme seen cs \<noteq> [] \<Longrightarrow> \<exists>a b. cs = a @ CHR '':'' # b \<and> getScheme seen cs = seen @ a" for seen cs
  proof (induction cs arbitrary: seen)
    case (Cons c cs)
    show ?case
    proof (cases "getScheme seen (c # cs) = getScheme (seen @ [c]) cs")
      case True
      then obtain a b where "cs = a @ CHR '':'' # b" "getScheme (seen @ [c]) cs = (seen @ [c]) @ a"
        using Cons.IH [of "seen @ [c]"] Cons.prems by auto
      then show ?thesis using True by (intro exI [of _ "c # a"] exI [of _ b]) simp
    next
      case False
      then have "c = CHR '':''" "getScheme seen (c # cs) = seen" using Cons.prems by (auto split: if_splits)
      then show ?thesis by (intro exI [of _ "[]"] exI [of _ cs]) simp
    qed
  qed simp
  let ?u = "fst (Cut (CHR ''#'') url)"
  have m: "map lower (getScheme [] ?u) = ''https''"
    using a by (auto simp: url_scheme_def split: option.splits)
  then have "getScheme [] ?u \<noteq> []" by auto
  from g [OF this] obtain x y where x: "?u = x @ CHR '':'' # y" "getScheme [] ?u = x" by auto
  have "\<exists>t. url = ?u @ t"
    by (cases "CHR ''#'' \<in> set url") (auto simp: Cut_def, metis takeWhile_dropWhile_id)
  with x m show ?thesis by (metis append.assoc append_Cons)
qed

text \<open>
  C6. A binary is installed only from an https URL and only if it matches the given checksum: after
  a successful installation the file \<open><name>-serve\<close> holds exactly the bytes of the answer, whose
  hash is the checksum, and is executable. One request was made, for the given URL.
\<close>
theorem install_verified:
  assumes "InstallUMC U name artifactURL checksum h fs = (None, h', fs')"
    and "uh_home U = Inr (abs_path hs)" and "jail hs fs"
  shows "(\<exists>a b. artifactURL = a @ CHR '':'' # b \<and> map lower a = ''https'') \<and> h' = h @ [HttpGet artifactURL []] \<and>
    (\<exists>resp. uh_get U h artifactURL = Inr resp \<and> dl_StatusCode resp = 200 \<and> checksum \<noteq> [] \<and>
      uh_sha256 U (dl_Body resp) = checksum \<and>
      map_of fs' (hs @ [''.underleaf'', ''bin'', name @ ''-serve'']) = Some (NFile (dl_Body resp) 0x1ED))"
  using InstallUMC_result(3) [OF assms refl] https_url [of U artifactURL] by (auto simp: bin_comps_def)

text \<open>
  C34. When there is no symbolic link at the home directory, on the way to it or below it (the
  \<open>jail\<close> hypothesis; \<open>os.Create\<close> would follow one at the temporary file's name), an installation
  changes nothing but the directories of the binaries, the temporary file and the target; and one that is refused, fails to download, or does not match its checksum leaves
  the installed binary as it was. Only the last step, putting the file in place, can damage it.
\<close>
theorem install_failure_keeps:
  assumes "InstallUMC U name artifactURL checksum h fs = (r, h', fs')"
    and "uh_home U = Inr (abs_path hs)" and "jail hs fs" and "bin = hs @ [''.underleaf'', ''bin'']"
  shows "(\<forall>q. map_of fs' q \<noteq> map_of fs q \<longrightarrow>
      prefix q bin \<or> q = bin @ [name @ ''-serve.tmp''] \<or> q = bin @ [name @ ''-serve'']) \<and>
    (r \<noteq> None \<and> (\<forall>e. r \<noteq> Some (InstallFailed e)) \<longrightarrow>
      map_of fs' (bin @ [name @ ''-serve'']) = map_of fs (bin @ [name @ ''-serve'']))"
proof -
  note i = InstallUMC_result(1,2) [OF assms(1-3)]
  have bin: "hs @ bin_comps x = bin @ [x]" for x by (simp add: bin_comps_def assms(4))
  have d: "q \<in> {hs @ ys | ys. prefix ys [''.underleaf'', ''bin'']} \<Longrightarrow> prefix q bin" for q
    by (auto simp: assms(4))
  have "bin @ [name @ ''-serve''] \<notin> {hs @ ys | ys. prefix ys [''.underleaf'', ''bin'']}"
    using d [of "bin @ [name @ ''-serve'']"] by (auto dest: prefix_length_le)
  with i d show ?thesis unfolding changes_only_def bin by (auto; blast)
qed

section \<open>Examples\<close>

definition sample_umc :: umc_host where
  "sample_umc =
     \<lparr>uh_host = sample_host, uh_home = Inr ''/home/u'', uh_arg0 = ''/opt/de/serve'',
      uh_environ = [''PATH=/bin'', ''AWS_SECRET=x'', ''HOME=/home/u''], uh_url_error = \<lambda>u. None,
      uh_get = \<lambda>h u. Inr \<lparr>dl_StatusCode = 200, dl_Status = ''200 OK'', dl_Body = ''new'', dl_BodyError = None\<rparr>,
      uh_sha256 = \<lambda>s. if s = ''new'' then ''11aa'' else ''00ff'',
      uh_start = \<lambda>h p e. Inr (100 + int (length h)), uh_exits_in_time = \<lambda>h pid t. True,
      uh_health = \<lambda>h u t. Inr 200, uh_monitors_end = \<lambda>h. True,
      uh_now = \<lambda>h. second * int (length h) + second\<rparr>"

definition umc_fs :: fs where
  "umc_fs =
     [([], NDir), ([''home''], NDir), ([''home'', ''u''], NDir), ([''home'', ''u'', ''.underleaf''], NDir),
      ([''home'', ''u'', ''.underleaf'', ''bin''], NDir),
      ([''home'', ''u'', ''.underleaf'', ''bin'', ''cron-serve''], NFile ''old'' 0x1ED)]"

lemma umc_jail: "jail [''home'', ''u''] umc_fs"
  by (rule jail_check) code_simp+

lemma umc_home: "uh_home sample_umc = Inr (abs_path [''home'', ''u''])"
  by (simp add: sample_umc_def abs_path_def)

lemma install_runs:
  "fst (InstallUMC sample_umc ''cron'' ''HTTPS://h/b'' ''11aa'' [] umc_fs) = None"
  "fst (InstallUMC sample_umc ''cron'' ''https://h/b'' ''22bb'' [] umc_fs) = Some (ChecksumMismatch ''22bb'' ''11aa'')"
  by code_simp+

theorem find_confined_witness:
  "\<exists>d m. lstat umc_fs (path_comps (uh_host sample_umc) ''/home/u/.underleaf/bin/cron-serve'') = Inr (NFile d m)"
proof -
  have "findExecutable sample_umc ''cron'' umc_fs = ''/home/u/.underleaf/bin/cron-serve''"
    and "validateUMCName ''cron'' = None" and "plain_path [''home'', ''u'']" by code_simp+
  with find_confined [OF _ _ _ umc_home, of "''cron''" umc_fs] show ?thesis by blast
qed

theorem install_verified_witness:
  "map_of (snd (snd (InstallUMC sample_umc ''cron'' ''HTTPS://h/b'' ''11aa'' [] umc_fs)))
     ([''home'', ''u''] @ [''.underleaf'', ''bin'', ''cron'' @ ''-serve'']) = Some (NFile ''new'' 0x1ED)"
proof -
  let ?r = "InstallUMC sample_umc ''cron'' ''HTTPS://h/b'' ''11aa'' [] umc_fs"
  have "?r = (None, fst (snd ?r), snd (snd ?r))" by (metis install_runs(1) prod.collapse)
  moreover have "uh_get sample_umc [] ''HTTPS://h/b'' =
      Inr \<lparr>dl_StatusCode = 200, dl_Status = ''200 OK'', dl_Body = ''new'', dl_BodyError = None\<rparr>"
    by (simp add: sample_umc_def)
  ultimately show ?thesis using install_verified [OF _ umc_home umc_jail, of "''cron''" "''HTTPS://h/b''" "''11aa''" "[]"]
    by (metis (no_types, lifting) Inr_inject download.select_convs(3))
qed

theorem install_failure_keeps_witness:
  "map_of (snd (snd (InstallUMC sample_umc ''cron'' ''https://h/b'' ''22bb'' [] umc_fs)))
     (([''home'', ''u''] @ [''.underleaf'', ''bin'']) @ [''cron'' @ ''-serve'']) =
   map_of umc_fs (([''home'', ''u''] @ [''.underleaf'', ''bin'']) @ [''cron'' @ ''-serve''])"
proof -
  let ?r = "InstallUMC sample_umc ''cron'' ''https://h/b'' ''22bb'' [] umc_fs"
  have "?r = (Some (ChecksumMismatch ''22bb'' ''11aa''), fst (snd ?r), snd (snd ?r))"
    by (metis install_runs(2) prod.collapse)
  from install_failure_keeps [OF this umc_home umc_jail refl] show ?thesis by blast
qed

end
