(* ===== verification/Manifest.thy ===== *)
theory Manifest
  imports Prelude
begin

text \<open>
  The UMC manifest (\<open>internal/manifest/manifest.go\<close>): validation of the list of managed
  components, with the default restart policy filled in while it is checked, and the
  conversion of the policy. Reading the file and decoding YAML are \<open>os.ReadFile\<close> and the
  yaml.v3 package, arguments of \<open>Parse\<close>.
\<close>

section \<open>Definitions\<close>

record UMCConfig =
  mc_Name :: string
  mc_Port :: int
  mc_RestartPolicy :: string

datatype manifest_error =
    NoUMCs
  | MissingName nat
  | DuplicateName string
  | InvalidPort string int
  | InvalidPolicy string string
  | ReadFailed string
  | ParseFailed string

fun manifest_error_text :: "manifest_error \<Rightarrow> string" where
  "manifest_error_text NoUMCs = ''manifest must define at least one UMC''"
| "manifest_error_text (MissingName i) = ''UMC at index '' @ show_nat i @ '' missing name''"
| "manifest_error_text (DuplicateName n) = ''duplicate UMC name: '' @ n"
| "manifest_error_text (InvalidPort n p) = ''UMC '' @ n @ '' has invalid port: '' @ show_int p"
| "manifest_error_text (InvalidPolicy n p) =
     ''UMC '' @ n @ '' has invalid restart_policy: '' @ p @
     '' (must be 'always', 'on-failure', or 'never')''"
| "manifest_error_text (ReadFailed e) = ''failed to read manifest file: '' @ e"
| "manifest_error_text (ParseFailed e) = ''failed to parse manifest YAML: '' @ e"

text \<open>
  The loop of \<open>Validate\<close>: \<open>i\<close> is the index, \<open>seen\<close> the names so far. The slice is updated
  in place, also when a later entry is rejected, so the new slice is returned in both cases.
\<close>

fun validate_from ::
    "nat \<Rightarrow> string list \<Rightarrow> UMCConfig list \<Rightarrow> manifest_error option \<times> UMCConfig list" where
  "validate_from i seen [] = (None, [])"
| "validate_from i seen (umc # rest) =
     (if mc_Name umc = [] then (Some (MissingName i), umc # rest)
      else if mc_Name umc \<in> set seen then (Some (DuplicateName (mc_Name umc)), umc # rest)
      else if mc_Port umc \<le> 0 \<or> mc_Port umc > 65535
        then (Some (InvalidPort (mc_Name umc) (mc_Port umc)), umc # rest)
      else if mc_RestartPolicy umc \<in> {''always'', ''on-failure'', ''never''} then
        (let (e, rest') = validate_from (Suc i) (mc_Name umc # seen) rest in (e, umc # rest'))
      else if mc_RestartPolicy umc = [] then
        (let (e, rest') = validate_from (Suc i) (mc_Name umc # seen) rest
         in (e, umc\<lparr>mc_RestartPolicy := ''always''\<rparr> # rest'))
      else (Some (InvalidPolicy (mc_Name umc) (mc_RestartPolicy umc)), umc # rest))"

definition Validate :: "UMCConfig list \<Rightarrow> manifest_error option \<times> UMCConfig list" where
  "Validate umcs = (if umcs = [] then (Some NoUMCs, umcs) else validate_from 0 [] umcs)"

definition Parse ::
    "(string \<Rightarrow> string + string) \<Rightarrow> (string \<Rightarrow> string + UMCConfig list) \<Rightarrow> string \<Rightarrow>
       manifest_error + UMCConfig list" where
  "Parse read_file unmarshal filePath =
     (case read_file filePath of
        Inl e \<Rightarrow> Inl (ReadFailed e)
      | Inr data \<Rightarrow>
          (case unmarshal data of
             Inl e \<Rightarrow> Inl (ParseFailed e)
           | Inr manifest \<Rightarrow>
               (case Validate manifest of
                  (Some e, _) \<Rightarrow> Inl e
                | (None, manifest') \<Rightarrow> Inr manifest')))"

datatype RestartPolicy = RestartPolicyAlways | RestartPolicyOnFailure | RestartPolicyNever

definition GetRestartPolicy :: "UMCConfig \<Rightarrow> RestartPolicy" where
  "GetRestartPolicy c =
     (if mc_RestartPolicy c = ''on-failure'' then RestartPolicyOnFailure
      else if mc_RestartPolicy c = ''never'' then RestartPolicyNever
      else RestartPolicyAlways)"

section \<open>What a valid manifest is\<close>

text \<open>
  The declarative counterpart: an entry on its own, the whole list, and the entry with its
  policy defaulted.
\<close>

definition umc_ok :: "UMCConfig \<Rightarrow> bool" where
  "umc_ok u \<longleftrightarrow> mc_Name u \<noteq> [] \<and> 1 \<le> mc_Port u \<and> mc_Port u \<le> 65535 \<and>
     mc_RestartPolicy u \<in> {'''', ''always'', ''on-failure'', ''never''}"

definition manifest_ok :: "UMCConfig list \<Rightarrow> bool" where
  "manifest_ok umcs \<longleftrightarrow> umcs \<noteq> [] \<and> (\<forall>u \<in> set umcs. umc_ok u) \<and> distinct (map mc_Name umcs)"

definition defaulted :: "UMCConfig \<Rightarrow> UMCConfig" where
  "defaulted u = (if mc_RestartPolicy u = [] then u\<lparr>mc_RestartPolicy := ''always''\<rparr> else u)"

text \<open>The error of an entry, given the names before it.\<close>

definition umc_error :: "nat \<Rightarrow> string list \<Rightarrow> UMCConfig \<Rightarrow> manifest_error option" where
  "umc_error i seen u =
     (if mc_Name u = [] then Some (MissingName i)
      else if mc_Name u \<in> set seen then Some (DuplicateName (mc_Name u))
      else if mc_Port u < 1 \<or> 65535 < mc_Port u then Some (InvalidPort (mc_Name u) (mc_Port u))
      else if mc_RestartPolicy u \<notin> {'''', ''always'', ''on-failure'', ''never''}
        then Some (InvalidPolicy (mc_Name u) (mc_RestartPolicy u))
      else None)"

lemma umc_error_None: "umc_error i seen u = None \<longleftrightarrow> umc_ok u \<and> mc_Name u \<notin> set seen"
  by (auto simp: umc_error_def umc_ok_def)

lemma validate_from_Cons:
  "validate_from i seen (u # rest) =
     (case umc_error i seen u of
        Some e \<Rightarrow> (Some e, u # rest)
      | None \<Rightarrow> map_prod id (Cons (defaulted u)) (validate_from (Suc i) (mc_Name u # seen) rest))"
  by (auto simp: umc_error_def defaulted_def split: prod.splits)

declare validate_from.simps(2) [simp del]

lemma validate_from_ok:
  "fst (validate_from i seen umcs) = None \<longleftrightarrow>
     (\<forall>u \<in> set umcs. umc_ok u \<and> mc_Name u \<notin> set seen) \<and> distinct (map mc_Name umcs)"
proof (induction umcs arbitrary: i seen)
  case (Cons u umcs)
  show ?case
  proof (cases "umc_error i seen u")
    case None
    then have "fst (validate_from i seen (u # umcs)) =
        fst (validate_from (Suc i) (mc_Name u # seen) umcs)"
      by (simp add: validate_from_Cons)
    moreover have "umc_ok u \<and> mc_Name u \<notin> set seen"
      using None umc_error_None by blast
    ultimately show ?thesis
      using Cons.IH [of "Suc i" "mc_Name u # seen"] by (auto simp: image_iff)
  next
    case (Some e)
    then have "\<not> (umc_ok u \<and> mc_Name u \<notin> set seen)"
      by (metis option.discI umc_error_None)
    then show ?thesis by (simp add: validate_from_Cons Some)
  qed
qed simp

lemma validate_from_result:
  "fst (validate_from i seen umcs) = None \<Longrightarrow> snd (validate_from i seen umcs) = map defaulted umcs"
  by (induction umcs arbitrary: i seen)
     (auto simp: validate_from_Cons split: option.splits)

lemma validate_from_error:
  "fst (validate_from i seen umcs) = Some e \<longleftrightarrow>
     (\<exists>pre u post. umcs = pre @ u # post \<and>
        fst (validate_from i seen pre) = None \<and>
        umc_error (i + length pre) (rev (map mc_Name pre) @ seen) u = Some e)"
proof (induction umcs arbitrary: i seen)
  case (Cons v umcs)
  show ?case
  proof (cases "umc_error i seen v")
    case None
    have "fst (validate_from i seen (v # umcs)) = Some e \<longleftrightarrow>
        fst (validate_from (Suc i) (mc_Name v # seen) umcs) = Some e"
      by (simp add: validate_from_Cons None)
    also have "\<dots> \<longleftrightarrow> (\<exists>pre u post. umcs = pre @ u # post \<and>
        fst (validate_from i seen (v # pre)) = None \<and>
        umc_error (i + length (v # pre)) (rev (map mc_Name (v # pre)) @ seen) u = Some e)"
      by (simp add: Cons.IH validate_from_Cons None)
    also have "\<dots> \<longleftrightarrow> (\<exists>pre u post. v # umcs = pre @ u # post \<and>
        fst (validate_from i seen pre) = None \<and>
        umc_error (i + length pre) (rev (map mc_Name pre) @ seen) u = Some e)"
      (is "?l \<longleftrightarrow> ?r")
    proof
      assume ?l then show ?r by (metis append_Cons)
    next
      assume ?r
      then obtain pre u post where p: "v # umcs = pre @ u # post"
          "fst (validate_from i seen pre) = None"
          "umc_error (i + length pre) (rev (map mc_Name pre) @ seen) u = Some e" by blast
      with None show ?l by (cases pre) auto
    qed
    finally show ?thesis .
  next
    case (Some e')
    show ?thesis
    proof
      assume "fst (validate_from i seen (v # umcs)) = Some e"
      then have "umc_error i seen v = Some e" by (simp add: validate_from_Cons Some)
      then show "\<exists>pre u post. v # umcs = pre @ u # post \<and>
        fst (validate_from i seen pre) = None \<and>
        umc_error (i + length pre) (rev (map mc_Name pre) @ seen) u = Some e"
        by (intro exI [of _ "[]"] exI [of _ v] exI [of _ umcs]) simp
    next
      assume "\<exists>pre u post. v # umcs = pre @ u # post \<and>
        fst (validate_from i seen pre) = None \<and>
        umc_error (i + length pre) (rev (map mc_Name pre) @ seen) u = Some e"
      then obtain pre u post where p: "v # umcs = pre @ u # post"
          "fst (validate_from i seen pre) = None"
          "umc_error (i + length pre) (rev (map mc_Name pre) @ seen) u = Some e" by blast
      then show "fst (validate_from i seen (v # umcs)) = Some e"
        by (cases pre) (auto simp: validate_from_Cons Some)
    qed
  qed
qed simp

lemma defaulted_idem: "defaulted (defaulted u) = defaulted u"
  by (simp add: defaulted_def)

lemma umc_ok_defaulted: "umc_ok (defaulted u) \<longleftrightarrow> umc_ok u"
  by (auto simp: umc_ok_def defaulted_def)

lemma Validate_ok: "fst (Validate umcs) = None \<longleftrightarrow> manifest_ok umcs"
  using validate_from_ok [of 0 "[]" umcs] by (simp add: Validate_def manifest_ok_def)

lemma Validate_result: "fst (Validate umcs) = None \<Longrightarrow> snd (Validate umcs) = map defaulted umcs"
  by (simp add: Validate_def validate_from_result split: if_splits)

lemma manifest_ok_defaulted: "manifest_ok (map defaulted umcs) \<longleftrightarrow> manifest_ok umcs"
proof -
  have "mc_Name (defaulted u) = mc_Name u" for u by (simp add: defaulted_def)
  then show ?thesis by (simp add: manifest_ok_def umc_ok_defaulted comp_def)
qed

section \<open>Properties\<close>

text \<open>
  C35. A manifest is accepted exactly when it has an entry, every entry has a name, a port between
  1 and 65535 and a known or missing policy, and no two entries share a name; the accepted
  manifest is the given one with the missing policies set to \<open>always\<close>.
\<close>
theorem Validate_verdict:
  "(fst (Validate umcs) = None \<longleftrightarrow>
      umcs \<noteq> [] \<and> distinct (map mc_Name umcs) \<and>
      (\<forall>u \<in> set umcs. mc_Name u \<noteq> [] \<and> 1 \<le> mc_Port u \<and> mc_Port u \<le> 65535 \<and>
         mc_RestartPolicy u \<in> {'''', ''always'', ''on-failure'', ''never''})) \<and>
   (fst (Validate umcs) = None \<longrightarrow>
      snd (Validate umcs) =
        map (\<lambda>u. if mc_RestartPolicy u = [] then u\<lparr>mc_RestartPolicy := ''always''\<rparr> else u) umcs)"
proof -
  have "(\<lambda>u. if mc_RestartPolicy u = [] then u\<lparr>mc_RestartPolicy := ''always''\<rparr> else u) = defaulted"
    by (simp add: defaulted_def fun_eq_iff)
  then show ?thesis
    using Validate_ok [of umcs] Validate_result [of umcs]
    by (auto simp only: umc_ok_def manifest_ok_def)
qed

theorem Validate_verdict_witness:
  "snd (Validate [\<lparr>mc_Name = ''a'', mc_Port = 8080, mc_RestartPolicy = []\<rparr>,
       \<lparr>mc_Name = ''b'', mc_Port = 65535, mc_RestartPolicy = ''never''\<rparr>]) =
     [\<lparr>mc_Name = ''a'', mc_Port = 8080, mc_RestartPolicy = ''always''\<rparr>,
       \<lparr>mc_Name = ''b'', mc_Port = 65535, mc_RestartPolicy = ''never''\<rparr>]"
  using Validate_verdict [of "[\<lparr>mc_Name = ''a'', mc_Port = 8080, mc_RestartPolicy = []\<rparr>,
       \<lparr>mc_Name = ''b'', mc_Port = 65535, mc_RestartPolicy = ''never''\<rparr>]"]
  by simp

text \<open>
  The error of a rejected manifest belongs to its first offending entry: the entries before it
  are fine on their own and have different names, and the error is the first of the checks (name
  present, name new, port, policy) that the entry fails.
\<close>
theorem Validate_first_error:
  assumes "umcs \<noteq> []"
  shows "fst (Validate umcs) = Some e \<longleftrightarrow>
    (\<exists>pre u post. umcs = pre @ u # post \<and> (\<forall>v \<in> set pre. umc_ok v) \<and> distinct (map mc_Name pre) \<and>
       (if mc_Name u = [] then e = MissingName (length pre)
        else if mc_Name u \<in> mc_Name ` set pre then e = DuplicateName (mc_Name u)
        else if mc_Port u < 1 \<or> 65535 < mc_Port u then e = InvalidPort (mc_Name u) (mc_Port u)
        else mc_RestartPolicy u \<notin> {'''', ''always'', ''on-failure'', ''never''} \<and>
             e = InvalidPolicy (mc_Name u) (mc_RestartPolicy u)))"
proof -
  have u: "umc_error (length pre) (rev (map mc_Name pre)) u = Some e \<longleftrightarrow>
      (if mc_Name u = [] then e = MissingName (length pre)
        else if mc_Name u \<in> mc_Name ` set pre then e = DuplicateName (mc_Name u)
        else if mc_Port u < 1 \<or> 65535 < mc_Port u then e = InvalidPort (mc_Name u) (mc_Port u)
        else mc_RestartPolicy u \<notin> {'''', ''always'', ''on-failure'', ''never''} \<and>
             e = InvalidPolicy (mc_Name u) (mc_RestartPolicy u))" for pre u
    by (auto simp: umc_error_def)
  have "fst (Validate umcs) = fst (validate_from 0 [] umcs)" using assms by (simp add: Validate_def)
  then show ?thesis
    using validate_from_error [of 0 "[]" umcs e] validate_from_ok [of 0 "[]"] by (simp add: u)
qed

theorem Validate_first_error_witness:
  "fst (Validate [\<lparr>mc_Name = ''a'', mc_Port = 8080, mc_RestartPolicy = []\<rparr>,
       \<lparr>mc_Name = ''a'', mc_Port = 0, mc_RestartPolicy = []\<rparr>]) = Some (DuplicateName ''a'')"
  by (subst Validate_first_error, simp)
     (rule exI [of _ "[\<lparr>mc_Name = ''a'', mc_Port = 8080, mc_RestartPolicy = []\<rparr>]"],
      simp add: umc_ok_def)

text \<open>
  Validation is idempotent: the manifest \<open>Parse\<close> returns is accepted again and does not
  change.
\<close>
theorem Parse_idempotent:
  assumes "Parse rd un path = Inr m"
  shows "Validate m = (None, m)"
proof -
  obtain umcs where v: "Validate umcs = (None, m)"
    using assms by (auto simp: Parse_def split: sum.splits prod.splits option.splits)
  then have ok: "manifest_ok umcs" and m: "m = map defaulted umcs"
    using Validate_ok [of umcs] Validate_result [of umcs] by simp_all
  have "fst (Validate m) = None" using ok unfolding m Validate_ok manifest_ok_defaulted .
  moreover have "map defaulted m = m" by (simp add: m defaulted_idem)
  ultimately show ?thesis using Validate_result [of m] by (metis prod.collapse)
qed

theorem Parse_idempotent_witness:
  "Validate [\<lparr>mc_Name = ''a'', mc_Port = 80, mc_RestartPolicy = ''always''\<rparr>] =
     (None, [\<lparr>mc_Name = ''a'', mc_Port = 80, mc_RestartPolicy = ''always''\<rparr>])"
  by (rule Parse_idempotent [of "\<lambda>p. Inr ''text''"
        "\<lambda>d. Inr [\<lparr>mc_Name = ''a'', mc_Port = 80, mc_RestartPolicy = []\<rparr>]" "''umcs.yaml''"])
     code_simp

end
