(* ===== verification/Supervisor.thy ===== *)
theory Supervisor
  imports Umc_Binaries Manifest
begin

text \<open>
  The supervisor of managed components (\<open>internal/supervisor/supervisor.go\<close>): the table of
  processes, the operations of the API on it, and the monitor goroutine of each process. A
  \<open>*UMCProcess\<close> is an index into a heap, because a monitor keeps its pointer when the table's entry
  is replaced. The operations are functions on the state; the monitors and the operations of
  other goroutines interleave in a step relation.
\<close>

section \<open>State\<close>

datatype go_context = ComponentContext | RequestContext

record command =
  cd_Path :: string
  cd_Env :: "string list"
  cd_Context :: "go_context option" \<comment> \<open>the process is killed when it ends\<close>

record UMCProcess =
  up_ID :: string
  up_Name :: string
  up_Command :: command
  up_PID :: int
  up_Port :: int
  up_Running :: bool
  up_RestartPolicy :: RestartPolicy
  up_RestartCount :: int
  up_LastRestartAt :: "int option" \<comment> \<open>\<open>None\<close> is the zero time\<close>
  up_BackoffSeconds :: int

text \<open>
  Where a monitor is: at the top of its loop, waiting for the process to end, waiting out the
  backoff (in nanoseconds), or returned.
\<close>

datatype monitor = MTop | MWait | MBackoff int | MDone

record supervisor =
  su_KernelSocket :: string
  su_LogLevel :: string
  su_HealthTimeout :: int
  su_GracefulShutdown :: int
  su_heap :: "UMCProcess list"
  su_monitors :: "monitor list" \<comment> \<open>of the process at the same index\<close>
  su_processes :: "nat gomap"
  su_stopped :: bool \<comment> \<open>\<open>stopChan\<close> is closed\<close>
  su_calls :: history
  su_fs :: fs

definition NewSupervisor :: "string \<Rightarrow> string \<Rightarrow> int \<Rightarrow> int \<Rightarrow> fs \<Rightarrow> supervisor" where
  "NewSupervisor kernelSocket logLevel healthTimeout gracefulShutdown fs =
     \<lparr>su_KernelSocket = kernelSocket, su_LogLevel = logLevel,
      su_HealthTimeout = (if healthTimeout = 0 then 5 * second else healthTimeout),
      su_GracefulShutdown = (if gracefulShutdown = 0 then 5 * second else gracefulShutdown),
      su_heap = [], su_monitors = [], su_processes = [], su_stopped = False, su_calls = [], su_fs = fs\<rparr>"

definition set_proc :: "nat \<Rightarrow> UMCProcess \<Rightarrow> supervisor \<Rightarrow> supervisor" where
  "set_proc i p S = S\<lparr>su_heap := (su_heap S)[i := p]\<rparr>"

definition set_monitor :: "nat \<Rightarrow> monitor \<Rightarrow> supervisor \<Rightarrow> supervisor" where
  "set_monitor i m S = S\<lparr>su_monitors := (su_monitors S)[i := m]\<rparr>"

definition log_call :: "call \<Rightarrow> supervisor \<Rightarrow> supervisor" where
  "log_call c S = S\<lparr>su_calls := su_calls S @ [c]\<rparr>"

section \<open>Starting a process\<close>

definition allowed_vars :: "string list" where
  "allowed_vars =
     [''PATH'', ''HOME'', ''USER'', ''LANG'', ''TERM'', ''TMPDIR'', ''TZ'', ''XDG_RUNTIME_DIR'', ''DOCKER_HOST'']"

definition sanitizedEnv :: "umc_host \<Rightarrow> string \<Rightarrow> string \<Rightarrow> string list" where
  "sanitizedEnv U kernelSocket logLevel =
     filter (\<lambda>e. fst (Cut (CHR ''='') e) \<in> set allowed_vars) (uh_environ U) @
     [''KERNEL_SOCKET='' @ kernelSocket, ''LOG_LEVEL='' @ logLevel]"

text \<open>\<open>os.MkdirAll\<close> and \<open>os.WriteFile\<close> for the PID file; their errors are at most logged.\<close>

definition write_pid_file :: "umc_host \<Rightarrow> int \<Rightarrow> fs \<Rightarrow> fs" where
  "write_pid_file U pid fs =
     (case uh_home U of
        Inl e \<Rightarrow> fs
      | Inr homeDir \<Rightarrow>
          (let H = uh_host U;
               pidDir = Join [homeDir, ''.underleaf'', ''run''];
               fs1 = snd (os_mkdir_all H (path_comps H pidDir) fs)
           in case os_create H (path_comps H (Join [pidDir, ''cron_engine.pid''])) 0x180 fs1 of
                (Inl e, fs2) \<Rightarrow> fs2
              | (Inr p, fs2) \<Rightarrow> snd (os_copy H p (show_int pid) fs2)))"

definition new_process :: "umc_host \<Rightarrow> go_context \<Rightarrow> string \<Rightarrow> int \<Rightarrow> string \<Rightarrow> int \<Rightarrow> supervisor \<Rightarrow> UMCProcess" where
  "new_process U ctx umcName port exePath pid S =
     \<lparr>up_ID = umcName, up_Name = umcName,
      up_Command = \<lparr>cd_Path = exePath, cd_Env = sanitizedEnv U (su_KernelSocket S) (su_LogLevel S),
        cd_Context = Some ctx\<rparr>,
      up_PID = pid, up_Port = port, up_Running = True, up_RestartPolicy = RestartPolicyAlways,
      up_RestartCount = 0, up_LastRestartAt = None, up_BackoffSeconds = 1\<rparr>"

text \<open>The process a name stands for, if it is running.\<close>

definition running_as :: "supervisor \<Rightarrow> string \<Rightarrow> UMCProcess option" where
  "running_as S umcName =
     (case map_of (su_processes S) umcName of
        None \<Rightarrow> None
      | Some i \<Rightarrow> if up_Running (su_heap S ! i) then Some (su_heap S ! i) else None)"

definition StartUMC ::
    "umc_host \<Rightarrow> go_context \<Rightarrow> string \<Rightarrow> int \<Rightarrow> supervisor \<Rightarrow> sup_error option \<times> supervisor" where
  "StartUMC U ctx umcName port S =
     (case validateUMCName umcName of
        Some e \<Rightarrow> (Some e, S)
      | None \<Rightarrow>
          if port < 1 \<or> port > 65535 then (Some (PortOutOfRange port), S)
          else
            (case running_as S umcName of
               Some proc \<Rightarrow> (Some (AlreadyRunning umcName (up_PID proc)), S)
             | None \<Rightarrow>
                 (let exePath = findExecutable U umcName (su_fs S);
                      env = sanitizedEnv U (su_KernelSocket S) (su_LogLevel S);
                      S1 = log_call (ProcStart exePath env) S
                  in if exePath = [] then (Some (NoExecutable umcName), S)
                     else
                       (case uh_start U (su_calls S) exePath env of
                          Inl e \<Rightarrow> (Some (StartFailed umcName e), S1)
                        | Inr pid \<Rightarrow>
                            (None, S1\<lparr>su_heap := su_heap S @ [new_process U ctx umcName port exePath pid S],
                              su_monitors := su_monitors S @ [MTop],
                              su_processes := AList.update umcName (length (su_heap S)) (su_processes S),
                              su_fs := (if umcName = ''cron-engine'' then write_pid_file U pid (su_fs S)
                                else su_fs S)\<rparr>)))))"

section \<open>The other operations\<close>

text \<open>
  \<open>StopUMC\<close> has three phases. It looks the process up and reads \<open>Running\<close> without the lock of the
  process; it locks the process and signals it; and when \<open>Wait\<close> has returned, or the timeout has
  passed and the process was killed, it clears \<open>Running\<close> and unlocks. The results of the waits are
  at most logged, the error of a second \<open>Wait\<close> beside the monitor's included.
\<close>

definition stop_look :: "string \<Rightarrow> supervisor \<Rightarrow> sup_error + nat" where
  "stop_look umcName S =
     (case map_of (su_processes S) umcName of
        None \<Rightarrow> Inl (UmcNotFound umcName)
      | Some i \<Rightarrow> if \<not> up_Running (su_heap S ! i) then Inl (UmcNotRunning umcName) else Inr i)"

definition stop_signal :: "nat \<Rightarrow> supervisor \<Rightarrow> supervisor" where
  "stop_signal i S = log_call (ProcInterrupt (up_PID (su_heap S ! i))) S"

definition stop_finish :: "bool \<Rightarrow> nat \<Rightarrow> supervisor \<Rightarrow> supervisor" where
  "stop_finish in_time i S =
     (let proc = su_heap S ! i;
          S1 = (if in_time then S else log_call (ProcKill (up_PID proc)) S)
      in set_proc i (proc\<lparr>up_Running := False\<rparr>) S1)"

text \<open>
  A stop that returns, with nothing in between; \<open>Supervisor_Stops\<close> interleaves the phases, and has
  stops that stay in their wait for ever.
\<close>

definition StopUMC :: "umc_host \<Rightarrow> string \<Rightarrow> supervisor \<Rightarrow> sup_error option \<times> supervisor" where
  "StopUMC U umcName S =
     (case stop_look umcName S of
        Inl e \<Rightarrow> (Some e, S)
      | Inr i \<Rightarrow>
          (let S1 = stop_signal i S;
               in_time = uh_exits_in_time U (su_calls S1) (up_PID (su_heap S1 ! i)) (su_GracefulShutdown S1)
           in (None, stop_finish in_time i S1)))"

definition checkHealth :: "umc_host \<Rightarrow> UMCProcess \<Rightarrow> supervisor \<Rightarrow> bool \<times> supervisor" where
  "checkHealth U proc S =
     (if \<not> up_Running proc then (False, S)
      else
        (let url = ''http://localhost:'' @ show_int (up_Port proc) @ ''/health'';
             S1 = log_call (HttpGet url []) S
         in case uh_health U (su_calls S) url (su_HealthTimeout S) of
              Inl e \<Rightarrow> (False, S1)
            | Inr status \<Rightarrow> (status = 200, S1)))"

definition StatusUMC :: "umc_host \<Rightarrow> string \<Rightarrow> supervisor \<Rightarrow> (sup_error + payload) \<times> supervisor" where
  "StatusUMC U umcName S =
     (case map_of (su_processes S) umcName of
        None \<Rightarrow> (Inl (UmcNotFound umcName), S)
      | Some i \<Rightarrow>
          (let proc = su_heap S ! i;
               status = [(''name'', VStr (up_Name proc)), (''running'', VBool (up_Running proc)),
                         (''pid'', VInt (up_PID proc)), (''port'', VInt (up_Port proc))]
           in if up_Running proc then
                (case checkHealth U proc S of
                   (healthy, S1) \<Rightarrow> (Inr (AList.update ''healthy'' (VBool healthy) status), S1))
              else (Inr status, S)))"

fun status_of_all :: "umc_host \<Rightarrow> nat gomap \<Rightarrow> supervisor \<Rightarrow> payload list \<times> supervisor" where
  "status_of_all U [] S = ([], S)"
| "status_of_all U ((k, i) # rest) S =
     (case StatusUMC U (up_Name (su_heap S ! i)) S of
        (r, S1) \<Rightarrow>
          (case status_of_all U rest S1 of
             (result, S2) \<Rightarrow> ((case r of Inl e \<Rightarrow> [] | Inr status \<Rightarrow> status) # result, S2)))"

definition ListUMCs :: "umc_host \<Rightarrow> iter_order \<Rightarrow> supervisor \<Rightarrow> payload list \<times> supervisor" where
  "ListUMCs U \<pi> S = status_of_all U (gm_range \<pi> R_Processes (su_processes S)) S"

fun stop_all :: "umc_host \<Rightarrow> string list \<Rightarrow> supervisor \<Rightarrow> sup_error list \<times> supervisor" where
  "stop_all U [] S = ([], S)"
| "stop_all U (name # names) S =
     (case StopUMC U name S of
        (r, S1) \<Rightarrow>
          (case stop_all U names S1 of
             (errors, S2) \<Rightarrow> ((case r of None \<Rightarrow> errors | Some e \<Rightarrow> e # errors), S2)))"

definition Shutdown :: "umc_host \<Rightarrow> iter_order \<Rightarrow> supervisor \<Rightarrow> sup_error option \<times> supervisor" where
  "Shutdown U \<pi> S =
     (case stop_all U (gm_keys (gm_range \<pi> R_Processes (su_processes S))) S of
        (errors, S1) \<Rightarrow>
          (let S2 = S1\<lparr>su_stopped := True\<rparr>
           in if \<not> uh_monitors_end U (su_calls S2) then (Some ShutdownTimeout, S2)
              else if errors \<noteq> [] then (Some (ShutdownErrors errors), S2)
              else (None, S2)))"

definition RestartUMC ::
    "umc_host \<Rightarrow> go_context \<Rightarrow> string \<Rightarrow> supervisor \<Rightarrow> sup_error option \<times> supervisor" where
  "RestartUMC U ctx umcName S =
     (case map_of (su_processes S) umcName of
        None \<Rightarrow> (Some (NotFoundUmc umcName), S)
      | Some i \<Rightarrow>
          (let proc = su_heap S ! i in
           if \<not> up_Running proc then (Some (NotRunningUmc umcName), S)
           else
             (case StopUMC U umcName S of
                (Some e, S1) \<Rightarrow> (Some (StopFailed e), S1)
              | (None, S1) \<Rightarrow> StartUMC U ctx umcName (up_Port proc) (log_call (Sleep (second div 2)) S1))))"

definition SetRestartPolicy :: "string \<Rightarrow> RestartPolicy \<Rightarrow> supervisor \<Rightarrow> sup_error option \<times> supervisor" where
  "SetRestartPolicy umcName policy S =
     (case map_of (su_processes S) umcName of
        None \<Rightarrow> (Some (NotFoundUmc umcName), S)
      | Some i \<Rightarrow> (None, set_proc i ((su_heap S ! i)\<lparr>up_RestartPolicy := policy\<rparr>) S))"

definition Install :: "umc_host \<Rightarrow> string \<Rightarrow> string \<Rightarrow> string \<Rightarrow> supervisor \<Rightarrow> sup_error option \<times> supervisor" where
  "Install U umcName artifactURL checksum S =
     (case InstallUMC U umcName artifactURL checksum (su_calls S) (su_fs S) of
        (r, h, fs) \<Rightarrow> (r, S\<lparr>su_calls := h, su_fs := fs\<rparr>))"

section \<open>The monitor\<close>

text \<open>What \<open>Wait\<close> returns: success, an exit error with its code, or another error.\<close>

datatype wait_result = WaitOk | WaitExit int | WaitError

fun exit_code :: "wait_result \<Rightarrow> int" where
  "exit_code WaitOk = 0"
| "exit_code (WaitExit c) = c"
| "exit_code WaitError = 0"

fun should_restart :: "RestartPolicy \<Rightarrow> int \<Rightarrow> bool" where
  "should_restart RestartPolicyAlways exitCode \<longleftrightarrow> True"
| "should_restart RestartPolicyOnFailure exitCode \<longleftrightarrow> exitCode \<noteq> 0"
| "should_restart RestartPolicyNever exitCode \<longleftrightarrow> False"

definition next_backoff :: "int \<Rightarrow> UMCProcess \<Rightarrow> int \<times> UMCProcess" where
  "next_backoff now proc =
     (let wait = up_BackoffSeconds proc * second;
          (backoff, secs) =
            (if wait > 60 * second then (60 * second, up_BackoffSeconds proc)
             else (wait, if up_BackoffSeconds proc * 2 > 60 then 60 else up_BackoffSeconds proc * 2));
          (backoff, secs) =
            (case up_LastRestartAt proc of
               None \<Rightarrow> (backoff, secs)
             | Some t \<Rightarrow> if now - t > 5 * 60 * second then (second, 1) else (backoff, secs))
      in (backoff, proc\<lparr>up_RestartCount := up_RestartCount proc + 1, up_BackoffSeconds := secs,
            up_LastRestartAt := Some now\<rparr>))"

definition monitor_top :: "nat \<Rightarrow> supervisor \<Rightarrow> supervisor" where
  "monitor_top i S = set_monitor i (if su_stopped S then MDone else MWait) S"

text \<open>From the return of \<open>Wait\<close> to the wait for the backoff.\<close>

definition monitor_exit :: "umc_host \<Rightarrow> wait_result \<Rightarrow> nat \<Rightarrow> supervisor \<Rightarrow> supervisor" where
  "monitor_exit U r i S =
     (let proc = (su_heap S ! i)\<lparr>up_Running := False\<rparr>;
          S1 = set_proc i proc S
      in if su_stopped S \<or> \<not> should_restart (up_RestartPolicy proc) (exit_code r) then set_monitor i MDone S1
         else
           (case next_backoff (uh_now U (su_calls S)) proc of
              (backoff, proc') \<Rightarrow> set_monitor i (MBackoff backoff) (set_proc i proc' S1)))"

text \<open>After the backoff.\<close>

definition monitor_over :: "umc_host \<Rightarrow> nat \<Rightarrow> supervisor \<Rightarrow> supervisor" where
  "monitor_over U i S =
     (let proc = su_heap S ! i;
          exePath = findExecutable U (up_Name proc) (su_fs S);
          env = sanitizedEnv U (su_KernelSocket S) (su_LogLevel S);
          S1 = log_call (ProcStart exePath env) S
      in if exePath = [] then set_monitor i MDone S
         else
           (case uh_start U (su_calls S) exePath env of
              Inl e \<Rightarrow> set_monitor i MDone S1
            | Inr pid \<Rightarrow>
                set_monitor i MTop (set_proc i (proc\<lparr>up_Command := \<lparr>cd_Path = exePath, cd_Env = env,
                  cd_Context = None\<rparr>, up_PID := pid, up_Running := True\<rparr>) S1)))"

text \<open>
  The interleaving of API calls and monitors. \<open>RestartUMC\<close> is a stop, a pause and a start, and
  \<open>Shutdown\<close> the stops in turn and then the closing of \<open>stopChan\<close>, between which other goroutines
  run. A process may end at any time, and the rest of the program makes its calls at any time.
\<close>

inductive sup_step :: "umc_host \<Rightarrow> supervisor \<Rightarrow> supervisor \<Rightarrow> bool" for U :: umc_host where
  start: "StartUMC U ctx name port S = (r, S') \<Longrightarrow> sup_step U S S'"
| stop: "StopUMC U name S = (r, S') \<Longrightarrow> sup_step U S S'"
| status: "StatusUMC U name S = (st, S') \<Longrightarrow> sup_step U S S'"
| policy: "SetRestartPolicy name p S = (r, S') \<Longrightarrow> sup_step U S S'"
| install: "Install U name url checksum S = (r, S') \<Longrightarrow> sup_step U S S'"
| elsewhere: "(\<And>exe env. c \<noteq> ProcStart exe env) \<Longrightarrow> sup_step U S (log_call c S)"
| close: "sup_step U S (S\<lparr>su_stopped := True\<rparr>)"
| top: "i < length (su_monitors S) \<Longrightarrow> su_monitors S ! i = MTop \<Longrightarrow> sup_step U S (monitor_top i S)"
| exit: "i < length (su_monitors S) \<Longrightarrow> su_monitors S ! i = MWait \<Longrightarrow> sup_step U S (monitor_exit U w i S)"
| over: "i < length (su_monitors S) \<Longrightarrow> su_monitors S ! i = MBackoff d \<Longrightarrow> sup_step U S (monitor_over U i S)"
| over_stop: "i < length (su_monitors S) \<Longrightarrow> su_monitors S ! i = MBackoff d \<Longrightarrow> su_stopped S \<Longrightarrow>
    sup_step U S (set_monitor i MDone S)"

inductive_cases sup_stepE: "sup_step U S S'"

lemmas stop_defs = StopUMC_def stop_look_def stop_signal_def stop_finish_def

lemmas sup_ops = StartUMC_def stop_defs StatusUMC_def checkHealth_def SetRestartPolicy_def Install_def
  monitor_top_def monitor_exit_def monitor_over_def set_proc_def set_monitor_def log_call_def

section \<open>The invariant\<close>

definition start_ok :: "umc_host \<Rightarrow> supervisor \<Rightarrow> string \<Rightarrow> string list \<Rightarrow> bool" where
  "start_ok U S exe env \<longleftrightarrow> env = sanitizedEnv U (su_KernelSocket S) (su_LogLevel S) \<and>
     (\<exists>name. validateUMCName name = None \<and> exe \<in> set (search_paths U name))"

definition proc_ok :: "umc_host \<Rightarrow> supervisor \<Rightarrow> UMCProcess \<Rightarrow> bool" where
  "proc_ok U S p \<longleftrightarrow> validateUMCName (up_Name p) = None \<and> up_Port p \<in> {1..65535} \<and>
     up_BackoffSeconds p \<in> {1..60} \<and> start_ok U S (cd_Path (up_Command p)) (cd_Env (up_Command p))"

definition monitor_ok :: "monitor \<Rightarrow> bool" where
  "monitor_ok m \<longleftrightarrow> (\<forall>d. m = MBackoff d \<longrightarrow> d \<in> {second..60 * second})"

definition call_ok :: "umc_host \<Rightarrow> supervisor \<Rightarrow> call \<Rightarrow> bool" where
  "call_ok U S c \<longleftrightarrow> (\<forall>exe env. c = ProcStart exe env \<longrightarrow> start_ok U S exe env)"

definition table_ok :: "supervisor \<Rightarrow> bool" where
  "table_ok S \<longleftrightarrow> length (su_monitors S) = length (su_heap S) \<and> gm_wf (su_processes S) \<and>
     (\<forall>n i. map_of (su_processes S) n = Some i \<longrightarrow> i < length (su_heap S) \<and> up_Name (su_heap S ! i) = n)"

definition sup_ok :: "umc_host \<Rightarrow> supervisor \<Rightarrow> bool" where
  "sup_ok U S \<longleftrightarrow> table_ok S \<and> (\<forall>p \<in> set (su_heap S). proc_ok U S p) \<and>
     (\<forall>m \<in> set (su_monitors S). monitor_ok m) \<and> (\<forall>c \<in> set (su_calls S). call_ok U S c)"

lemma state_simps [simp]:
  "su_heap (set_monitor i m S) = su_heap S" "su_monitors (set_monitor i m S) = (su_monitors S)[i := m]"
  "su_processes (set_monitor i m S) = su_processes S" "su_calls (set_monitor i m S) = su_calls S"
  "su_stopped (set_monitor i m S) = su_stopped S" "su_fs (set_monitor i m S) = su_fs S"
  "su_heap (set_proc i p S) = (su_heap S)[i := p]" "su_monitors (set_proc i p S) = su_monitors S"
  "su_processes (set_proc i p S) = su_processes S" "su_calls (set_proc i p S) = su_calls S"
  "su_stopped (set_proc i p S) = su_stopped S" "su_fs (set_proc i p S) = su_fs S"
  "su_heap (log_call c S) = su_heap S" "su_monitors (log_call c S) = su_monitors S"
  "su_processes (log_call c S) = su_processes S" "su_calls (log_call c S) = su_calls S @ [c]"
  "su_stopped (log_call c S) = su_stopped S" "su_fs (log_call c S) = su_fs S"
  "su_KernelSocket (set_monitor i m S) = su_KernelSocket S" "su_KernelSocket (set_proc i p S) = su_KernelSocket S"
  "su_KernelSocket (log_call c S) = su_KernelSocket S" "su_LogLevel (log_call c S) = su_LogLevel S"
  "su_LogLevel (set_monitor i m S) = su_LogLevel S" "su_LogLevel (set_proc i p S) = su_LogLevel S"
  by (simp_all add: set_monitor_def set_proc_def log_call_def)

lemma same_config:
  "su_KernelSocket S' = su_KernelSocket S \<Longrightarrow> su_LogLevel S' = su_LogLevel S \<Longrightarrow>
    start_ok U S' = start_ok U S \<and> proc_ok U S' = proc_ok U S \<and> call_ok U S' = call_ok U S"
  by (auto simp: fun_eq_iff start_ok_def proc_ok_def call_ok_def)

lemma config_simps [simp]:
  "start_ok U (set_monitor i m S) = start_ok U S" "start_ok U (set_proc i p S) = start_ok U S"
  "start_ok U (log_call c S) = start_ok U S" "proc_ok U (set_monitor i m S) = proc_ok U S"
  "proc_ok U (set_proc i p S) = proc_ok U S" "proc_ok U (log_call c S) = proc_ok U S"
  "call_ok U (set_monitor i m S) = call_ok U S" "call_ok U (set_proc i p S) = call_ok U S"
  "call_ok U (log_call c S) = call_ok U S"
  using same_config [of "set_monitor i m S" S U] same_config [of "set_proc i p S" S U]
    same_config [of "log_call c S" S U] by simp_all

lemma sup_ok_set_monitor: "sup_ok U S \<Longrightarrow> monitor_ok m \<Longrightarrow> sup_ok U (set_monitor i m S)"
  by (auto simp: sup_ok_def table_ok_def dest!: set_update_subset_insert [THEN subsetD])

lemma sup_ok_log: "sup_ok U S \<Longrightarrow> call_ok U S c \<Longrightarrow> sup_ok U (log_call c S)"
  by (auto simp: sup_ok_def table_ok_def)

lemma sup_ok_set_proc:
  assumes "sup_ok U S" and "proc_ok U S p" and "up_Name p = up_Name (su_heap S ! i)"
  shows "sup_ok U (set_proc i p S)"
proof (cases "i < length (su_heap S)")
  case True
  then show ?thesis using assms
    by (auto simp: sup_ok_def table_ok_def nth_list_update dest!: set_update_subset_insert [THEN subsetD])
next
  case False
  then have "set_proc i p S = S" by (cases S) (simp add: set_proc_def list_update_beyond)
  then show ?thesis using assms(1) by simp
qed

lemma sup_ok_proc: "sup_ok U S \<Longrightarrow> map_of (su_processes S) n = Some i \<Longrightarrow>
    i < length (su_heap S) \<and> up_Name (su_heap S ! i) = n \<and> proc_ok U S (su_heap S ! i)"
  by (simp add: sup_ok_def table_ok_def)

lemma sup_ok_monitored: "sup_ok U S \<Longrightarrow> i < length (su_monitors S) \<Longrightarrow> proc_ok U S (su_heap S ! i)"
  by (simp add: sup_ok_def table_ok_def)

lemma find_in_search: "findExecutable U name fs \<noteq> [] \<Longrightarrow> findExecutable U name fs \<in> set (search_paths U name)"
  using first_executable_file by (fastforce simp: findExecutable_def)

lemma StartUMC_cases [consumes 1, case_names refused failed started]:
  assumes "StartUMC U ctx name port S = (r, S')"
  obtains (refused) "r \<noteq> None" "S' = S"
  | (failed) exe e where "r = Some (StartFailed name e)" "exe = findExecutable U name (su_fs S)" "exe \<noteq> []"
      "validateUMCName name = None" "S' = log_call (ProcStart exe (sanitizedEnv U (su_KernelSocket S) (su_LogLevel S))) S"
  | (started) exe pid where "r = None" "exe = findExecutable U name (su_fs S)" "exe \<noteq> []"
      "validateUMCName name = None" "port \<in> {1..65535}" "running_as S name = None"
      "S' = (log_call (ProcStart exe (sanitizedEnv U (su_KernelSocket S) (su_LogLevel S))) S)
        \<lparr>su_heap := su_heap S @ [new_process U ctx name port exe pid S], su_monitors := su_monitors S @ [MTop],
         su_processes := AList.update name (length (su_heap S)) (su_processes S),
         su_fs := (if name = ''cron-engine'' then write_pid_file U pid (su_fs S) else su_fs S)\<rparr>"
proof (cases "validateUMCName name = None \<and> port \<in> {1..65535} \<and> running_as S name = None \<and>
    findExecutable U name (su_fs S) \<noteq> []")
  case False
  then have "r \<noteq> None \<and> S' = S"
  proof (cases "validateUMCName name")
    case (Some e)
    then have "StartUMC U ctx name port S = (Some e, S)" by (simp add: StartUMC_def)
    with assms show ?thesis by auto
  next
    case None
    with False assms show ?thesis by (auto simp: StartUMC_def Let_def split: option.splits if_splits)
  qed
  then show ?thesis using refused by simp
next
  case True
  then show ?thesis
  proof (cases "uh_start U (su_calls S) (findExecutable U name (su_fs S))
      (sanitizedEnv U (su_KernelSocket S) (su_LogLevel S))")
    case (Inl e)
    then show ?thesis using True assms by (intro failed [of e]) (auto simp: StartUMC_def Let_def)
  next
    case (Inr pid)
    then show ?thesis using True assms by (intro started [of _ pid]) (auto simp: StartUMC_def Let_def)
  qed
qed

lemma start_ok_found: "validateUMCName name = None \<Longrightarrow> findExecutable U name fs \<noteq> [] \<Longrightarrow>
    start_ok U S (findExecutable U name fs) (sanitizedEnv U (su_KernelSocket S) (su_LogLevel S))"
  using find_in_search by (auto simp: start_ok_def)

lemma start_keeps_ok:
  assumes "StartUMC U ctx name port S = (r, S')" and "sup_ok U S"
  shows "sup_ok U S'"
  using assms(1)
proof (cases rule: StartUMC_cases)
  case (failed exe e)
  then show ?thesis using assms(2) start_ok_found by (auto intro!: sup_ok_log simp: call_ok_def)
next
  case (started exe pid)
  let ?S = "log_call (ProcStart exe (sanitizedEnv U (su_KernelSocket S) (su_LogLevel S))) S"
  have s: "start_ok U S exe (sanitizedEnv U (su_KernelSocket S) (su_LogLevel S))"
    using start_ok_found started(2-4) by simp
  then have "proc_ok U S (new_process U ctx name port exe pid S)"
    using started(4,5) by (simp add: proc_ok_def new_process_def)
  moreover have "sup_ok U ?S" using assms(2) s by (intro sup_ok_log) (simp_all add: call_ok_def)
  moreover have "up_Name (new_process U ctx name port exe pid S) = name" by (simp add: new_process_def)
  moreover have "start_ok U S' = start_ok U S \<and> proc_ok U S' = proc_ok U S \<and> call_ok U S' = call_ok U S"
    using started(7) by (intro same_config) simp_all
  ultimately show ?thesis unfolding sup_ok_def table_ok_def using started(7)
    by (auto simp: nth_append gomap_simps monitor_ok_def less_SucI split: if_splits)
qed (use assms(2) in simp)

lemma stop_keeps_ok: "StopUMC U name S = (r, S') \<Longrightarrow> sup_ok U S \<Longrightarrow> sup_ok U S'"
  by (auto simp: stop_defs Let_def proc_ok_def call_ok_def split: option.splits if_splits
      intro!: sup_ok_set_proc sup_ok_log dest: sup_ok_proc)

lemma status_keeps_ok: "StatusUMC U name S = (st, S') \<Longrightarrow> sup_ok U S \<Longrightarrow> sup_ok U S'"
  by (auto simp: StatusUMC_def checkHealth_def Let_def call_ok_def split: option.splits if_splits sum.splits
      intro!: sup_ok_log)

lemma policy_keeps_ok: "SetRestartPolicy name p S = (r, S') \<Longrightarrow> sup_ok U S \<Longrightarrow> sup_ok U S'"
  by (auto simp: SetRestartPolicy_def proc_ok_def split: option.splits intro!: sup_ok_set_proc dest: sup_ok_proc)

lemma install_calls: "InstallUMC U name url checksum h fs = (r, h', fs') \<Longrightarrow> h' = h \<or> h' = h @ [HttpGet url []]"
  by (auto simp: InstallUMC_def Let_def split: option.splits sum.splits if_splits prod.splits)

lemma install_keeps_ok: "Install U name url checksum S = (r, S') \<Longrightarrow> sup_ok U S \<Longrightarrow> sup_ok U S'"
proof -
  assume a: "Install U name url checksum S = (r, S')" "sup_ok U S"
  then obtain h fs where h: "S' = S\<lparr>su_calls := h, su_fs := fs\<rparr>" "set h \<subseteq> set (su_calls S) \<union> {HttpGet url []}"
    by (auto simp: Install_def split: prod.splits dest!: install_calls)
  have "start_ok U S' = start_ok U S \<and> proc_ok U S' = proc_ok U S \<and> call_ok U S' = call_ok U S"
    using h by (intro same_config) simp_all
  with a(2) h show ?thesis
    by (auto simp: sup_ok_def table_ok_def call_ok_def dest!: subsetD)
qed

lemma next_backoff_ok:
  assumes "next_backoff now p = (d, p')" and "proc_ok U S p"
  shows "monitor_ok (MBackoff d)" "proc_ok U S p'" "up_Name p' = up_Name p" "up_Running p' = up_Running p"
    "up_Command p' = up_Command p" "up_Port p' = up_Port p" "up_RestartPolicy p' = up_RestartPolicy p"
  using assms
  by (auto simp: next_backoff_def proc_ok_def monitor_ok_def second_def Let_def split: if_splits option.splits)

lemma monitor_ok_simple [simp]: "monitor_ok MTop" "monitor_ok MWait" "monitor_ok MDone"
  by (simp_all add: monitor_ok_def)

lemma top_keeps_ok: "sup_ok U S \<Longrightarrow> sup_ok U (monitor_top i S)"
  by (simp add: monitor_top_def sup_ok_set_monitor)

lemma exit_keeps_ok:
  assumes "sup_ok U S" and "i < length (su_monitors S)"
  shows "sup_ok U (monitor_exit U w i S)"
proof -
  let ?p = "(su_heap S ! i)\<lparr>up_Running := False\<rparr>"
  have p: "proc_ok U S ?p" using sup_ok_monitored [OF assms] by (simp add: proc_ok_def)
  have i: "i < length (su_heap S)" using assms by (simp add: sup_ok_def table_ok_def)
  have 1: "sup_ok U (set_proc i ?p S)" using assms(1) p by (intro sup_ok_set_proc) simp_all
  obtain d p' where n: "next_backoff (uh_now U (su_calls S)) ?p = (d, p')" by fastforce
  note n' = next_backoff_ok [OF n p]
  have "sup_ok U (set_proc i p' (set_proc i ?p S))"
    using n'(2,3) i by (intro sup_ok_set_proc [OF 1]) simp_all
  then have "sup_ok U (set_monitor i (MBackoff d) (set_proc i p' (set_proc i ?p S)))"
    using n'(1) by (rule sup_ok_set_monitor)
  then show ?thesis using 1 n by (simp add: monitor_exit_def Let_def sup_ok_set_monitor)
qed

lemma over_keeps_ok:
  assumes "sup_ok U S" and "i < length (su_monitors S)"
  shows "sup_ok U (monitor_over U i S)"
proof -
  let ?p = "su_heap S ! i" and ?env = "sanitizedEnv U (su_KernelSocket S) (su_LogLevel S)"
  let ?exe = "findExecutable U (up_Name ?p) (su_fs S)"
  have p: "proc_ok U S ?p" using sup_ok_monitored [OF assms] .
  have s: "start_ok U S ?exe ?env" if "?exe \<noteq> []"
    using p that by (intro start_ok_found) (simp_all add: proc_ok_def)
  have l: "sup_ok U (log_call (ProcStart ?exe ?env) S)" if "?exe \<noteq> []"
    using assms(1) s [OF that] by (intro sup_ok_log) (simp_all add: call_ok_def)
  have "sup_ok U (set_monitor i MTop (set_proc i (?p\<lparr>up_Command := \<lparr>cd_Path = ?exe, cd_Env = ?env,
      cd_Context = None\<rparr>, up_PID := pid, up_Running := True\<rparr>) (log_call (ProcStart ?exe ?env) S)))"
    if "?exe \<noteq> []" for pid
    using l [OF that] s [OF that] p by (intro sup_ok_set_monitor sup_ok_set_proc) (simp_all add: proc_ok_def)
  then show ?thesis using assms(1) l
    by (auto simp: monitor_over_def Let_def split: sum.splits intro!: sup_ok_set_monitor)
qed

lemma step_keeps_ok: "sup_step U S S' \<Longrightarrow> sup_ok U S \<Longrightarrow> sup_ok U S'"
proof (induction rule: sup_step.induct)
  case (close S)
  have "start_ok U (S\<lparr>su_stopped := True\<rparr>) = start_ok U S \<and> proc_ok U (S\<lparr>su_stopped := True\<rparr>) = proc_ok U S \<and>
      call_ok U (S\<lparr>su_stopped := True\<rparr>) = call_ok U S" by (intro same_config) simp_all
  then show ?case using close by (simp add: sup_ok_def table_ok_def)
qed (simp_all add: start_keeps_ok stop_keeps_ok status_keeps_ok policy_keeps_ok install_keeps_ok top_keeps_ok
    exit_keeps_ok over_keeps_ok sup_ok_set_monitor sup_ok_log call_ok_def)

lemma reachable_ok: "(sup_step U)\<^sup>*\<^sup>* (NewSupervisor ks ll ht gs fs) S \<Longrightarrow> sup_ok U S"
proof (induction rule: rtranclp_induct)
  case base
  show ?case by (simp add: NewSupervisor_def sup_ok_def table_ok_def)
qed (rule step_keeps_ok)

lemma config_kept: "(sup_step U)\<^sup>*\<^sup>* S S' \<Longrightarrow> su_KernelSocket S' = su_KernelSocket S \<and> su_LogLevel S' = su_LogLevel S"
proof (induction rule: rtranclp_induct)
  case (step S1 S2)
  from step(2) have "su_KernelSocket S2 = su_KernelSocket S1 \<and> su_LogLevel S2 = su_LogLevel S1"
    by (induction rule: sup_step.induct)
       (auto simp: StartUMC_def stop_defs StatusUMC_def checkHealth_def SetRestartPolicy_def Install_def
          monitor_top_def monitor_exit_def monitor_over_def Let_def
        split: option.splits sum.splits if_splits prod.splits)
  then show ?case using step.IH by simp
qed simp

section \<open>Safety of what is started\<close>

lemma config_kept_new: "(sup_step U)\<^sup>*\<^sup>* (NewSupervisor ks ll ht gs fs) S \<Longrightarrow>
    su_KernelSocket S = ks \<and> su_LogLevel S = ll"
  using config_kept [of U "NewSupervisor ks ll ht gs fs" S] by (simp add: NewSupervisor_def)

text \<open>
  C9. However the operations and the monitors interleave, every process ever started has as its
  executable one of the three places searched for a valid name, and as its environment the kernel
  socket, the log level, and inherited variables of the allow-list only.
\<close>
theorem started_safely:
  assumes "(sup_step U)\<^sup>*\<^sup>* (NewSupervisor ks ll ht gs fs) S" and "ProcStart exe env \<in> set (su_calls S)"
  shows "(\<exists>name. validateUMCName name = None \<and> exe \<in> set (search_paths U name)) \<and>
    (\<forall>v. v \<in> set env \<longleftrightarrow> v = ''KERNEL_SOCKET='' @ ks \<or> v = ''LOG_LEVEL='' @ ll \<or>
      v \<in> set (uh_environ U) \<and> fst (Cut (CHR ''='') v) \<in> set allowed_vars)"
proof -
  have "start_ok U S exe env"
    using reachable_ok [OF assms(1)] assms(2) by (auto simp: sup_ok_def call_ok_def)
  then show ?thesis using config_kept_new [OF assms(1)] by (auto simp: start_ok_def sanitizedEnv_def)
qed

text \<open>
  C21. In every reachable state the backoff of each process lies between 1 and 60 seconds, and so
  does the time each monitor waits before a restart; ports are valid, and every entry of the
  table is the process of its own name.
\<close>
theorem backoff_bounded:
  assumes "(sup_step U)\<^sup>*\<^sup>* (NewSupervisor ks ll ht gs fs) S"
  shows "(\<forall>p \<in> set (su_heap S). 1 \<le> up_BackoffSeconds p \<and> up_BackoffSeconds p \<le> 60 \<and>
      1 \<le> up_Port p \<and> up_Port p \<le> 65535) \<and>
    (\<forall>d. MBackoff d \<in> set (su_monitors S) \<longrightarrow> second \<le> d \<and> d \<le> 60 * second) \<and>
    (\<forall>n i. map_of (su_processes S) n = Some i \<longrightarrow> i < length (su_heap S) \<and> up_Name (su_heap S ! i) = n)"
  using reachable_ok [OF assms] by (fastforce simp: sup_ok_def table_ok_def proc_ok_def monitor_ok_def)

section \<open>Restarts\<close>

text \<open>The delays of a process that keeps ending, restarted at the given times.\<close>

fun backoffs :: "int list \<Rightarrow> UMCProcess \<Rightarrow> int list" where
  "backoffs [] proc = []"
| "backoffs (t # ts) proc = (case next_backoff t proc of (d, proc') \<Rightarrow> d # backoffs ts proc')"

lemma backoffs_from:
  assumes "up_BackoffSeconds proc = min (2 ^ k) 60" and "up_LastRestartAt proc = Some t0"
    and "\<forall>i < length ts. ts ! i - (t0 # ts) ! i \<le> 5 * 60 * second"
  shows "backoffs ts proc = map (\<lambda>i. min (2 ^ i) 60 * second) [k..<k + length ts]"
  using assms
proof (induction ts arbitrary: proc k t0)
  case (Cons t ts)
  have t: "t - t0 \<le> 5 * 60 * second" using Cons.prems(3) by force
  have m: "(if min ((2::int) ^ k) 60 * 2 > 60 then 60 else min ((2::int) ^ k) 60 * 2) = min (2 ^ Suc k) 60"
    by (auto simp: min_def)
  have b: "next_backoff t proc = (min (2 ^ k) 60 * second, proc\<lparr>up_RestartCount := up_RestartCount proc + 1,
      up_BackoffSeconds := min (2 ^ Suc k) 60, up_LastRestartAt := Some t\<rparr>)"
    using t m Cons.prems(1,2) by (simp add: next_backoff_def second_def Let_def)
  have "backoffs ts (proc\<lparr>up_RestartCount := up_RestartCount proc + 1, up_BackoffSeconds := min (2 ^ Suc k) 60,
      up_LastRestartAt := Some t\<rparr>) = map (\<lambda>i. min (2 ^ i) 60 * second) [Suc k..<Suc k + length ts]"
    using Cons.prems(3) by (intro Cons.IH) (auto simp: all_less_SucI)
  then show ?case using b by (simp add: upt_conv_Cons del: upt_Suc)
qed simp

text \<open>
  C33. A fresh process that keeps ending, each time less than five minutes after its last restart,
  is restarted after 1, 2, 4, 8, 16, 32 and then always 60 seconds.
\<close>
theorem backoff_doubles:
  assumes "\<forall>i < length ts - 1. ts ! Suc i - ts ! i \<le> 5 * 60 * second"
  shows "backoffs ts (new_process U ctx name port exe pid S) =
    map (\<lambda>i. min (2 ^ i) 60 * second) [0..<length ts]"
proof (cases ts)
  case (Cons t ts')
  let ?p = "new_process U ctx name port exe pid S"
  have b: "next_backoff t ?p = (second, ?p\<lparr>up_RestartCount := 1, up_BackoffSeconds := 2, up_LastRestartAt := Some t\<rparr>)"
    by (simp add: next_backoff_def new_process_def second_def Let_def)
  have "backoffs ts' (?p\<lparr>up_RestartCount := 1, up_BackoffSeconds := 2, up_LastRestartAt := Some t\<rparr>) =
      map (\<lambda>i. min (2 ^ i) 60 * second) [1..<1 + length ts']"
    using assms Cons by (intro backoffs_from [where ?t0.0 = t]) (auto simp: nth_Cons split: nat.splits)
  then show ?thesis using b Cons by (simp add: upt_conv_Cons del: upt_Suc)
qed simp

text \<open>
  C32. The monitor's decision when its process has ended: it restarts under \<open>always\<close>, under
  \<open>on-failure\<close> only after an exit error with a code other than 0, and never under \<open>never\<close> or once
  the supervisor shuts down. If it does not restart, it is done.
\<close>
theorem monitor_decides:
  assumes "i < length (su_monitors S)" and "length (su_monitors S) = length (su_heap S)"
    and "S' = monitor_exit U w i S" and "policy = up_RestartPolicy (su_heap S ! i)"
    and "restarts \<longleftrightarrow> \<not> su_stopped S \<and> (policy = RestartPolicyAlways \<or>
      policy = RestartPolicyOnFailure \<and> (\<exists>c. w = WaitExit c \<and> c \<noteq> 0))"
  shows "\<not> up_Running (su_heap S' ! i) \<and> su_calls S' = su_calls S \<and>
    (if restarts then (\<exists>d. su_monitors S' ! i = MBackoff d) \<and>
       up_RestartCount (su_heap S' ! i) = up_RestartCount (su_heap S ! i) + 1
     else su_monitors S' ! i = MDone)"
proof -
  have "restarts \<longleftrightarrow> \<not> su_stopped S \<and> should_restart policy (exit_code w)"
    unfolding assms(5) by (cases policy; cases w) simp_all
  then show ?thesis using assms(1,2,4) unfolding assms(3)
    by (auto simp: monitor_exit_def next_backoff_def Let_def split: option.splits prod.splits)
qed

section \<open>Restarts nobody asked for\<close>

lemma monitor_restarts:
  assumes "i < length (su_monitors S)" and "length (su_monitors S) = length (su_heap S)"
    and "su_monitors S ! i = MWait" and "\<not> su_stopped S"
    and "up_RestartPolicy (su_heap S ! i) = RestartPolicyAlways"
    and "findExecutable U (up_Name (su_heap S ! i)) (su_fs S) = exe" and "exe \<noteq> []"
    and "env = sanitizedEnv U (su_KernelSocket S) (su_LogLevel S)"
    and "uh_start U (su_calls S) exe env = Inr pid"
  obtains S2 p2 where "(sup_step U)\<^sup>*\<^sup>* S S2" "su_heap S2 = (su_heap S)[i := p2]" "up_Running p2" "up_PID p2 = pid"
    "up_Name p2 = up_Name (su_heap S ! i)" "up_Port p2 = up_Port (su_heap S ! i)" "su_processes S2 = su_processes S"
    "su_stopped S2 = su_stopped S" "su_monitors S2 = (su_monitors S)[i := MTop]" "su_fs S2 = su_fs S"
    "su_calls S2 = su_calls S @ [ProcStart exe env]"
proof -
  let ?p = "(su_heap S ! i)\<lparr>up_Running := False\<rparr>" and ?S1 = "monitor_exit U WaitOk i S"
  obtain d p' where n: "next_backoff (uh_now U (su_calls S)) ?p = (d, p')" by fastforce
  then have p': "up_Name p' = up_Name ?p" "up_Port p' = up_Port ?p"
    by (auto simp: next_backoff_def Let_def split: option.splits if_splits)
  have S1: "?S1 = set_monitor i (MBackoff d) (set_proc i p' (set_proc i ?p S))"
    using assms(4,5) n by (simp add: monitor_exit_def Let_def)
  have h1: "su_heap ?S1 ! i = p'" using assms(1,2) by (simp add: S1)
  let ?p2 = "p'\<lparr>up_Command := \<lparr>cd_Path = exe, cd_Env = env, cd_Context = None\<rparr>, up_PID := pid, up_Running := True\<rparr>"
  have S2: "monitor_over U i ?S1 = set_monitor i MTop (set_proc i ?p2 (log_call (ProcStart exe env) ?S1))"
    using assms(6-9) h1 p' by (simp add: monitor_over_def Let_def S1)
  have "sup_step U S ?S1" by (rule sup_step.exit [OF assms(1,3)])
  moreover have "sup_step U ?S1 (monitor_over U i ?S1)"
    by (rule sup_step.over [where d = d]) (use assms(1) in \<open>simp_all add: S1\<close>)
  ultimately have "(sup_step U)\<^sup>*\<^sup>* S (monitor_over U i ?S1)" by simp
  then show ?thesis by (rule that [of _ ?p2]) (use p' in \<open>simp_all add: S2 [unfolded S1] S1\<close>)
qed

lemma StopUMC_done:
  assumes "StopUMC U name S = (None, S')"
  obtains i cs where "map_of (su_processes S) name = Some i" "up_Running (su_heap S ! i)"
    "su_heap S' = (su_heap S)[i := (su_heap S ! i)\<lparr>up_Running := False\<rparr>]" "su_processes S' = su_processes S"
    "su_monitors S' = su_monitors S" "su_stopped S' = su_stopped S" "su_fs S' = su_fs S"
    "su_calls S' = su_calls S @ cs" "su_KernelSocket S' = su_KernelSocket S" "su_LogLevel S' = su_LogLevel S"
  using assms by (auto simp: stop_defs Let_def split: option.splits if_splits)

text \<open>
  Stopping a component does not keep it stopped: a new component has the policy \<open>always\<close>, and
  while its monitor waits for the process, a successful stop makes the monitor start it again,
  without any further request.
\<close>
theorem stop_undone:
  assumes "(sup_step U)\<^sup>*\<^sup>* (NewSupervisor ks ll ht gs fs) S" and "StopUMC U name S = (None, S')"
    and "map_of (su_processes S) name = Some i" and "up_RestartPolicy (su_heap S ! i) = RestartPolicyAlways"
    and "su_monitors S ! i = MWait" and "\<not> su_stopped S"
    and "findExecutable U name (su_fs S) \<noteq> []"
    and "\<forall>h env. \<exists>pid. uh_start U h (findExecutable U name (su_fs S)) env = Inr pid"
  shows "running_as S' name = None \<and>
    (\<exists>S2. (sup_step U)\<^sup>*\<^sup>* S' S2 \<and> su_processes S2 = su_processes S \<and> running_as S2 name \<noteq> None)"
proof -
  obtain cs where s: "su_heap S' = (su_heap S)[i := (su_heap S ! i)\<lparr>up_Running := False\<rparr>]" "su_processes S' = su_processes S"
    "su_monitors S' = su_monitors S" "su_stopped S' = su_stopped S" "su_fs S' = su_fs S"
    using assms(2,3) by (auto elim!: StopUMC_done)
  note ok = reachable_ok [OF assms(1)]
  have i: "i < length (su_heap S)" "up_Name (su_heap S ! i) = name" "length (su_monitors S) = length (su_heap S)"
    using sup_ok_proc [OF ok assms(3)] ok by (simp_all add: sup_ok_def table_ok_def)
  obtain pid where pid: "uh_start U (su_calls S') (findExecutable U name (su_fs S))
      (sanitizedEnv U (su_KernelSocket S') (su_LogLevel S')) = Inr pid" using assms(8) by blast
  obtain S2 p2 where S2: "(sup_step U)\<^sup>*\<^sup>* S' S2" "su_heap S2 = (su_heap S')[i := p2]" "up_Running p2"
      "su_processes S2 = su_processes S'"
    by (rule monitor_restarts [OF _ _ _ _ _ _ _ refl pid, of i]) (use s i assms(4-7) in auto)
  then show ?thesis using s i assms(3) by (auto simp: running_as_def)
qed

text \<open>
  C25. A restart of a component leaves two instances: the monitor of the old process starts it
  again as well. Both run under the same name and port, and the old one is in no table entry, so
  that no operation can reach it.
\<close>
theorem restart_duplicates:
  assumes "(sup_step U)\<^sup>*\<^sup>* (NewSupervisor ks ll ht gs fs) S" and "RestartUMC U ctx name S = (None, S')"
    and "map_of (su_processes S) name = Some i" and "up_RestartPolicy (su_heap S ! i) = RestartPolicyAlways"
    and "su_monitors S ! i = MWait" and "\<not> su_stopped S" and "findExecutable U name (su_fs S') \<noteq> []"
    and "\<forall>h env. \<exists>pid. uh_start U h (findExecutable U name (su_fs S')) env = Inr pid"
  shows "\<exists>S2 j. (sup_step U)\<^sup>*\<^sup>* S' S2 \<and> map_of (su_processes S2) name = Some j \<and> i \<noteq> j \<and>
    i \<notin> ran (map_of (su_processes S2)) \<and> (\<forall>k \<in> {i, j}. up_Running (su_heap S2 ! k) \<and>
      up_Name (su_heap S2 ! k) = name \<and> up_Port (su_heap S2 ! k) = up_Port (su_heap S ! i))"
proof -
  note ok = reachable_ok [OF assms(1)]
  have i: "i < length (su_heap S)" "up_Name (su_heap S ! i) = name" "length (su_monitors S) = length (su_heap S)"
    using sup_ok_proc [OF ok assms(3)] ok by (simp_all add: sup_ok_def table_ok_def)
  obtain S1 where 1: "StopUMC U name S = (None, S1)"
    and 2: "StartUMC U ctx name (up_Port (su_heap S ! i)) (log_call (Sleep (second div 2)) S1) = (None, S')"
    using assms(2,3) by (auto simp: RestartUMC_def Let_def split: if_splits prod.splits option.splits)
  let ?off = "(su_heap S ! i)\<lparr>up_Running := False\<rparr>" and ?j = "length (su_heap S)"
  have s: "su_heap S1 = (su_heap S)[i := ?off]" "su_processes S1 = su_processes S"
    "su_monitors S1 = su_monitors S" "su_stopped S1 = su_stopped S" "su_fs S1 = su_fs S"
    using 1 assms(3) by (auto elim!: StopUMC_done)
  from 2 obtain exe pid' where S': "su_heap S' = (su_heap S)[i := ?off] @
      [new_process U ctx name (up_Port (su_heap S ! i)) exe pid' (log_call (Sleep (second div 2)) S1)]"
    "su_monitors S' = su_monitors S @ [MTop]" "su_processes S' = AList.update name ?j (su_processes S)"
    "su_stopped S' = su_stopped S"
    by (cases rule: StartUMC_cases) (use s in auto)
  obtain pid where pid: "uh_start U (su_calls S') (findExecutable U name (su_fs S'))
      (sanitizedEnv U (su_KernelSocket S') (su_LogLevel S')) = Inr pid" using assms(8) by blast
  obtain S2 p2 where S2: "(sup_step U)\<^sup>*\<^sup>* S' S2" "su_heap S2 = (su_heap S')[i := p2]" "up_Running p2"
      "up_Name p2 = up_Name (su_heap S' ! i)" "up_Port p2 = up_Port (su_heap S' ! i)" "su_processes S2 = su_processes S'"
    by (rule monitor_restarts [OF _ _ _ _ _ _ _ refl pid, of i])
       (use S' i assms(4-7) in \<open>auto simp: nth_append\<close>)
  have old: "k < ?j \<and> up_Name (su_heap S ! k) = n" if "map_of (su_processes S) n = Some k" for n k
    using sup_ok_proc [OF ok that] by simp
  have "i \<notin> ran (map_of (su_processes S2))"
    using S2(6) S'(3) i(1,2) old by (auto simp: ran_def gomap_simps split: if_splits)
  then show ?thesis using S2 S' i
    by (intro exI [of _ S2] exI [of _ ?j]) (auto simp: gomap_simps nth_append new_process_def)
qed

text \<open>What the operations leave alone: the processes of other names.\<close>

lemma stop_others:
  assumes "StopUMC U name S = (r, S')" and "table_ok S" and "map_of (su_processes S) other = Some i" and "name \<noteq> other"
  shows "su_heap S' ! i = su_heap S ! i" and "su_processes S' = su_processes S" and "table_ok S'"
proof -
  have "su_heap S' ! i = su_heap S ! i \<and> su_processes S' = su_processes S \<and> table_ok S'"
  proof (cases r)
    case None
    obtain j where j: "map_of (su_processes S) name = Some j" "su_processes S' = su_processes S"
        "su_heap S' = (su_heap S)[j := (su_heap S ! j)\<lparr>up_Running := False\<rparr>]" "su_monitors S' = su_monitors S"
      using assms(1) None by (auto elim!: StopUMC_done)
    have "up_Name (su_heap S ! j) = name" "up_Name (su_heap S ! i) = other"
      using assms(2,3) j(1) by (simp_all add: table_ok_def)
    then have "j \<noteq> i" using assms(4) by auto
    then show ?thesis using j assms(2) by (auto simp: table_ok_def nth_list_update)
  next
    case (Some e)
    then have "S' = S" using assms(1) by (auto simp: stop_defs Let_def split: option.splits if_splits)
    then show ?thesis using assms(2) by simp
  qed
  then show "su_heap S' ! i = su_heap S ! i" "su_processes S' = su_processes S" "table_ok S'" by simp_all
qed

lemma stop_all_others:
  assumes "stop_all U names S = (errors, S')" and "table_ok S" and "map_of (su_processes S) other = Some i"
    and "other \<notin> set names"
  shows "su_heap S' ! i = su_heap S ! i \<and> su_processes S' = su_processes S"
  using assms
proof (induction names arbitrary: S errors)
  case (Cons n names)
  obtain r S1 where 1: "StopUMC U n S = (r, S1)" by fastforce
  obtain es where 2: "stop_all U names S1 = (es, S')"
    using Cons.prems(1) 1 by (auto split: prod.splits)
  have "n \<noteq> other" using Cons.prems(4) by auto
  note s = stop_others [OF 1 Cons.prems(2,3) this]
  show ?case using Cons.IH [OF 2 s(3)] Cons.prems(3,4) s(1,2) by simp
qed simp

text \<open>
  C26. A shutdown can leave a component running: it stops the components one after the other and
  closes the stop channel only then, so the monitor of one that was stopped first starts it again
  while the others are being stopped. None of the stops reports anything, and the component
  still runs when the channel is closed.
\<close>
theorem shutdown_leaves_running:
  assumes "(sup_step U)\<^sup>*\<^sup>* (NewSupervisor ks ll ht gs fs) S" and "StopUMC U name S = (None, S1)"
    and "map_of (su_processes S) name = Some i" and "up_RestartPolicy (su_heap S ! i) = RestartPolicyAlways"
    and "su_monitors S ! i = MWait" and "\<not> su_stopped S"
    and "findExecutable U name (su_fs S) \<noteq> []"
    and "\<forall>h env. \<exists>pid. uh_start U h (findExecutable U name (su_fs S)) env = Inr pid"
    and "name \<notin> set names"
  shows "\<exists>S2. (sup_step U)\<^sup>*\<^sup>* S1 S2 \<and> (\<forall>errors S3. stop_all U names S2 = (errors, S3) \<longrightarrow>
    running_as (S3\<lparr>su_stopped := True\<rparr>) name \<noteq> None)"
proof -
  obtain cs where s: "su_heap S1 = (su_heap S)[i := (su_heap S ! i)\<lparr>up_Running := False\<rparr>]" "su_processes S1 = su_processes S"
    "su_monitors S1 = su_monitors S" "su_stopped S1 = su_stopped S" "su_fs S1 = su_fs S"
    using assms(2,3) by (auto elim!: StopUMC_done)
  note ok = reachable_ok [OF assms(1)]
  have i: "i < length (su_heap S)" "up_Name (su_heap S ! i) = name" "length (su_monitors S) = length (su_heap S)"
    using sup_ok_proc [OF ok assms(3)] ok by (simp_all add: sup_ok_def table_ok_def)
  obtain pid where pid: "uh_start U (su_calls S1) (findExecutable U name (su_fs S))
      (sanitizedEnv U (su_KernelSocket S1) (su_LogLevel S1)) = Inr pid" using assms(8) by blast
  obtain S2 p2 where S2: "(sup_step U)\<^sup>*\<^sup>* S1 S2" "su_heap S2 = (su_heap S1)[i := p2]" "up_Running p2"
      "su_processes S2 = su_processes S1"
    by (rule monitor_restarts [OF _ _ _ _ _ _ _ refl pid, of i]) (use s i assms(4-7) in auto)
  have "(sup_step U)\<^sup>*\<^sup>* (NewSupervisor ks ll ht gs fs) S2"
    using assms(1) sup_step.stop [OF assms(2)] S2(1) by (meson rtranclp.rtrancl_into_rtrancl rtranclp_trans)
  then have "table_ok S2" using reachable_ok by (auto simp: sup_ok_def)
  then have "running_as (S3\<lparr>su_stopped := True\<rparr>) name \<noteq> None" if "stop_all U names S2 = (errors, S3)" for errors S3
    using stop_all_others [OF that, of name i] assms(3,9) S2 s i by (auto simp: running_as_def)
  then show ?thesis using S2(1) by blast
qed

section \<open>The table as clients see it\<close>

text \<open>A view of the table: port, whether it runs, and policy, for each name.\<close>

type_synonym umc_view = "string \<Rightarrow> (int \<times> bool \<times> RestartPolicy) option"

definition umcs :: "supervisor \<Rightarrow> umc_view" where
  "umcs S n = map_option (\<lambda>i. (up_Port (su_heap S ! i), up_Running (su_heap S ! i), up_RestartPolicy (su_heap S ! i)))
     (map_of (su_processes S) n)"

definition view_started :: "string \<Rightarrow> int \<Rightarrow> umc_view \<Rightarrow> umc_view" where
  "view_started n port v = v(n \<mapsto> (port, True, RestartPolicyAlways))"

definition view_stopped :: "string \<Rightarrow> umc_view \<Rightarrow> umc_view" where
  "view_stopped n v = (case v n of Some (port, True, policy) \<Rightarrow> v(n \<mapsto> (port, False, policy)) | _ \<Rightarrow> v)"

definition view_policy :: "string \<Rightarrow> RestartPolicy \<Rightarrow> umc_view \<Rightarrow> umc_view" where
  "view_policy n policy v = (case v n of Some (port, run, _) \<Rightarrow> v(n \<mapsto> (port, run, policy)) | None \<Rightarrow> v)"

lemma start_view:
  assumes "StartUMC U ctx n port S = (r, S')" and "sup_ok U S"
  shows "umcs S' = (if r = None then view_started n port (umcs S) else umcs S)"
    and "r = None \<Longrightarrow> \<nexists>q policy. umcs S n = Some (q, True, policy)"
proof -
  have "umcs S' = (if r = None then view_started n port (umcs S) else umcs S) \<and>
      (r = None \<longrightarrow> (\<nexists>q policy. umcs S n = Some (q, True, policy)))"
    using assms(1)
  proof (cases rule: StartUMC_cases)
    case (started exe pid)
    have "umcs S' k = view_started n port (umcs S) k" for k
      using started(7) sup_ok_proc [OF assms(2), of k]
      by (cases "map_of (su_processes S) k")
         (auto simp: umcs_def view_started_def gomap_simps nth_append new_process_def)
    moreover have "\<nexists>q policy. umcs S n = Some (q, True, policy)"
      using started(6) by (auto simp: running_as_def umcs_def split: option.splits if_splits)
    ultimately show ?thesis using started(1) by auto
  qed (auto simp: umcs_def)
  then show "umcs S' = (if r = None then view_started n port (umcs S) else umcs S)"
    "r = None \<Longrightarrow> \<nexists>q policy. umcs S n = Some (q, True, policy)" by simp_all
qed

lemma update_view:
  assumes "sup_ok U S" and "map_of (su_processes S) n = Some i" and "su_processes S' = su_processes S"
    and "su_heap S' = (su_heap S)[i := p]"
  shows "umcs S' = (umcs S)(n \<mapsto> (up_Port p, up_Running p, up_RestartPolicy p))"
proof
  fix k
  show "umcs S' k = ((umcs S)(n \<mapsto> (up_Port p, up_Running p, up_RestartPolicy p))) k"
    using sup_ok_proc [OF assms(1), of k] sup_ok_proc [OF assms(1,2)] assms(2-4)
    by (cases "map_of (su_processes S) k") (auto simp: umcs_def nth_list_update)
qed

lemma stop_view:
  assumes "StopUMC U n S = (r, S')" and "sup_ok U S"
  shows "umcs S' = view_stopped n (umcs S)" and "r = None \<longleftrightarrow> (\<exists>port policy. umcs S n = Some (port, True, policy))"
proof -
  have "umcs S' = view_stopped n (umcs S) \<and> (r = None \<longleftrightarrow> (\<exists>port policy. umcs S n = Some (port, True, policy)))"
  proof (cases "map_of (su_processes S) n")
    case None
    then show ?thesis using assms(1) by (auto simp: stop_defs umcs_def view_stopped_def)
  next
    case (Some i)
    show ?thesis
    proof (cases "up_Running (su_heap S ! i)")
      case True
      then have "su_heap S' = (su_heap S)[i := (su_heap S ! i)\<lparr>up_Running := False\<rparr>]"
          "su_processes S' = su_processes S" "r = None"
        using assms(1) Some by (auto simp: stop_defs Let_def)
      then show ?thesis using update_view [OF assms(2) Some, of S'] Some True
        by (simp add: umcs_def view_stopped_def)
    next
      case False
      then show ?thesis using assms(1) Some by (auto simp: stop_defs umcs_def view_stopped_def)
    qed
  qed
  then show "umcs S' = view_stopped n (umcs S)"
    "r = None \<longleftrightarrow> (\<exists>port policy. umcs S n = Some (port, True, policy))" by simp_all
qed

lemma policy_view:
  assumes "SetRestartPolicy n policy S = (r, S')" and "sup_ok U S"
  shows "umcs S' = view_policy n policy (umcs S)" and "r = None \<longleftrightarrow> umcs S n \<noteq> None"
proof -
  have "umcs S' = view_policy n policy (umcs S) \<and> (r = None \<longleftrightarrow> umcs S n \<noteq> None)"
  proof (cases "map_of (su_processes S) n")
    case None
    then show ?thesis using assms(1) by (auto simp: SetRestartPolicy_def umcs_def view_policy_def)
  next
    case (Some i)
    then have "su_heap S' = (su_heap S)[i := (su_heap S ! i)\<lparr>up_RestartPolicy := policy\<rparr>]"
        "su_processes S' = su_processes S" "r = None"
      using assms(1) by (auto simp: SetRestartPolicy_def)
    then show ?thesis using update_view [OF assms(2) Some, of S'] Some
      by (simp add: umcs_def view_policy_def)
  qed
  then show "umcs S' = view_policy n policy (umcs S)" "r = None \<longleftrightarrow> umcs S n \<noteq> None" by simp_all
qed

text \<open>The interface the API and the start-up code use, with what they may rely on.\<close>

datatype umc_op = OpStart string int | OpStop string | OpPolicy string RestartPolicy

fun client_op ::
    "(string \<Rightarrow> int \<Rightarrow> 's \<Rightarrow> 'e option \<times> 's) \<Rightarrow> (string \<Rightarrow> 's \<Rightarrow> 'e option \<times> 's) \<Rightarrow>
     (string \<Rightarrow> RestartPolicy \<Rightarrow> 's \<Rightarrow> 'e option \<times> 's) \<Rightarrow> umc_op \<Rightarrow> 's \<Rightarrow> 'e option \<times> 's" where
  "client_op start stop set_policy (OpStart n port) s = start n port s"
| "client_op start stop set_policy (OpStop n) s = stop n s"
| "client_op start stop set_policy (OpPolicy n policy) s = set_policy n policy s"

fun view_op :: "umc_op \<Rightarrow> umc_view \<Rightarrow> umc_view" where
  "view_op (OpStart n port) v = view_started n port v"
| "view_op (OpStop n) v = view_stopped n v"
| "view_op (OpPolicy n policy) v = view_policy n policy v"

text \<open>When a request must be refused, by the view alone.\<close>

fun refused_op :: "umc_op \<Rightarrow> umc_view \<Rightarrow> bool" where
  "refused_op (OpStart n port) v \<longleftrightarrow> (\<exists>q policy. v n = Some (q, True, policy))"
| "refused_op (OpStop n) v \<longleftrightarrow> (\<nexists>q policy. v n = Some (q, True, policy))"
| "refused_op (OpPolicy n policy) v \<longleftrightarrow> v n = None"

definition all_always :: "umc_view \<Rightarrow> bool" where
  "all_always v \<longleftrightarrow> (\<forall>n port run policy. v n = Some (port, run, policy) \<longrightarrow> policy = RestartPolicyAlways)"

lemma view_op_always: "all_always v \<Longrightarrow> \<forall>n policy. op \<noteq> OpPolicy n policy \<Longrightarrow> all_always (view_op op v)"
  by (cases op) (auto simp: all_always_def view_started_def view_stopped_def split: option.splits bool.splits)

lemma view_op_dom: "dom v \<subseteq> dom (view_op op v)"
  by (cases op) (auto simp: view_started_def view_stopped_def view_policy_def split: option.splits bool.splits)

locale umc_table =
  fixes ok :: "'s \<Rightarrow> bool" and view :: "'s \<Rightarrow> umc_view"
    and start :: "string \<Rightarrow> int \<Rightarrow> 's \<Rightarrow> 'e option \<times> 's" and stop :: "string \<Rightarrow> 's \<Rightarrow> 'e option \<times> 's"
    and set_policy :: "string \<Rightarrow> RestartPolicy \<Rightarrow> 's \<Rightarrow> 'e option \<times> 's"
  assumes op_ok: "ok s \<Longrightarrow> ok (snd (client_op start stop set_policy op s))"
    and op_refused: "ok s \<Longrightarrow> refused_op op (view s) \<Longrightarrow> fst (client_op start stop set_policy op s) \<noteq> None"
    and op_view: "ok s \<Longrightarrow> view (snd (client_op start stop set_policy op s)) =
      (if fst (client_op start stop set_policy op s) = None then view_op op (view s) else view s)"
begin

abbreviation run :: "umc_op list \<Rightarrow> 's \<Rightarrow> 's" where
  "run ops s \<equiv> fold (\<lambda>op s. snd (client_op start stop set_policy op s)) ops s"

lemma run_ok: "ok s \<Longrightarrow> ok (run ops s)"
  by (induction ops arbitrary: s) (simp_all add: op_ok)

lemma op_cases: "ok s \<Longrightarrow> view (snd (client_op start stop set_policy op s)) \<in> {view s, view_op op (view s)}"
  by (simp add: op_view)

lemma run_dom: "ok s \<Longrightarrow> dom (view s) \<subseteq> dom (view (run ops s))"
proof (induction ops arbitrary: s)
  case (Cons op ops)
  have "dom (view s) \<subseteq> dom (view (snd (client_op start stop set_policy op s)))"
    using op_cases [OF Cons.prems, of op] view_op_dom [of "view s" op] by auto
  then show ?case using Cons.IH [OF op_ok [OF Cons.prems, of op]] by simp
qed simp

lemma run_always: "ok s \<Longrightarrow> all_always (view s) \<Longrightarrow> \<forall>n policy. OpPolicy n policy \<notin> set ops \<Longrightarrow>
    all_always (view (run ops s))"
proof (induction ops arbitrary: s)
  case (Cons op ops)
  have no: "\<forall>n policy. op \<noteq> OpPolicy n policy" using Cons.prems(3) by auto
  have "all_always (view (snd (client_op start stop set_policy op s)))"
    using op_cases [OF Cons.prems(1), of op] view_op_always [OF Cons.prems(2) no] Cons.prems(2) by auto
  moreover have "\<forall>n policy. OpPolicy n policy \<notin> set ops" using Cons.prems(3) by simp
  ultimately show ?case using Cons.IH [OF op_ok [OF Cons.prems(1), of op]] by simp
qed simp

end

lemma sup_op_laws:
  assumes "sup_ok U S" and "client_op (StartUMC U ctx) (StopUMC U) SetRestartPolicy op S = (r, S')"
  shows "sup_ok U S'" and "refused_op op (umcs S) \<Longrightarrow> r \<noteq> None"
    and "umcs S' = (if r = None then view_op op (umcs S) else umcs S)"
proof -
  have "sup_ok U S' \<and> (refused_op op (umcs S) \<longrightarrow> r \<noteq> None) \<and>
      umcs S' = (if r = None then view_op op (umcs S) else umcs S)"
  proof (cases op)
    case (OpStart n port)
    then show ?thesis using assms start_keeps_ok start_view by fastforce
  next
    case (OpStop n)
    then have s: "StopUMC U n S = (r, S')" using assms(2) by simp
    have "view_stopped n (umcs S) = umcs S" if "r \<noteq> None"
      using stop_view(2) [OF s assms(1)] that by (auto simp: view_stopped_def split: option.splits bool.splits)
    then show ?thesis using OpStop stop_view [OF s assms(1)] stop_keeps_ok [OF s assms(1)] by auto
  next
    case (OpPolicy n policy)
    then have s: "SetRestartPolicy n policy S = (r, S')" using assms(2) by simp
    have "view_policy n policy (umcs S) = umcs S" if "r \<noteq> None"
      using policy_view(2) [OF s assms(1)] that by (cases "umcs S n") (simp_all add: view_policy_def)
    then show ?thesis using OpPolicy policy_view [OF s assms(1)] policy_keeps_ok [OF s assms(1)] by auto
  qed
  then show "sup_ok U S'" "refused_op op (umcs S) \<Longrightarrow> r \<noteq> None"
    "umcs S' = (if r = None then view_op op (umcs S) else umcs S)" by simp_all
qed

interpretation sup_table: umc_table "sup_ok U" umcs "StartUMC U ctx" "StopUMC U" SetRestartPolicy for U ctx
  by unfold_locales (use sup_op_laws [OF _ prod.collapse [symmetric]] in simp_all)

text \<open>
  C10. The table refines a map from names to port, running flag and policy: whenever an operation
  succeeds, its effect on the view is the abstract one, and when it fails it has none. A start
  of a running component, a stop of one that is not running, and a policy for an unknown name
  are refused.
\<close>
theorem table_refines:
  assumes "(sup_step U)\<^sup>*\<^sup>* (NewSupervisor ks ll ht gs fs) S"
    and "client_op (StartUMC U ctx) (StopUMC U) SetRestartPolicy op S = (r, S')"
  shows "umcs S' = (if r = None then view_op op (umcs S) else umcs S) \<and> (refused_op op (umcs S) \<longrightarrow> r \<noteq> None)"
  using sup_op_laws [OF reachable_ok [OF assms(1)] assms(2)] by blast

text \<open>
  A successful restart keeps the port but not the configuration: whatever policy the component
  had, the view has it running under \<open>always\<close> afterwards, and nothing else of the view changes.
\<close>
theorem restart_resets_policy:
  assumes "(sup_step U)\<^sup>*\<^sup>* (NewSupervisor ks ll ht gs fs) S" and "RestartUMC U ctx name S = (None, S')"
  shows "\<exists>port policy. umcs S name = Some (port, True, policy) \<and>
    umcs S' = (umcs S)(name \<mapsto> (port, True, RestartPolicyAlways))"
proof -
  note ok = reachable_ok [OF assms(1)]
  obtain i S1 where i: "map_of (su_processes S) name = Some i"
    and 1: "StopUMC U name S = (None, S1)"
    and 2: "StartUMC U ctx name (up_Port (su_heap S ! i)) (log_call (Sleep (second div 2)) S1) = (None, S')"
    using assms(2) by (auto simp: RestartUMC_def Let_def split: if_splits prod.splits option.splits)
  obtain port policy where v: "umcs S name = Some (port, True, policy)" using stop_view(2) [OF 1 ok] by blast
  have p: "port = up_Port (su_heap S ! i)" using v i by (simp add: umcs_def)
  have "sup_ok U (log_call (Sleep (second div 2)) S1)"
    using stop_keeps_ok [OF 1 ok] by (intro sup_ok_log) (simp_all add: call_ok_def)
  from start_view(1) [OF 2 this] have "umcs S' = view_started name port (umcs S1)"
    by (simp add: p umcs_def [abs_def])
  then show ?thesis using stop_view(1) [OF 1 ok] v by (simp add: view_started_def view_stopped_def)
qed

section \<open>Listing\<close>

definition describes :: "umc_view \<Rightarrow> string \<Rightarrow> payload \<Rightarrow> bool" where
  "describes v n st \<longleftrightarrow> (\<exists>port run policy. v n = Some (port, run, policy) \<and> map_of st ''name'' = Some (VStr n) \<and>
     map_of st ''running'' = Some (VBool run) \<and> map_of st ''port'' = Some (VInt port) \<and>
     (map_of st ''healthy'' \<noteq> None \<longleftrightarrow> run))"

lemma StatusUMC_result:
  assumes "StatusUMC U n S = (r, S')" and "table_ok S" and "map_of (su_processes S) n = Some i"
  shows "\<exists>st. r = Inr st \<and> describes (umcs S) n st" and "su_heap S' = su_heap S" and "su_processes S' = su_processes S"
    and "table_ok S'" and "umcs S' = umcs S"
proof -
  have n: "up_Name (su_heap S ! i) = n" using assms(2,3) by (simp add: table_ok_def)
  have v: "umcs S n = Some (up_Port (su_heap S ! i), up_Running (su_heap S ! i), up_RestartPolicy (su_heap S ! i))"
    using assms(3) by (simp add: umcs_def)
  have k: "su_heap S' = su_heap S \<and> su_processes S' = su_processes S \<and> su_monitors S' = su_monitors S"
    using assms(1,3) by (auto simp: StatusUMC_def checkHealth_def Let_def split: if_splits sum.splits)
  then show "su_heap S' = su_heap S" "su_processes S' = su_processes S" "table_ok S'" "umcs S' = umcs S"
    using assms(2) by (simp_all add: table_ok_def umcs_def [abs_def])
  obtain st where "r = Inr st" "map_of st ''name'' = Some (VStr n)"
      "map_of st ''running'' = Some (VBool (up_Running (su_heap S ! i)))"
      "map_of st ''port'' = Some (VInt (up_Port (su_heap S ! i)))"
      "map_of st ''healthy'' \<noteq> None \<longleftrightarrow> up_Running (su_heap S ! i)"
    using assms(1,3) n by (auto simp: StatusUMC_def Let_def gomap_simps split: if_splits prod.splits)
  then show "\<exists>st. r = Inr st \<and> describes (umcs S) n st" unfolding describes_def v by blast
qed

lemma status_of_all_result:
  assumes "status_of_all U entries S = (result, S')" and "table_ok S"
    and "set entries \<subseteq> set (su_processes S)"
  shows "list_all2 (describes (umcs S)) (map fst entries) result \<and> umcs S' = umcs S"
  using assms
proof (induction entries arbitrary: S result)
  case (Cons e entries)
  obtain k i where e: "e = (k, i)" by fastforce
  have k: "map_of (su_processes S) k = Some i"
    using Cons.prems(2,3) e by (auto simp: table_ok_def map_of_mem_iff)
  then have n: "up_Name (su_heap S ! i) = k" using Cons.prems(2) by (simp add: table_ok_def)
  obtain r S1 where 1: "StatusUMC U k S = (r, S1)" by fastforce
  obtain rs where 2: "status_of_all U entries S1 = (rs, S')"
    using Cons.prems(1) e n 1 by (auto split: prod.splits)
  note s = StatusUMC_result [OF 1 Cons.prems(2) k]
  have "list_all2 (describes (umcs S)) (map fst entries) rs \<and> umcs S' = umcs S"
    using Cons.IH [OF 2 s(4)] Cons.prems(3) s(3,5) by simp
  then show ?case using s(1) Cons.prems(1) e n 1 2 by auto
qed simp

text \<open>
  C36. The list has exactly one status for every component of the table, whatever order the table
  is visited in, with its name, its port and whether it runs; health is there exactly for the
  running ones. Listing changes nothing of the view.
\<close>
theorem list_complete:
  assumes "(sup_step U)\<^sup>*\<^sup>* (NewSupervisor ks ll ht gs fs) S" and "ListUMCs U \<pi> S = (result, S')"
    and "fair_order \<pi>"
  shows "\<exists>names. distinct names \<and> set names = dom (umcs S) \<and> umcs S' = umcs S \<and>
    list_all2 (describes (umcs S)) names result"
proof -
  have t: "table_ok S" using reachable_ok [OF assms(1)] by (simp add: sup_ok_def)
  then have wf: "gm_wf (su_processes S)" by (simp add: table_ok_def)
  let ?es = "gm_range \<pi> R_Processes (su_processes S)"
  have "list_all2 (describes (umcs S)) (map fst ?es) result \<and> umcs S' = umcs S"
    using assms(2) t by (intro status_of_all_result) (simp_all add: ListUMCs_def assms(3) wf)
  moreover have "distinct (map fst ?es)" using gm_wf_range [OF assms(3) wf] by (simp add: gm_wf_def)
  moreover have "dom (umcs S) = dom (map_of (su_processes S))" by (auto simp: umcs_def)
  then have "set (map fst ?es) = dom (umcs S)"
    using assms(3) wf by (simp add: dom_map_of_conv_image_fst)
  ultimately show ?thesis by blast
qed

section \<open>Examples\<close>

definition sample_sup :: supervisor where
  "sample_sup = NewSupervisor ''/k.sock'' ''info'' 0 0 umc_fs"

definition started_sup :: supervisor where
  "started_sup = monitor_top 0 (snd (StartUMC sample_umc ComponentContext ''cron'' 8081 sample_sup))"

lemma started_reachable: "(sup_step sample_umc)\<^sup>*\<^sup>* (NewSupervisor ''/k.sock'' ''info'' 0 0 umc_fs) started_sup"
proof -
  let ?S = "snd (StartUMC sample_umc ComponentContext ''cron'' 8081 sample_sup)"
  have "sup_step sample_umc sample_sup ?S"
    by (rule sup_step.start [of _ ComponentContext "''cron''" 8081 _ "fst (StartUMC sample_umc ComponentContext ''cron'' 8081 sample_sup)"]) simp
  moreover have "su_monitors ?S = [MTop]" by code_simp
  then have "sup_step sample_umc ?S (monitor_top 0 ?S)" by (intro sup_step.top) simp_all
  ultimately show ?thesis unfolding started_sup_def sample_sup_def by simp
qed

lemma started_facts:
  "map_of (su_processes started_sup) ''cron'' = Some 0"
  "up_RestartPolicy (su_heap started_sup ! 0) = RestartPolicyAlways"
  "su_monitors started_sup ! 0 = MWait" "su_monitors started_sup = [MWait]" "\<not> su_stopped started_sup"
  "findExecutable sample_umc ''cron'' (su_fs started_sup) = ''/home/u/.underleaf/bin/cron-serve''"
  "findExecutable sample_umc ''cron'' (su_fs started_sup) \<noteq> []"
  "length (su_heap started_sup) = 1" "su_fs started_sup = umc_fs"
  by code_simp+

lemma sample_starts: "\<forall>h env. \<exists>pid. uh_start sample_umc h exe env = Inr pid"
  by (simp add: sample_umc_def)

theorem started_safely_witness:
  "\<exists>exe env. ProcStart exe env \<in> set (su_calls started_sup) \<and>
    \<not> (\<exists>v \<in> set env. v \<noteq> ''KERNEL_SOCKET='' @ ''/k.sock'' \<and> v \<noteq> ''LOG_LEVEL='' @ ''info'' \<and>
       fst (Cut (CHR ''='') v) \<notin> set allowed_vars)"
proof -
  have "ProcStart ''/home/u/.underleaf/bin/cron-serve'' [''PATH=/bin'', ''HOME=/home/u'',
      ''KERNEL_SOCKET=/k.sock'', ''LOG_LEVEL=info''] \<in> set (su_calls started_sup)" by code_simp
  from this started_safely [OF started_reachable this] show ?thesis by blast
qed

theorem backoff_bounded_witness:
  "1 \<le> up_BackoffSeconds (su_heap started_sup ! 0) \<and> up_BackoffSeconds (su_heap started_sup ! 0) \<le> 60"
  using backoff_bounded [OF started_reachable] started_facts(8) by simp

theorem backoff_doubles_witness:
  "backoffs [0, 10 * second, 20 * second, 30 * second, 50 * second, 90 * second, 150 * second, 220 * second]
     (new_process sample_umc ComponentContext ''cron'' 8081 ''/x'' 100 sample_sup) =
   [second, 2 * second, 4 * second, 8 * second, 16 * second, 32 * second, 60 * second, 60 * second]"
proof -
  let ?ts = "[0, 10 * second, 20 * second, 30 * second, 50 * second, 90 * second, 150 * second, 220 * second]"
  have "\<forall>i < length ?ts - 1. ?ts ! Suc i - ?ts ! i \<le> 5 * 60 * second"
    by (simp add: All_less_Suc second_def)
  from backoff_doubles [OF this] show ?thesis by (simp add: upt_rec second_def)
qed

theorem monitor_decides_witness:
  "su_monitors (monitor_exit sample_umc WaitOk 0 started_sup) ! 0 \<noteq> MDone"
  using monitor_decides [of 0 started_sup _ sample_umc WaitOk _ True] started_facts by force

lemma sample_stops: "StopUMC sample_umc ''cron'' started_sup = (None, snd (StopUMC sample_umc ''cron'' started_sup))"
proof -
  have "fst (StopUMC sample_umc ''cron'' started_sup) = None" by code_simp
  then show ?thesis by (metis prod.collapse)
qed

theorem stop_undone_witness:
  "\<exists>S2. (sup_step sample_umc)\<^sup>*\<^sup>* (snd (StopUMC sample_umc ''cron'' started_sup)) S2 \<and> running_as S2 ''cron'' \<noteq> None"
  using stop_undone [OF started_reachable sample_stops started_facts(1,2,3,5,7) sample_starts] by blast

lemma sample_restarts: "RestartUMC sample_umc ComponentContext ''cron'' started_sup =
    (None, snd (RestartUMC sample_umc ComponentContext ''cron'' started_sup))"
proof -
  have "fst (RestartUMC sample_umc ComponentContext ''cron'' started_sup) = None" by code_simp
  then show ?thesis by (metis prod.collapse)
qed

theorem restart_duplicates_witness:
  "\<exists>S2 j. (sup_step sample_umc)\<^sup>*\<^sup>* (snd (RestartUMC sample_umc ComponentContext ''cron'' started_sup)) S2 \<and>
    0 \<noteq> j \<and> up_Running (su_heap S2 ! 0) \<and> up_Running (su_heap S2 ! j) \<and> 0 \<notin> ran (map_of (su_processes S2))"
proof -
  have "findExecutable sample_umc ''cron'' (su_fs (snd (RestartUMC sample_umc ComponentContext ''cron'' started_sup))) \<noteq> []"
    by code_simp
  from restart_duplicates [OF started_reachable sample_restarts started_facts(1,2,3,5) this sample_starts]
  show ?thesis by blast
qed

theorem shutdown_leaves_running_witness:
  "\<exists>S2. (sup_step sample_umc)\<^sup>*\<^sup>* (snd (StopUMC sample_umc ''cron'' started_sup)) S2 \<and>
    running_as ((snd (stop_all sample_umc [''mail''] S2))\<lparr>su_stopped := True\<rparr>) ''cron'' \<noteq> None"
  using shutdown_leaves_running [OF started_reachable sample_stops started_facts(1,2,3,5,7) sample_starts, of "[''mail'']"]
  by (simp split: prod.splits) (metis prod.collapse)

theorem table_refines_witness:
  "umcs (snd (StopUMC sample_umc ''cron'' started_sup)) = view_stopped ''cron'' (umcs started_sup)"
  using table_refines [OF started_reachable, of ComponentContext "OpStop ''cron''" None] sample_stops by simp

theorem restart_resets_policy_witness:
  "\<exists>port. umcs (snd (RestartUMC sample_umc ComponentContext ''cron'' started_sup)) =
     (umcs started_sup)(''cron'' \<mapsto> (port, True, RestartPolicyAlways))"
  using restart_resets_policy [OF started_reachable sample_restarts] by blast

theorem list_complete_witness:
  "\<exists>names. distinct names \<and> set names = dom (umcs started_sup) \<and>
    list_all2 (describes (umcs started_sup)) names (fst (ListUMCs sample_umc reversed_order started_sup))"
  using list_complete [OF started_reachable prod.collapse [symmetric] fair_reversed] by blast

end
