(* ===== verification/Api.thy ===== *)
theory Api
  imports Supervisor Syscall_Client
begin

text \<open>
  The HTTP API (\<open>internal/api/handler.go\<close>): routing, the request checks of each handler, and the
  replies, over the supervisor's state and the kernel client. The JSON decoders of the request
  bodies are parameters; they see what \<open>http.MaxBytesReader\<close> lets through.
\<close>

section \<open>Requests and replies\<close>

record http_request =
  rq_Method :: string
  rq_Path :: string
  rq_Query :: "string gomap" \<comment> \<open>the first value of each key\<close>
  rq_Body :: string

text \<open>An error is plain text with a newline at the end; any other reply is JSON.\<close>

datatype reply = HttpError int string | JsonReply int gval

fun status_of :: "reply \<Rightarrow> int" where
  "status_of (HttpError code text) = code"
| "status_of (JsonReply code body) = code"

definition NotFound :: reply where
  "NotFound = HttpError 404 ''404 page not found''"

definition maxRequestBodyBytes :: nat where
  "maxRequestBodyBytes = 2 ^ 20"

text \<open>A limited body: the bytes that can be read, and whether reading on fails.\<close>

type_synonym body_stream = "string \<times> bool"

definition limited_body :: "http_request \<Rightarrow> body_stream" where
  "limited_body r = (take maxRequestBodyBytes (rq_Body r), length (rq_Body r) > maxRequestBodyBytes)"

record start_request =
  sr_Name :: string
  sr_Port :: int

record deployment_request =
  dr_ID :: string
  dr_Spec :: payload

record install_request =
  ir_Name :: string
  ir_ArtifactURL :: string
  ir_Checksum :: string

record policy_request =
  pr_Name :: string
  pr_Policy :: string

record api =
  ap_supervisor :: bool \<comment> \<open>whether \<open>SetSupervisor\<close> was called\<close>
  ap_kernel :: kernel
  ap_umc :: umc_host
  ap_order :: iter_order
  ap_quote :: "string \<Rightarrow> string"
  ap_decode_start :: "body_stream \<Rightarrow> string + start_request"
  ap_decode_name :: "body_stream \<Rightarrow> string + string"
  ap_decode_install :: "body_stream \<Rightarrow> string + install_request"
  ap_decode_policy :: "body_stream \<Rightarrow> string + policy_request"
  ap_decode_deployment :: "body_stream \<Rightarrow> string + deployment_request"

abbreviation err_text :: "api \<Rightarrow> sup_error \<Rightarrow> string" where
  "err_text A \<equiv> sup_error_text (ap_quote A) (uh_host (ap_umc A))"

definition query :: "http_request \<Rightarrow> string \<Rightarrow> string" where
  "query r key = (case map_of (rq_Query r) key of None \<Rightarrow> [] | Some v \<Rightarrow> v)"

text \<open>A call of the kernel client, on the history in the state.\<close>

definition kernel_call :: "'r action \<Rightarrow> supervisor \<Rightarrow> 'r \<times> supervisor" where
  "kernel_call f S = (case f (su_calls S) of (r, h) \<Rightarrow> (r, S\<lparr>su_calls := h\<rparr>))"

abbreviation "method_not_allowed \<equiv> HttpError 405 ''method not allowed''"
abbreviation "invalid_body \<equiv> HttpError 400 ''invalid request body''"

section \<open>Handlers\<close>

definition handleHealth :: "http_request \<Rightarrow> supervisor \<Rightarrow> reply \<times> supervisor" where
  "handleHealth r S =
     (if rq_Method r \<noteq> ''GET'' then (method_not_allowed, S)
      else (JsonReply 200 (VMap [(''status'', VStr ''healthy'')]), S))"

definition handleSupervisorUMC :: "api \<Rightarrow> http_request \<Rightarrow> supervisor \<Rightarrow> reply \<times> supervisor" where
  "handleSupervisorUMC A r S =
     (if rq_Method r \<noteq> ''POST'' then (method_not_allowed, S)
      else
        (case ap_decode_start A (limited_body r) of
           Inl e \<Rightarrow> (invalid_body, S)
         | Inr req \<Rightarrow>
             if sr_Name req = [] then (HttpError 400 ''name is required'', S)
             else if sr_Port req = 0 then (HttpError 400 ''port is required'', S)
             else
               (case StartUMC (ap_umc A) RequestContext (sr_Name req) (sr_Port req) S of
                  (Some e, S1) \<Rightarrow> (HttpError 500 (err_text A e), S1)
                | (None, S1) \<Rightarrow>
                    (JsonReply 200 (VMap [(''status'', VStr ''started''), (''name'', VStr (sr_Name req))]), S1))))"

text \<open>The encoding of a nil slice is \<open>null\<close>.\<close>

definition handleSupervisorUMCs :: "api \<Rightarrow> http_request \<Rightarrow> supervisor \<Rightarrow> reply \<times> supervisor" where
  "handleSupervisorUMCs A r S =
     (if rq_Method r \<noteq> ''GET'' then (method_not_allowed, S)
      else
        (case ListUMCs (ap_umc A) (ap_order A) S of
           (listed, S1) \<Rightarrow>
             (JsonReply 200 (VMap [(''umcs'', if listed = [] then VNull else VList (map VMap listed))]), S1)))"

definition handleSupervisorUMCStatus :: "api \<Rightarrow> http_request \<Rightarrow> supervisor \<Rightarrow> reply \<times> supervisor" where
  "handleSupervisorUMCStatus A r S =
     (if rq_Method r \<noteq> ''GET'' then (method_not_allowed, S)
      else if query r ''name'' = [] then (HttpError 400 ''name query parameter is required'', S)
      else
        (case StatusUMC (ap_umc A) (query r ''name'') S of
           (Inl e, S1) \<Rightarrow> (HttpError 404 (err_text A e), S1)
         | (Inr status, S1) \<Rightarrow> (JsonReply 200 (VMap status), S1)))"

definition handleSupervisorUMCRestart :: "api \<Rightarrow> http_request \<Rightarrow> supervisor \<Rightarrow> reply \<times> supervisor" where
  "handleSupervisorUMCRestart A r S =
     (if rq_Method r \<noteq> ''POST'' then (method_not_allowed, S)
      else
        (case ap_decode_name A (limited_body r) of
           Inl e \<Rightarrow> (invalid_body, S)
         | Inr name \<Rightarrow>
             if name = [] then (HttpError 400 ''name is required'', S)
             else
               (case RestartUMC (ap_umc A) RequestContext name S of
                  (Some e, S1) \<Rightarrow> (HttpError 500 (err_text A e), S1)
                | (None, S1) \<Rightarrow>
                    (JsonReply 200 (VMap [(''status'', VStr ''restarted''), (''name'', VStr name)]), S1))))"

definition handleSupervisorUMCInstall :: "api \<Rightarrow> http_request \<Rightarrow> supervisor \<Rightarrow> reply \<times> supervisor" where
  "handleSupervisorUMCInstall A r S =
     (if rq_Method r \<noteq> ''POST'' then (method_not_allowed, S)
      else
        (case ap_decode_install A (limited_body r) of
           Inl e \<Rightarrow> (invalid_body, S)
         | Inr req \<Rightarrow>
             if ir_Name req = [] then (HttpError 400 ''name is required'', S)
             else if ir_ArtifactURL req = [] then (HttpError 400 ''artifact_url is required'', S)
             else if ir_Checksum req = [] then (HttpError 400 ''checksum is required'', S)
             else
               (case Install (ap_umc A) (ir_Name req) (ir_ArtifactURL req) (ir_Checksum req) S of
                  (Some e, S1) \<Rightarrow> (HttpError 500 (err_text A e), S1)
                | (None, S1) \<Rightarrow>
                    (JsonReply 200 (VMap [(''status'', VStr ''installed''), (''name'', VStr (ir_Name req))]), S1))))"

definition parse_policy :: "string \<Rightarrow> RestartPolicy option" where
  "parse_policy s =
     (if s = ''always'' then Some RestartPolicyAlways
      else if s = ''on-failure'' then Some RestartPolicyOnFailure
      else if s = ''never'' then Some RestartPolicyNever
      else None)"

definition handleSupervisorUMCPolicy :: "api \<Rightarrow> http_request \<Rightarrow> supervisor \<Rightarrow> reply \<times> supervisor" where
  "handleSupervisorUMCPolicy A r S =
     (if rq_Method r \<noteq> ''PUT'' then (method_not_allowed, S)
      else
        (case ap_decode_policy A (limited_body r) of
           Inl e \<Rightarrow> (invalid_body, S)
         | Inr req \<Rightarrow>
             if pr_Name req = [] then (HttpError 400 ''name is required'', S)
             else if pr_Policy req = [] then (HttpError 400 ''policy is required'', S)
             else
               (case parse_policy (pr_Policy req) of
                  None \<Rightarrow>
                    (HttpError 400 (''invalid policy: must be 'always', 'on-failure', or 'never'' @ [CHR 0x27]), S)
                | Some policy \<Rightarrow>
                    (case SetRestartPolicy (pr_Name req) policy S of
                       (Some e, S1) \<Rightarrow> (HttpError 500 (err_text A e), S1)
                     | (None, S1) \<Rightarrow>
                         (JsonReply 200 (VMap [(''status'', VStr ''updated''), (''name'', VStr (pr_Name req)),
                            (''policy'', VStr (pr_Policy req))]), S1)))))"

definition handleCreateDeployment :: "api \<Rightarrow> http_request \<Rightarrow> supervisor \<Rightarrow> reply \<times> supervisor" where
  "handleCreateDeployment A r S =
     (case ap_decode_deployment A (limited_body r) of
        Inl e \<Rightarrow> (invalid_body, S)
      | Inr req \<Rightarrow>
          (case kernel_call (EmitDeploymentEvent (ap_kernel A) ''deployment.created'' (dr_ID req) (dr_Spec req)) S of
             (Some e, S1) \<Rightarrow> (HttpError 500 (syscall_error_text e), S1)
           | (None, S1) \<Rightarrow> (JsonReply 201 (VMap [(''id'', VStr (dr_ID req))]), S1)))"

definition handleGetDeployment :: "api \<Rightarrow> http_request \<Rightarrow> supervisor \<Rightarrow> reply \<times> supervisor" where
  "handleGetDeployment A r S =
     (if query r ''id'' = [] then (HttpError 400 ''missing deployment id'', S)
      else
        (case kernel_call (GetDeploymentState (ap_kernel A) (query r ''id'')) S of
           (Inl e, S1) \<Rightarrow> (HttpError 500 (syscall_error_text e), S1)
         | (Inr state, S1) \<Rightarrow>
             (JsonReply 200 (VMap [(''id'', VStr (query r ''id'')), (''state'', VStr state)]), S1)))"

definition handleDeployments :: "api \<Rightarrow> http_request \<Rightarrow> supervisor \<Rightarrow> reply \<times> supervisor" where
  "handleDeployments A r S =
     (if rq_Method r = ''POST'' then handleCreateDeployment A r S
      else if rq_Method r = ''GET'' then handleGetDeployment A r S
      else (method_not_allowed, S))"

definition handleSupervisor :: "api \<Rightarrow> http_request \<Rightarrow> supervisor \<Rightarrow> reply \<times> supervisor" where
  "handleSupervisor A r S =
     (if rq_Path r = ''/supervisor/umc'' then handleSupervisorUMC A r S
      else if rq_Path r = ''/supervisor/umcs'' then handleSupervisorUMCs A r S
      else if rq_Path r = ''/supervisor/umc/status'' then handleSupervisorUMCStatus A r S
      else if rq_Path r = ''/supervisor/umc/restart'' then handleSupervisorUMCRestart A r S
      else if rq_Path r = ''/supervisor/umc/install'' then handleSupervisorUMCInstall A r S
      else if rq_Path r = ''/supervisor/umc/policy'' then handleSupervisorUMCPolicy A r S
      else (NotFound, S))"

definition ServeHTTP :: "api \<Rightarrow> http_request \<Rightarrow> supervisor \<Rightarrow> reply \<times> supervisor" where
  "ServeHTTP A r S =
     (if HasPrefix (rq_Path r) ''/supervisor'' then
        (if \<not> ap_supervisor A then (HttpError 503 ''supervisor not available'', S)
         else handleSupervisor A r S)
      else if rq_Path r = ''/health'' then handleHealth r S
      else if rq_Path r = ''/deployments'' then handleDeployments A r S
      else (NotFound, S))"

lemmas handler_defs = handleHealth_def handleSupervisorUMC_def handleSupervisorUMCs_def
  handleSupervisorUMCStatus_def handleSupervisorUMCRestart_def handleSupervisorUMCInstall_def
  handleSupervisorUMCPolicy_def handleCreateDeployment_def handleGetDeployment_def

section \<open>Requests as steps of the supervisor\<close>

lemma op_steps:
  "StartUMC U ctx name port S = (r, S') \<Longrightarrow> (sup_step U)\<^sup>*\<^sup>* S S'"
  "StatusUMC U name S = (st, S') \<Longrightarrow> (sup_step U)\<^sup>*\<^sup>* S S'"
  "Install U name url checksum S = (r, S') \<Longrightarrow> (sup_step U)\<^sup>*\<^sup>* S S'"
  "SetRestartPolicy name policy S = (r, S') \<Longrightarrow> (sup_step U)\<^sup>*\<^sup>* S S'"
  by (rule r_into_rtranclp; erule sup_step.start sup_step.status sup_step.install sup_step.policy)+

lemma restart_steps: "RestartUMC U ctx name S = (r, S') \<Longrightarrow> (sup_step U)\<^sup>*\<^sup>* S S'"
proof -
  assume a: "RestartUMC U ctx name S = (r, S')"
  show ?thesis
  proof (cases "r \<noteq> None \<and> S' = S")
    case False
    then obtain i r1 S1 where 1: "StopUMC U name S = (r1, S1)"
      and 2: "r1 \<noteq> None \<and> S' = S1 \<or> StartUMC U ctx name (up_Port (su_heap S ! i)) (log_call (Sleep (second div 2)) S1) = (r, S')"
      using a by (fastforce simp: RestartUMC_def Let_def split: option.splits if_splits prod.splits)
    have s1: "sup_step U S S1" by (rule sup_step.stop [OF 1])
    have "sup_step U S1 (log_call (Sleep (second div 2)) S1)" by (rule sup_step.elsewhere) simp
    with s1 have s2: "(sup_step U)\<^sup>*\<^sup>* S (log_call (Sleep (second div 2)) S1)" by simp
    with s1 2 show ?thesis using op_steps(1) [of U ctx name] by (auto intro: rtranclp_trans)
  qed simp
qed

lemma list_steps: "status_of_all U entries S = (result, S') \<Longrightarrow> (sup_step U)\<^sup>*\<^sup>* S S'"
proof (induction entries arbitrary: S result)
  case (Cons e entries)
  then show ?case
    by (cases e) (auto split: prod.splits intro: converse_rtranclp_into_rtranclp sup_step.status)
qed simp

lemma emit_step: "kernel_call (EmitDeploymentEvent K t d p) S = (r, S') \<Longrightarrow> (sup_step U)\<^sup>*\<^sup>* S S'"
proof -
  assume a: "kernel_call (EmitDeploymentEvent K t d p) S = (r, S')"
  have "S' = S \<or> S' = log_call (KEmitEvent (deployment_event t d p)) S"
    using a by (auto simp: kernel_call_def EmitDeploymentEvent_def log_call_def Let_def split: option.splits)
  moreover have "sup_step U S (log_call (KEmitEvent (deployment_event t d p)) S)" by (rule sup_step.elsewhere) simp
  ultimately show ?thesis by auto
qed

lemma get_step: "kernel_call (GetDeploymentState K d) S = (r, S') \<Longrightarrow> (sup_step U)\<^sup>*\<^sup>* S S'"
proof -
  assume a: "kernel_call (GetDeploymentState K d) S = (r, S')"
  then have "S' = log_call (KGetKV (deployment_key d)) S"
    by (auto simp: kernel_call_def GetDeploymentState_def log_call_def Let_def split: sum.splits)
  moreover have "sup_step U S (log_call (KGetKV (deployment_key d)) S)" by (rule sup_step.elsewhere) simp
  ultimately show ?thesis by auto
qed

lemma serve_steps:
  assumes "ServeHTTP A r S = (reply, S')"
  shows "(sup_step (ap_umc A))\<^sup>*\<^sup>* S S'"
proof -
  have 1: "(sup_step (ap_umc A))\<^sup>*\<^sup>* S S'" if "handleSupervisor A r S = (reply, S')"
    using that
    by (auto simp: handleSupervisor_def handler_defs ListUMCs_def
        split: if_splits sum.splits prod.splits option.splits
        intro: restart_steps list_steps op_steps)
  show ?thesis using assms 1
    by (auto simp: ServeHTTP_def handleDeployments_def handleHealth_def handleCreateDeployment_def
        handleGetDeployment_def split: if_splits sum.splits prod.splits option.splits intro: emit_step get_step)
qed

fun serve_all :: "api \<Rightarrow> http_request list \<Rightarrow> supervisor \<Rightarrow> reply list \<times> supervisor" where
  "serve_all A [] S = ([], S)"
| "serve_all A (r # rs) S =
     (case ServeHTTP A r S of
        (reply, S1) \<Rightarrow> (case serve_all A rs S1 of (replies, S2) \<Rightarrow> (reply # replies, S2)))"

lemma serve_all_steps: "serve_all A rs S = (replies, S') \<Longrightarrow> (sup_step (ap_umc A))\<^sup>*\<^sup>* S S'"
proof (induction rs arbitrary: S replies)
  case (Cons r rs)
  then show ?case
    by (auto split: prod.splits dest: serve_steps intro: rtranclp_trans)
qed simp

text \<open>
  C31. Whatever requests the API serves, the supervisor stays within what its own operations can
  do: every process started for them has the executable of a valid name and the clean
  environment, and every component in the table has a valid name and port.
\<close>
theorem api_stays_safe:
  assumes "serve_all A rs (NewSupervisor ks ll ht gs fs) = (replies, S)"
  shows "(\<forall>exe env. ProcStart exe env \<in> set (su_calls S) \<longrightarrow>
      env = sanitizedEnv (ap_umc A) ks ll \<and>
      (\<exists>name. validateUMCName name = None \<and> exe \<in> set (search_paths (ap_umc A) name))) \<and>
    (\<forall>n port run policy. umcs S n = Some (port, run, policy) \<longrightarrow>
      validateUMCName n = None \<and> 1 \<le> port \<and> port \<le> 65535)"
proof -
  have reach: "(sup_step (ap_umc A))\<^sup>*\<^sup>* (NewSupervisor ks ll ht gs fs) S" by (rule serve_all_steps [OF assms])
  note ok = reachable_ok [OF reach]
  have "validateUMCName n = None \<and> 1 \<le> port \<and> port \<le> 65535" if "umcs S n = Some (port, run, policy)" for n port run policy
    using that sup_ok_proc [OF ok, of n] by (auto simp: umcs_def proc_ok_def)
  moreover have "start_ok (ap_umc A) S exe env" if "ProcStart exe env \<in> set (su_calls S)" for exe env
    using ok that by (auto simp: sup_ok_def call_ok_def)
  ultimately show ?thesis using config_kept_new [OF reach] by (auto simp: start_ok_def)
qed

text \<open>
  A request that is refused has no effect: after any reply with a status from 400 to 499, and
  after 503, the state is as before, with no call made.
\<close>
theorem refused_changes_nothing:
  assumes "ServeHTTP A r S = (reply, S')" and "status_of reply \<in> {400..499} \<union> {503}"
  shows "S' = S"
  using assms
  by (auto simp: ServeHTTP_def handleSupervisor_def handleDeployments_def handler_defs StatusUMC_def NotFound_def Let_def
      split: if_splits sum.splits prod.splits option.splits)

text \<open>
  A component started through the API is bound to the request: after a reply of 200 it runs
  under the requested name and port with policy \<open>always\<close>, and its process belongs to the context of
  the request, which ends with the reply and takes the process with it.
\<close>
theorem api_start_bound:
  assumes "(sup_step (ap_umc A))\<^sup>*\<^sup>* (NewSupervisor ks ll ht gs fs) S"
    and "ServeHTTP A r S = (reply, S')" and "rq_Path r = ''/supervisor/umc''" and "status_of reply = 200"
  shows "\<exists>req p. ap_decode_start A (limited_body r) = Inr req \<and> running_as S' (sr_Name req) = Some p \<and>
    up_Port p = sr_Port req \<and> cd_Context (up_Command p) = Some RequestContext \<and>
    umcs S' = view_started (sr_Name req) (sr_Port req) (umcs S)"
proof -
  note ok = reachable_ok [OF assms(1)]
  obtain req where req: "ap_decode_start A (limited_body r) = Inr req"
    "StartUMC (ap_umc A) RequestContext (sr_Name req) (sr_Port req) S = (None, S')"
    using assms(2-4)
    by (auto simp: ServeHTTP_def HasPrefix_def handleSupervisor_def handleSupervisorUMC_def
        split: if_splits sum.splits prod.splits option.splits)
  from req(2) have "\<exists>p. running_as S' (sr_Name req) = Some p \<and> up_Port p = sr_Port req \<and>
      cd_Context (up_Command p) = Some RequestContext"
    by (cases rule: StartUMC_cases) (simp_all add: running_as_def gomap_simps new_process_def)
  then show ?thesis using req(1) start_view(1) [OF req(2) ok] by auto
qed

lemma parse_policy_strings: "parse_policy s = Some policy \<Longrightarrow>
    (s, policy) \<in> {(''always'', RestartPolicyAlways), (''on-failure'', RestartPolicyOnFailure),
      (''never'', RestartPolicyNever)}"
  by (auto simp: parse_policy_def split: if_splits)

text \<open>
  C37. A policy request succeeds exactly for a PUT whose body decodes, naming a component of the
  table and one of the three policy strings; the component then has the policy of that name, and
  nothing else of the view changes. In every other case, a body that does not decode included, the
  view stays as it is.
\<close>
theorem api_policy:
  assumes "(sup_step (ap_umc A))\<^sup>*\<^sup>* (NewSupervisor ks ll ht gs fs) S"
    and "ServeHTTP A r S = (reply, S')" and "rq_Path r = ''/supervisor/umc/policy''" and "ap_supervisor A"
  shows "(status_of reply = 200 \<longleftrightarrow> rq_Method r = ''PUT'' \<and> (\<exists>req. ap_decode_policy A (limited_body r) = Inr req \<and>
      umcs S (pr_Name req) \<noteq> None \<and> pr_Policy req \<in> {''always'', ''on-failure'', ''never''})) \<and>
    (if status_of reply = 200
     then \<exists>req port run old policy. ap_decode_policy A (limited_body r) = Inr req \<and>
       umcs S (pr_Name req) = Some (port, run, old) \<and>
       (pr_Policy req, policy) \<in> {(''always'', RestartPolicyAlways), (''on-failure'', RestartPolicyOnFailure),
         (''never'', RestartPolicyNever)} \<and>
       umcs S' = (umcs S)(pr_Name req \<mapsto> (port, run, policy))
     else umcs S' = umcs S)"
proof -
  note ok = reachable_ok [OF assms(1)]
  have name: "n \<noteq> []" if "umcs S n \<noteq> None" for n
    using that sup_ok_proc [OF ok, of n] by (auto simp: umcs_def proc_ok_def validateUMCName_def)
  have r: "handleSupervisorUMCPolicy A r S = (reply, S')"
    using assms(2-4) by (simp add: ServeHTTP_def HasPrefix_def handleSupervisor_def)
  show ?thesis
  proof (cases "\<exists>req policy. rq_Method r = ''PUT'' \<and> ap_decode_policy A (limited_body r) = Inr req \<and>
      pr_Name req \<noteq> [] \<and> parse_policy (pr_Policy req) = Some policy")
    case True
    then obtain req policy where p: "rq_Method r = ''PUT''" "ap_decode_policy A (limited_body r) = Inr req"
      "pr_Name req \<noteq> []" "parse_policy (pr_Policy req) = Some policy" by blast
    note s = parse_policy_strings [OF p(4)]
    obtain e S1 where e: "SetRestartPolicy (pr_Name req) policy S = (e, S1)" by fastforce
    have v: "S' = S1" "status_of reply = 200 \<longleftrightarrow> e = None"
      using r p e s by (auto simp: handleSupervisorUMCPolicy_def split: option.splits)
    show ?thesis
    proof (cases "umcs S (pr_Name req)")
      case None
      then show ?thesis using policy_view [OF e ok] v p(2) by (simp add: view_policy_def)
    next
      case (Some c)
      obtain port run old where "c = (port, run, old)" by (cases c)
      with Some s policy_view [OF e ok] v p(1,2) show ?thesis by (auto simp: view_policy_def)
    qed
  next
    case False
    then have "S' = S \<and> status_of reply \<noteq> 200"
      using r by (auto simp: handleSupervisorUMCPolicy_def split: if_splits option.splits sum.splits)
    then show ?thesis using False name by (auto simp: parse_policy_def)
  qed
qed

text \<open>
  A deployment request that decodes sends one \<open>deployment.created\<close> event with its id and
  specification, unless the payload cannot be represented; the reply is 201 exactly if the kernel
  took the event. The specification is neither checked nor stored, and an empty id is accepted.
\<close>
theorem api_create_emits:
  assumes "ServeHTTP A r S = (reply, S')" and "rq_Path r = ''/deployments''" and "rq_Method r = ''POST''"
    and "ap_decode_deployment A (limited_body r) = Inr req"
    and "ev = deployment_event ''deployment.created'' (dr_ID req) (dr_Spec req)"
  shows "if k_struct_error (ap_kernel A) (dr_Spec req) = None
    then su_calls S' = su_calls S @ [KEmitEvent ev] \<and>
      (status_of reply = 201 \<longleftrightarrow> k_emit (ap_kernel A) (su_calls S) ev = None)
    else S' = S \<and> status_of reply = 500"
  using assms
  by (auto simp: ServeHTTP_def HasPrefix_def handleDeployments_def handleCreateDeployment_def kernel_call_def
      EmitDeploymentEvent_def Let_def split: option.splits if_splits)

section \<open>Examples\<close>

definition sample_api :: api where
  "sample_api =
     \<lparr>ap_supervisor = True, ap_kernel = sample_kernel, ap_umc = sample_umc, ap_order = stored_order,
      ap_quote = \<lambda>s. s,
      ap_decode_start = \<lambda>(b, more). if b = ''cron'' then Inr \<lparr>sr_Name = ''cron'', sr_Port = 8081\<rparr> else Inl ''syntax'',
      ap_decode_name = \<lambda>(b, more). Inr b,
      ap_decode_install = \<lambda>b. Inl ''syntax'',
      ap_decode_policy = \<lambda>(b, more). Inr \<lparr>pr_Name = ''cron'', pr_Policy = b\<rparr>,
      ap_decode_deployment = \<lambda>(b, more). Inr \<lparr>dr_ID = b, dr_Spec = []\<rparr>\<rparr>"

definition request :: "string \<Rightarrow> string \<Rightarrow> string \<Rightarrow> http_request" where
  "request m path body = \<lparr>rq_Method = m, rq_Path = path, rq_Query = [], rq_Body = body\<rparr>"

lemma limited_short [simp]: "length (rq_Body r) \<le> maxRequestBodyBytes \<Longrightarrow> limited_body r = (rq_Body r, False)"
  by (simp add: limited_body_def)

lemma short_request: "length body \<le> 100 \<Longrightarrow> limited_body (request m path body) = (body, False)"
  by (simp add: request_def maxRequestBodyBytes_def)

definition start_cron :: http_request where
  "start_cron = request ''POST'' ''/supervisor/umc'' ''cron''"

lemma start_cron_served: "ServeHTTP sample_api start_cron sample_sup =
   (JsonReply 200 (VMap [(''status'', VStr ''started''), (''name'', VStr ''cron'')]),
    snd (StartUMC sample_umc RequestContext ''cron'' 8081 sample_sup))"
proof -
  have "fst (StartUMC sample_umc RequestContext ''cron'' 8081 sample_sup) = None" by code_simp
  moreover have "limited_body start_cron = (''cron'', False)" by (simp add: start_cron_def short_request)
  ultimately show ?thesis
    by (cases "StartUMC sample_umc RequestContext ''cron'' 8081 sample_sup")
       (simp add: ServeHTTP_def HasPrefix_def handleSupervisor_def handleSupervisorUMC_def sample_api_def
         start_cron_def request_def)
qed

lemma sample_umc_api: "ap_umc sample_api = sample_umc"
  by (simp add: sample_api_def)

theorem api_stays_safe_witness:
  "\<exists>exe env. ProcStart exe env \<in> set (su_calls (snd (serve_all sample_api [start_cron] sample_sup))) \<and>
     env = sanitizedEnv sample_umc ''/k.sock'' ''info''"
proof -
  let ?S = "snd (StartUMC sample_umc RequestContext ''cron'' 8081 sample_sup)"
  have s: "serve_all sample_api [start_cron] (NewSupervisor ''/k.sock'' ''info'' 0 0 umc_fs) =
      ([JsonReply 200 (VMap [(''status'', VStr ''started''), (''name'', VStr ''cron'')])], ?S)"
    using start_cron_served by (simp add: sample_sup_def)
  have "ProcStart ''/home/u/.underleaf/bin/cron-serve'' [''PATH=/bin'', ''HOME=/home/u'',
      ''KERNEL_SOCKET=/k.sock'', ''LOG_LEVEL=info''] \<in> set (su_calls ?S)" by code_simp
  from this api_stays_safe [OF s] this show ?thesis using s by (auto simp: sample_umc_api sample_sup_def)
qed

theorem refused_changes_nothing_witness:
  "snd (ServeHTTP sample_api (request ''GET'' ''/supervisor/umc'' ''cron'') sample_sup) = sample_sup"
proof -
  have "ServeHTTP sample_api (request ''GET'' ''/supervisor/umc'' ''cron'') sample_sup =
      (HttpError 405 ''method not allowed'', sample_sup)"
    by (simp add: ServeHTTP_def HasPrefix_def handleSupervisor_def handleSupervisorUMC_def sample_api_def request_def)
  from refused_changes_nothing [OF this] this show ?thesis by simp
qed

theorem api_start_bound_witness:
  "\<exists>p. running_as (snd (ServeHTTP sample_api start_cron sample_sup)) ''cron'' = Some p \<and>
     cd_Context (up_Command p) = Some RequestContext"
proof -
  have r: "(sup_step (ap_umc sample_api))\<^sup>*\<^sup>* (NewSupervisor ''/k.sock'' ''info'' 0 0 umc_fs) sample_sup"
    by (simp add: sample_sup_def)
  have "limited_body start_cron = (''cron'', False)" by (simp add: start_cron_def short_request)
  then show ?thesis
    using api_start_bound [OF r start_cron_served] start_cron_served
    by (auto simp: sample_api_def start_cron_def request_def)
qed

theorem api_policy_witness:
  "umcs (snd (ServeHTTP sample_api (request ''PUT'' ''/supervisor/umc/policy'' ''never'') started_sup)) =
     (umcs started_sup)(''cron'' \<mapsto> (8081, True, RestartPolicyNever))"
proof -
  have r: "(sup_step (ap_umc sample_api))\<^sup>*\<^sup>* (NewSupervisor ''/k.sock'' ''info'' 0 0 umc_fs) started_sup"
    using started_reachable by (simp add: sample_umc_api)
  have d: "ap_decode_policy sample_api (limited_body (request ''PUT'' ''/supervisor/umc/policy'' ''never'')) =
      Inr \<lparr>pr_Name = ''cron'', pr_Policy = ''never''\<rparr>"
    by (simp add: short_request sample_api_def)
  have p: "rq_Path (request ''PUT'' ''/supervisor/umc/policy'' ''never'') = ''/supervisor/umc/policy''"
    "rq_Method (request ''PUT'' ''/supervisor/umc/policy'' ''never'') = ''PUT''" "ap_supervisor sample_api"
    using started_facts(1) by (simp_all add: request_def sample_api_def)
  have u: "umcs started_sup ''cron'' = Some (8081, True, RestartPolicyAlways)" by code_simp
  from api_policy [OF r prod.collapse [symmetric] p(1,3)] p(2) d u show ?thesis by auto
qed

theorem api_create_emits_witness:
  "su_calls (snd (ServeHTTP sample_api (request ''POST'' ''/deployments'' []) sample_sup)) =
     su_calls sample_sup @ [KEmitEvent (deployment_event ''deployment.created'' [] [])]"
proof -
  have d: "ap_decode_deployment sample_api (limited_body (request ''POST'' ''/deployments'' [])) =
      Inr \<lparr>dr_ID = [], dr_Spec = []\<rparr>" by (simp add: short_request sample_api_def)
  have p: "rq_Path (request ''POST'' ''/deployments'' []) = ''/deployments''"
    "rq_Method (request ''POST'' ''/deployments'' []) = ''POST''" by (simp_all add: request_def)
  from api_create_emits [OF prod.collapse [symmetric] p d refl] show ?thesis
    by (simp add: sample_api_def sample_kernel_def)
qed

end
