(* ===== verification/Startup.thy ===== *)
theory Startup
  imports Supervisor
begin

text \<open>
  The supervisor's lifecycle component (\<open>cmd/serve/main.go\<close>): finding and parsing the manifest and
  starting what it lists, and the stop at shutdown. It composes the manifest, the file system and
  the supervisor; YAML decoding, the environment and the paths of the process are parameters.
\<close>

record process_info =
  pi_manifest_env :: string \<comment> \<open>\<open>UMCS_MANIFEST\<close>, empty if unset\<close>
  pi_cwd :: string \<comment> \<open>empty after an error\<close>
  pi_executable :: string
  pi_yaml :: "string \<Rightarrow> string + UMCConfig list"

definition os_stat :: "umc_host \<Rightarrow> fs \<Rightarrow> string \<Rightarrow> os_error + node" where
  "os_stat U fs path = stat fs (path_comps (uh_host U) path)"

definition manifest_path :: "umc_host \<Rightarrow> process_info \<Rightarrow> fs \<Rightarrow> string" where
  "manifest_path U P fs =
     (if pi_manifest_env P \<noteq> [] then pi_manifest_env P
      else if os_stat U fs (Join [pi_cwd P, ''umcs.yaml'']) = Inl ENOENT
        then Join [Dir (pi_executable P), ''umcs.yaml'']
      else Join [pi_cwd P, ''umcs.yaml''])"

definition read_text :: "umc_host \<Rightarrow> fs \<Rightarrow> string \<Rightarrow> string + string" where
  "read_text U fs path =
     (case os_read (uh_host U) (path_comps (uh_host U) path) fs of
        Inl e \<Rightarrow> Inl (ho_error_text (uh_host U) e)
      | Inr (content, mode) \<Rightarrow> Inr content)"

fun auto_start :: "umc_host \<Rightarrow> UMCConfig list \<Rightarrow> supervisor \<Rightarrow> supervisor" where
  "auto_start U [] S = S"
| "auto_start U (umc # rest) S =
     auto_start U rest (snd (StartUMC U ComponentContext (mc_Name umc) (mc_Port umc) S))"

definition SupervisorComponent_Start :: "umc_host \<Rightarrow> process_info \<Rightarrow> supervisor \<Rightarrow> supervisor" where
  "SupervisorComponent_Start U P S =
     (let manifestPath = manifest_path U P (su_fs S)
      in case os_stat U (su_fs S) manifestPath of
           Inl e \<Rightarrow> S
         | Inr n \<Rightarrow>
             (case Parse (read_text U (su_fs S)) (pi_yaml P) manifestPath of
                Inl e \<Rightarrow> S
              | Inr m \<Rightarrow> auto_start U m S))"

definition SupervisorComponent_Stop :: "umc_host \<Rightarrow> iter_order \<Rightarrow> supervisor \<Rightarrow> sup_error option \<times> supervisor" where
  "SupervisorComponent_Stop U \<pi> S = Shutdown U \<pi> S"

section \<open>What is started\<close>

definition start_ops :: "UMCConfig list \<Rightarrow> umc_op list" where
  "start_ops m = map (\<lambda>umc. OpStart (mc_Name umc) (mc_Port umc)) m"

lemma auto_start_run: "auto_start U m S = sup_table.run U ComponentContext (start_ops m) S"
  by (induction m arbitrary: S) (simp_all add: start_ops_def)

lemma start_ops_no_policy: "\<forall>n policy. OpPolicy n policy \<notin> set (start_ops m)"
  by (auto simp: start_ops_def)

lemma auto_start_steps: "(sup_step U)\<^sup>*\<^sup>* S (auto_start U m S)"
proof (induction m arbitrary: S)
  case (Cons umc m)
  have "sup_step U S (snd (StartUMC U ComponentContext (mc_Name umc) (mc_Port umc) S))"
    by (rule sup_step.start [of _ ComponentContext "mc_Name umc" "mc_Port umc" _
          "fst (StartUMC U ComponentContext (mc_Name umc) (mc_Port umc) S)"]) simp
  then show ?case using Cons.IH by (auto intro: converse_rtranclp_into_rtranclp)
qed simp

lemma Start_is_auto_start: "\<exists>m. SupervisorComponent_Start U P S = auto_start U m S \<and>
    (m = [] \<or> Parse (read_text U (su_fs S)) (pi_yaml P) (manifest_path U P (su_fs S)) = Inr m)"
  by (auto simp: SupervisorComponent_Start_def Let_def intro: exI [of _ "[]"] split: sum.splits)

text \<open>The names an automatic start can add.\<close>

lemma auto_start_dom:
  assumes "sup_ok U S"
  shows "dom (umcs (auto_start U m S)) \<subseteq> dom (umcs S) \<union> mc_Name ` set m"
  using assms
proof (induction m arbitrary: S)
  case (Cons umc m)
  obtain r S1 where 1: "StartUMC U ComponentContext (mc_Name umc) (mc_Port umc) S = (r, S1)" by fastforce
  have "dom (umcs S1) \<subseteq> dom (umcs S) \<union> {mc_Name umc}"
    using start_view(1) [OF 1 Cons.prems] by (auto simp: view_started_def split: if_splits)
  moreover have "dom (umcs (auto_start U m S1)) \<subseteq> dom (umcs S1) \<union> mc_Name ` set m"
    by (rule Cons.IH [OF start_keeps_ok [OF 1 Cons.prems]])
  ultimately have "dom (umcs (auto_start U m S1)) \<subseteq> dom (umcs S) \<union> insert (mc_Name umc) (mc_Name ` set m)"
    by blast
  then show ?case using 1 by simp
qed simp

lemma new_ok: "sup_ok U (NewSupervisor ks ll ht gs fs)"
  by (rule reachable_ok, rule rtranclp.rtrancl_refl)

text \<open>
  C39. The restart policies of the manifest are not applied: after the start-up every component in
  the table has the policy \<open>always\<close>, whatever its entry says. The table only gains components of
  the manifest, and keeps what it had.
\<close>
theorem manifest_policy_ignored:
  assumes "S = NewSupervisor ks ll ht gs fs" and "S' = SupervisorComponent_Start U P S"
    and "Parse (read_text U fs) (pi_yaml P) (manifest_path U P fs) = Inr m"
  shows "\<forall>n port run policy. umcs S' n = Some (port, run, policy) \<longrightarrow>
    policy = RestartPolicyAlways \<and> n \<in> mc_Name ` set m"
proof -
  have ok: "sup_ok U S" unfolding assms(1) by (rule new_ok)
  obtain m' where m': "S' = auto_start U m' S" "m' = [] \<or> m' = m"
    using Start_is_auto_start [of U P S] assms by (auto simp: NewSupervisor_def)
  have e: "umcs S = Map.empty" by (auto simp: assms(1) NewSupervisor_def umcs_def fun_eq_iff)
  have "all_always (umcs S')" unfolding m'(1) auto_start_run
    by (rule sup_table.run_always [OF ok _ start_ops_no_policy]) (simp add: e all_always_def)
  moreover have "dom (umcs S') \<subseteq> mc_Name ` set m" using auto_start_dom [OF ok, of m'] m' e by auto
  ultimately show ?thesis by (auto simp: all_always_def)
qed

lemma auto_start_append: "auto_start U (m @ m') S = auto_start U m' (auto_start U m S)"
  by (induction m arbitrary: S) simp_all

lemma auto_start_other:
  assumes "sup_ok U S" and "n \<notin> mc_Name ` set m"
  shows "umcs (auto_start U m S) n = umcs S n"
  using assms
proof (induction m arbitrary: S)
  case (Cons umc m)
  obtain r S1 where 1: "StartUMC U ComponentContext (mc_Name umc) (mc_Port umc) S = (r, S1)" by fastforce
  have "umcs S1 n = umcs S n"
    using start_view(1) [OF 1 Cons.prems(1)] Cons.prems(2) by (auto simp: view_started_def)
  then show ?case using Cons.IH [OF start_keeps_ok [OF 1 Cons.prems(1)]] Cons.prems(2) 1 by simp
qed simp

text \<open>
  The binary of a component in a home directory without links. The PID file of the cron engine,
  the only thing a start writes, leaves it there.
\<close>

definition home_binary :: "string list \<Rightarrow> string \<Rightarrow> fs \<Rightarrow> bool" where
  "home_binary hs name fs \<longleftrightarrow> jail hs fs \<and> map_of fs (hs @ [''.underleaf'']) = Some NDir \<and>
     map_of fs (hs @ [''.underleaf'', ''bin'']) = Some NDir \<and>
     (\<exists>d m. map_of fs (hs @ [''.underleaf'', ''bin'', name @ ''-serve'']) = Some (NFile d m))"

lemma walk_dirs_last:
  assumes "plain_path (cs @ [c])" and "\<And>k. 0 < k \<Longrightarrow> k \<le> length cs \<Longrightarrow> map_of fs (cur @ take k cs) = Some NDir"
    and "map_of fs (cur @ cs @ [c]) = Some (NFile d m)"
  shows "walk n follow fs cur (cs @ [c]) = Inr (cur @ cs @ [c])"
  using assms
proof (induction cs arbitrary: cur)
  case Nil
  then show ?case by (simp add: walk.simps(2) plain_def)
next
  case (Cons b cs)
  have "map_of fs (cur @ [b]) = Some NDir" using Cons.prems(2) [of 1] by simp
  moreover have "map_of fs ((cur @ [b]) @ take k cs) = Some NDir" if "0 < k" "k \<le> length cs" for k
    using Cons.prems(2) [of "Suc k"] that by simp
  moreover have "b \<noteq> []" "b \<noteq> ''.''" "b \<noteq> ''..''" using Cons.prems(1) by (auto simp: plain_def)
  ultimately show ?case
    using Cons.IH [of "cur @ [b]"] Cons.prems(1,3) by (simp add: walk.simps(2))
qed

lemma find_home_binary:
  assumes "home_binary hs name fs" and "uh_home U = Inr (abs_path hs)" and "validateUMCName name = None"
  shows "findExecutable U name fs = abs_path (hs @ [''.underleaf'', ''bin'', name @ ''-serve''])"
proof -
  let ?exe = "hs @ [''.underleaf'', ''bin'', name @ ''-serve'']" and ?bin = "hs @ [''.underleaf'', ''bin'']"
  have j: "jail hs fs" "plain_path hs" using assms(1) by (simp_all add: home_binary_def jail_def)
  have pl: "plain (name @ ''-serve'')" using valid_name_plain [OF assms(3)] by simp
  have pe: "plain_path ?exe" "plain_path ?bin" using j(2) pl by (simp_all add: plain_def)
  have dir: "map_of fs (take k ?bin) = Some NDir" for k
  proof -
    consider "k \<le> length hs" | "k = Suc (length hs)" | "k \<ge> length ?bin" by fastforce
    then show ?thesis
    proof cases
      case 1
      then have "prefix (take k ?bin) hs" by (simp add: take_is_prefix)
      then show ?thesis using j(1) by (simp add: jail_def)
    qed (use assms(1) in \<open>simp_all add: home_binary_def\<close>)
  qed
  obtain d m where f: "map_of fs ?exe = Some (NFile d m)" using assms(1) by (auto simp: home_binary_def)
  have "walk max_links False fs [] (?bin @ [name @ ''-serve'']) = Inr (?bin @ [name @ ''-serve''])"
    using walk_dirs_last [of ?bin "name @ ''-serve''" fs "[]"] pe dir f by simp
  then have l: "lstat fs ?exe = Inr (NFile d m)" using f by (simp add: lstat_def)
  have "Join [abs_path hs, ''.underleaf'', ''bin'', name @ ''-serve''] = abs_path ?exe"
    by (rule Join_plain) (use j(2) pl in \<open>simp add: plain_def\<close>)
  then show ?thesis using l pe(1) by (simp add: findExecutable_def search_paths_def assms(2) Let_def)
qed

lemma mkdir_all_keeps: "map_of fs q = Some n \<Longrightarrow> map_of (snd (os_mkdir_all H cs fs)) q = Some n"
proof (induction H cs fs rule: os_mkdir_all.induct)
  case (1 H cs fs)
  have "map_of (snd (os_mkdir H cs fs1)) q = Some n" if "map_of fs1 q = Some n" for fs1
    using that by (auto simp: os_mkdir_def gomap_simps split: option.splits sum.splits)
  then show ?case using 1
    by (subst os_mkdir_all.simps) (fastforce split: sum.split node.split option.split prod.split)
qed

lemma pid_file_keeps:
  assumes "jail hs fs" and "uh_home U = Inr (abs_path hs)"
  shows "jail hs (write_pid_file U pid fs)"
    and "home_binary hs name fs \<Longrightarrow> home_binary hs name (write_pid_file U pid fs)"
proof -
  let ?run = "[''.underleaf'', ''run'']" and ?pid = "[''.underleaf'', ''run'', ''cron_engine.pid'']"
  have h: "plain_path hs" using assms(1) by (simp add: jail_def)
  have j: "Join [abs_path hs, ''.underleaf'', ''run''] = abs_path (hs @ ?run)"
    by (rule Join_plain) (use h in \<open>simp add: plain_def\<close>)
  have "Join [abs_path (hs @ ?run), ''cron_engine.pid''] = abs_path ((hs @ ?run) @ [''cron_engine.pid''])"
    by (rule Join_plain) (use h in \<open>simp add: plain_def\<close>)
  then have c: "path_comps H (Join [abs_path hs, ''.underleaf'', ''run'']) = hs @ ?run"
      "path_comps H (Join [Join [abs_path hs, ''.underleaf'', ''run''], ''cron_engine.pid'']) = hs @ ?pid" for H
    using h by (simp_all add: j plain_def)
  obtain r1 fs1 where 1: "os_mkdir_all (uh_host U) (hs @ ?run) fs = (r1, fs1)" by fastforce
  have j1: "jail hs fs1" using stays_mkdir_all [OF _ 1] assms(1) by (simp add: stays_def plain_def)
  obtain r2 fs2 where 2: "os_create (uh_host U) (hs @ ?pid) 0x180 fs1 = (r2, fs2)" by fastforce
  have pp: "plain_path ?pid" by (simp add: plain_def)
  note c2 = file_create [OF 2 j1 pp]
  have w: "write_pid_file U pid fs = (case r2 of Inl e \<Rightarrow> fs2 | Inr p \<Rightarrow> snd (os_copy (uh_host U) p (show_int pid) fs2))"
    by (simp add: write_pid_file_def assms(2) Let_def c 1 2)
  have "jail hs (write_pid_file U pid fs) \<and> changes_only {hs @ ?pid} fs1 (write_pid_file U pid fs)"
  proof (cases r2)
    case (Inl e)
    then show ?thesis using w c2 by simp
  next
    case (Inr p)
    obtain r3 fs3 where 3: "os_copy (uh_host U) (hs @ ?pid) (show_int pid) fs2 = (r3, fs3)" by fastforce
    have "jail hs fs3" "changes_only {hs @ ?pid} fs2 fs3"
      using file_copy(1,2) [OF 3] c2(1) by simp_all
    then show ?thesis using w c2(2,3) Inr 3 changes_only_trans [of "{hs @ ?pid}" fs1 fs2 "{hs @ ?pid}" fs3] by simp
  qed
  then show jw: "jail hs (write_pid_file U pid fs)"
    and "home_binary hs name fs \<Longrightarrow> home_binary hs name (write_pid_file U pid fs)"
    using mkdir_all_keeps [of fs _ _ "uh_host U" "hs @ ?run"] 1
    by (auto simp: home_binary_def changes_only_def)
qed

lemma auto_start_tree:
  assumes "uh_home U = Inr (abs_path hs)" and "home_binary hs name (su_fs S)"
  shows "home_binary hs name (su_fs (auto_start U m S))"
  using assms(2)
proof (induction m arbitrary: S)
  case (Cons umc m)
  obtain r S1 where 1: "StartUMC U ComponentContext (mc_Name umc) (mc_Port umc) S = (r, S1)" by fastforce
  have j: "jail hs (su_fs S)" using Cons.prems by (simp add: home_binary_def)
  from 1 have "home_binary hs name (su_fs S1)"
    by (cases rule: StartUMC_cases) (use Cons.prems pid_file_keeps(2) [OF j assms(1)] in simp_all)
  then show ?case using Cons.IH 1 by simp
qed simp

text \<open>
  C38. One component that cannot be started does not keep the others from starting: after the
  start-up from a manifest that parses, the cron engine's entry included, an entry is in the table,
  running under its port, exactly if its name is valid and, when its turn comes, its executable is
  found and can be started, however the entries before it fared. The executable of a binary in a
  home directory without links is found whatever was started before.
\<close>
theorem startup_starts_all:
  assumes "S = NewSupervisor ks ll ht gs fs" and "S' = SupervisorComponent_Start U P S"
    and "os_stat U fs (manifest_path U P fs) = Inr node"
    and "Parse (read_text U fs) (pi_yaml P) (manifest_path U P fs) = Inr m"
    and "m = pre @ umc # post" and "S1 = auto_start U pre S"
    and "exe = findExecutable U (mc_Name umc) (su_fs S1)"
  shows "umcs S' (mc_Name umc) =
      (if validateUMCName (mc_Name umc) = None \<and> exe \<noteq> [] \<and>
         (\<exists>pid. uh_start U (su_calls S1) exe (sanitizedEnv U ks ll) = Inr pid)
       then Some (mc_Port umc, True, RestartPolicyAlways) else None) \<and>
    (\<forall>hs. uh_home U = Inr (abs_path hs) \<and> home_binary hs (mc_Name umc) fs \<and> validateUMCName (mc_Name umc) = None \<longrightarrow>
       exe = abs_path (hs @ [''.underleaf'', ''bin'', mc_Name umc @ ''-serve'']) \<and> exe \<noteq> [])"
proof -
  let ?n = "mc_Name umc"
  have v: "distinct (map mc_Name m)" "umc_ok umc"
    using Parse_idempotent [OF assms(4)] Validate_ok [of m] assms(5) by (simp_all add: manifest_ok_def)
  have n: "?n \<notin> mc_Name ` set pre" "?n \<notin> mc_Name ` set post" using v(1) assms(5) by auto
  have S: "su_fs S = fs" "su_KernelSocket S = ks" "su_LogLevel S = ll" "umcs S = Map.empty"
    by (auto simp: assms(1) NewSupervisor_def umcs_def fun_eq_iff)
  have ok: "sup_ok U S" unfolding assms(1) by (rule new_ok)
  have steps: "(sup_step U)\<^sup>*\<^sup>* (NewSupervisor ks ll ht gs fs) S1"
    unfolding assms(6) assms(1) by (rule auto_start_steps)
  have c1: "su_KernelSocket S1 = ks" "su_LogLevel S1 = ll" using config_kept_new [OF steps] by simp_all
  note ok1 = reachable_ok [OF steps]
  have u1: "umcs S1 ?n = None" using auto_start_other [OF ok n(1)] S(4) assms(6) by simp
  then have "running_as S1 ?n = None" by (auto simp: umcs_def running_as_def split: option.splits)
  then have r: "fst (StartUMC U ComponentContext ?n (mc_Port umc) S1) = None \<longleftrightarrow> validateUMCName ?n = None \<and>
      exe \<noteq> [] \<and> (\<exists>pid. uh_start U (su_calls S1) exe (sanitizedEnv U ks ll) = Inr pid)"
    using v(2) c1 by (auto simp: StartUMC_def Let_def umc_ok_def assms(7) split: option.splits sum.splits)
  obtain o2 S2 where 2: "StartUMC U ComponentContext ?n (mc_Port umc) S1 = (o2, S2)" by fastforce
  have "S' = auto_start U post S2"
    using 2 assms(2-6) S(1) by (simp add: SupervisorComponent_Start_def auto_start_append)
  then have "umcs S' ?n = umcs S2 ?n" using auto_start_other [OF start_keeps_ok [OF 2 ok1] n(2)] by simp
  moreover have "umcs S2 ?n = (if o2 = None then Some (mc_Port umc, True, RestartPolicyAlways) else None)"
    using start_view(1) [OF 2 ok1] u1 by (simp add: view_started_def)
  moreover have "exe = abs_path (hs @ [''.underleaf'', ''bin'', ?n @ ''-serve'']) \<and> exe \<noteq> []"
    if "uh_home U = Inr (abs_path hs)" "home_binary hs ?n fs" "validateUMCName ?n = None" for hs
    using find_home_binary [OF auto_start_tree [OF that(1)] that(1,3)] that(2) S(1)
    by (simp add: assms(6,7) abs_path_def)
  ultimately show ?thesis using r 2 by auto
qed

section \<open>Examples\<close>

definition sample_manifest :: "UMCConfig list" where
  "sample_manifest = [\<lparr>mc_Name = ''gone'', mc_Port = 8080, mc_RestartPolicy = ''always''\<rparr>,
     \<lparr>mc_Name = ''cron'', mc_Port = 8081, mc_RestartPolicy = ''never''\<rparr>]"

definition sample_process :: process_info where
  "sample_process = \<lparr>pi_manifest_env = ''/home/u/umcs.yaml'', pi_cwd = ''/'', pi_executable = ''/opt/de/serve'',
     pi_yaml = \<lambda>s. Inr sample_manifest\<rparr>"

definition manifest_fs :: fs where
  "manifest_fs = umc_fs @ [([''home'', ''u'', ''umcs.yaml''], NFile ''umcs'' 0x1A4)]"

lemma sample_parse: "Parse (read_text sample_umc manifest_fs) (pi_yaml sample_process)
    (manifest_path sample_umc sample_process manifest_fs) = Inr sample_manifest"
  by code_simp

text \<open>The manifest of the repository after an entry without a binary, in a home with the cron engine's.\<close>

definition cron_manifest :: "UMCConfig list" where
  "cron_manifest = [\<lparr>mc_Name = ''gone'', mc_Port = 8080, mc_RestartPolicy = ''always''\<rparr>,
     \<lparr>mc_Name = ''cron-engine'', mc_Port = 8081, mc_RestartPolicy = ''always''\<rparr>]"

definition cron_process :: process_info where
  "cron_process = sample_process\<lparr>pi_yaml := \<lambda>s. Inr cron_manifest\<rparr>"

definition cron_fs :: fs where
  "cron_fs = manifest_fs @ [([''home'', ''u'', ''.underleaf'', ''bin'', ''cron-engine-serve''], NFile ''elf'' 0x1ED)]"

lemma cron_jail: "jail [''home'', ''u''] cron_fs"
  by (rule jail_check) code_simp+

theorem startup_starts_all_witness:
  "umcs (SupervisorComponent_Start sample_umc cron_process (NewSupervisor [] [] 0 0 cron_fs)) ''cron-engine'' =
     Some (8081, True, RestartPolicyAlways)"
proof -
  let ?cron = "\<lparr>mc_Name = ''cron-engine'', mc_Port = 8081, mc_RestartPolicy = ''always''\<rparr>"
  let ?path = "manifest_path sample_umc cron_process cron_fs"
  have c: "os_stat sample_umc cron_fs ?path = Inr (NFile ''umcs'' 0x1A4)"
    "Parse (read_text sample_umc cron_fs) (pi_yaml cron_process) ?path = Inr cron_manifest"
    "validateUMCName (mc_Name ?cron) = None" by code_simp+
  have m: "cron_manifest = [hd cron_manifest] @ ?cron # []" by (simp add: cron_manifest_def)
  have h: "home_binary [''home'', ''u''] (mc_Name ?cron) cron_fs"
    using cron_jail by (simp add: home_binary_def cron_fs_def manifest_fs_def umc_fs_def)
  from startup_starts_all [OF refl refl c(1,2) m refl refl] umc_home h c(3) show ?thesis
    using sample_starts by (fastforce split: if_splits)
qed

theorem manifest_policy_ignored_witness:
  "GetRestartPolicy (sample_manifest ! 1) = RestartPolicyNever \<and> mc_Name (sample_manifest ! 1) = ''cron'' \<and>
   (\<exists>policy. umcs (SupervisorComponent_Start sample_umc sample_process (NewSupervisor [] [] 0 0 manifest_fs)) ''cron'' =
     Some (8081, True, policy) \<and> policy = RestartPolicyAlways)"
proof -
  have s: "SupervisorComponent_Start sample_umc sample_process (NewSupervisor [] [] 0 0 manifest_fs) =
      auto_start sample_umc sample_manifest (NewSupervisor [] [] 0 0 manifest_fs)"
  proof -
    have "os_stat sample_umc manifest_fs (manifest_path sample_umc sample_process manifest_fs) = Inr (NFile ''umcs'' 0x1A4)"
      by code_simp
    then show ?thesis using sample_parse by (simp add: SupervisorComponent_Start_def NewSupervisor_def)
  qed
  have "map_option (\<lambda>(port, run, policy). (port, run)) (umcs (auto_start sample_umc sample_manifest
      (NewSupervisor [] [] 0 0 manifest_fs)) ''cron'') = Some (8081, True)" by code_simp
  then obtain policy where p: "umcs (SupervisorComponent_Start sample_umc sample_process
      (NewSupervisor [] [] 0 0 manifest_fs)) ''cron'' = Some (8081, True, policy)" unfolding s by auto
  with manifest_policy_ignored [OF refl refl sample_parse] have "policy = RestartPolicyAlways" by blast
  then show ?thesis using p by (simp add: sample_manifest_def GetRestartPolicy_def)
qed

end
