(* ===== verification/Recipe.thy ===== *)
theory Recipe
  imports World
begin

text \<open>
  The recipe reconciler (\<open>internal/recipe/reconciler.go\<close>): one GET for a recipe and the decoding of
  its answer. The HTTP answer and \<open>json.Unmarshal\<close> are parameters.
\<close>

record recipe_response =
  re_StatusCode :: int
  re_Body :: string
  re_BodyError :: "string option"

datatype recipe_error =
    FetchFailed string string
  | RecipeStatus string int
  | ReadResponseFailed string
  | ParseRecipeFailed string string

definition recipe_url :: "string \<Rightarrow> string \<Rightarrow> string" where
  "recipe_url mmaBaseURL recipeID = mmaBaseURL @ ''/api/v1/recipes/'' @ recipeID"

definition ResolveRecipe ::
    "(history \<Rightarrow> string \<Rightarrow> string + recipe_response) \<Rightarrow> (string \<Rightarrow> string + payload) \<Rightarrow> string \<Rightarrow>
     string \<Rightarrow> string gomap \<Rightarrow> (recipe_error + payload) action" where
  "ResolveRecipe get unmarshal mmaBaseURL recipeID variables h =
     (let url = recipe_url mmaBaseURL recipeID;
          h1 = h @ [HttpGet url []]
      in case get h url of
           Inl e \<Rightarrow> (Inl (FetchFailed recipeID e), h1)
         | Inr resp \<Rightarrow>
             if re_StatusCode resp \<noteq> 200 then (Inl (RecipeStatus recipeID (re_StatusCode resp)), h1)
             else
               (case re_BodyError resp of
                  Some e \<Rightarrow> (Inl (ReadResponseFailed e), h1)
                | None \<Rightarrow>
                    (case unmarshal (re_Body resp) of
                       Inl e \<Rightarrow> (Inl (ParseRecipeFailed recipeID e), h1)
                     | Inr result \<Rightarrow> (Inr result, h1))))"

text \<open>
  Resolving a recipe makes one request, and succeeds exactly if it is answered with status 200
  and a complete body that parses; the result is the parsed body as it stands, whatever the
  variables, which are not substituted.
\<close>
theorem ResolveRecipe_result:
  "snd (ResolveRecipe get unmarshal base recipeID variables h) = h @ [HttpGet (recipe_url base recipeID) []] \<and>
   (fst (ResolveRecipe get unmarshal base recipeID variables h) = Inr result \<longleftrightarrow>
     (\<exists>resp. get h (recipe_url base recipeID) = Inr resp \<and> re_StatusCode resp = 200 \<and>
       re_BodyError resp = None \<and> unmarshal (re_Body resp) = Inr result)) \<and>
   ResolveRecipe get unmarshal base recipeID variables = ResolveRecipe get unmarshal base recipeID []"
  by (auto simp: ResolveRecipe_def Let_def fun_eq_iff split: sum.splits option.splits)

end
