(* ===== verification/Supervisor_Locks.thy ===== *)
theory Supervisor_Locks
  imports Main
begin

text \<open>
  The locking of the supervisor (\<open>internal/supervisor/supervisor.go\<close>): the table's lock \<open>s.mu\<close> and the
  mutex \<open>proc.mu\<close> of each process. Each operation, and the monitor of a process, is the sequence of
  its lock calls and of the waits between them; goroutines interleave under the rules of
  \<open>sync.RWMutex\<close> and \<open>sync.Mutex\<close>: readers share the lock, a writer excludes everybody, and once a
  writer waits no new reader is admitted, which the package documents as the reason not to
  read-lock recursively. \<open>Wait\<close> stands for a wait for something other than these locks: the end of a
  child process, a timeout, a health request, a pause. Here every wait ends by itself, so that
  blocking is blocking on the locks; that \<open>os/exec\<close> returns from each \<open>Wait\<close> for an ended process,
  also from the ones \<open>StopUMC\<close> makes beside the monitor's, is left to it.
\<close>

datatype lock_op = RLock | RUnlock | Lock | Unlock | PLock nat | PUnlock nat | Wait

record lock_state =
  lk_readers :: nat
  lk_writer :: bool
  lk_pending :: "nat set" \<comment> \<open>the goroutines waiting in \<open>Lock\<close>\<close>
  lk_held :: "nat set" \<comment> \<open>the processes whose mutex is locked\<close>
  lk_progs :: "lock_op list list" \<comment> \<open>what each goroutine still has to do\<close>

definition lock_init :: "lock_op list list \<Rightarrow> lock_state" where
  "lock_init progs =
     \<lparr>lk_readers = 0, lk_writer = False, lk_pending = {}, lk_held = {}, lk_progs = progs\<rparr>"

abbreviation goes_on :: "nat \<Rightarrow> lock_op list \<Rightarrow> lock_state \<Rightarrow> lock_state" where
  "goes_on i q s \<equiv> s\<lparr>lk_progs := (lk_progs s)[i := q]\<rparr>"

inductive lock_step :: "lock_state \<Rightarrow> lock_state \<Rightarrow> bool" where
  rlock: "i < length (lk_progs s) \<Longrightarrow> lk_progs s ! i = RLock # q \<Longrightarrow> \<not> lk_writer s \<Longrightarrow> lk_pending s = {} \<Longrightarrow>
    lock_step s (goes_on i q (s\<lparr>lk_readers := lk_readers s + 1\<rparr>))"
| runlock: "i < length (lk_progs s) \<Longrightarrow> lk_progs s ! i = RUnlock # q \<Longrightarrow>
    lock_step s (goes_on i q (s\<lparr>lk_readers := lk_readers s - 1\<rparr>))"
| announce: "i < length (lk_progs s) \<Longrightarrow> lk_progs s ! i = Lock # q \<Longrightarrow> i \<notin> lk_pending s \<Longrightarrow>
    lock_step s (s\<lparr>lk_pending := insert i (lk_pending s)\<rparr>)"
| acquire: "i < length (lk_progs s) \<Longrightarrow> lk_progs s ! i = Lock # q \<Longrightarrow> i \<in> lk_pending s \<Longrightarrow>
    lk_readers s = 0 \<Longrightarrow> \<not> lk_writer s \<Longrightarrow>
    lock_step s (goes_on i q (s\<lparr>lk_writer := True, lk_pending := lk_pending s - {i}\<rparr>))"
| unlock: "i < length (lk_progs s) \<Longrightarrow> lk_progs s ! i = Unlock # q \<Longrightarrow>
    lock_step s (goes_on i q (s\<lparr>lk_writer := False\<rparr>))"
| plock: "i < length (lk_progs s) \<Longrightarrow> lk_progs s ! i = PLock j # q \<Longrightarrow> j \<notin> lk_held s \<Longrightarrow>
    lock_step s (goes_on i q (s\<lparr>lk_held := insert j (lk_held s)\<rparr>))"
| punlock: "i < length (lk_progs s) \<Longrightarrow> lk_progs s ! i = PUnlock j # q \<Longrightarrow>
    lock_step s (goes_on i q (s\<lparr>lk_held := lk_held s - {j}\<rparr>))"
| wait: "i < length (lk_progs s) \<Longrightarrow> lk_progs s ! i = Wait # q \<Longrightarrow> lock_step s (goes_on i q s)"

inductive_cases lock_stepE: "lock_step s s'"

section \<open>The operations' lock calls\<close>

text \<open>
  A lookup finds the process \<open>Some i\<close>, or \<open>None\<close> if the name is unknown or its process is not running,
  which ends the operation with an error. The operations that check their arguments first take no
  lock at all when they refuse them.
\<close>

definition StartUMC_locks :: "lock_op list" where
  "StartUMC_locks = [Lock, Unlock]"

fun StopUMC_locks :: "nat option \<Rightarrow> lock_op list" where
  "StopUMC_locks None = [Lock, Unlock]"
| "StopUMC_locks (Some i) = [Lock, Unlock, PLock i, Wait, PUnlock i]"

fun StatusUMC_locks :: "nat option \<Rightarrow> lock_op list" where
  "StatusUMC_locks None = [RLock, RUnlock]"
| "StatusUMC_locks (Some i) = [RLock, RUnlock, PLock i, Wait, PUnlock i]"

text \<open>\<open>ListUMCs\<close> calls \<open>StatusUMC\<close> for each process of the table, \<open>is\<close>, while it holds the lock.\<close>

definition ListUMCs_locks :: "nat list \<Rightarrow> lock_op list" where
  "ListUMCs_locks is = [RLock] @ concat (map (\<lambda>i. StatusUMC_locks (Some i)) is) @ [RUnlock]"

definition Shutdown_locks :: "nat option list \<Rightarrow> lock_op list" where
  "Shutdown_locks is = [Lock, Unlock] @ concat (map StopUMC_locks is) @ [Wait]"

text \<open>\<open>RestartUMC\<close> looks the process up itself, and again in its call of \<open>StopUMC\<close>.\<close>

fun RestartUMC_locks :: "bool \<Rightarrow> nat option \<Rightarrow> lock_op list" where
  "RestartUMC_locks False i = [RLock, RUnlock]"
| "RestartUMC_locks True None = [RLock, RUnlock] @ StopUMC_locks None"
| "RestartUMC_locks True (Some i) = [RLock, RUnlock] @ StopUMC_locks (Some i) @ [Wait] @ StartUMC_locks"

definition SetRestartPolicy_locks :: "lock_op list" where
  "SetRestartPolicy_locks = [Lock, Unlock]"

text \<open>
  A monitor that restarts its process \<open>n\<close> times and then returns: after the decision not to restart
  it, or, if \<open>late\<close>, after the backoff. A round waits for the process, records its end, reads the
  backoff, waits it out and records the new process.
\<close>

definition monitorUMC_locks :: "nat \<Rightarrow> nat \<Rightarrow> bool \<Rightarrow> lock_op list" where
  "monitorUMC_locks i n late =
     concat (replicate n [Wait, PLock i, PUnlock i, PLock i, PUnlock i, Wait, PLock i, PUnlock i]) @
     [Wait, PLock i, PUnlock i] @ (if late then [PLock i, PUnlock i, Wait] else [])"

definition finished :: "lock_state \<Rightarrow> bool" where
  "finished s \<longleftrightarrow> (\<forall>p \<in> set (lk_progs s). p = [])"

section \<open>Progress of the operations that do not nest\<close>

fun flat :: "lock_op list \<Rightarrow> bool" where
  "flat [] \<longleftrightarrow> True"
| "flat (Wait # p) \<longleftrightarrow> flat p"
| "flat (RLock # RUnlock # p) \<longleftrightarrow> flat p"
| "flat (Lock # Unlock # p) \<longleftrightarrow> flat p"
| "flat (PLock i # PUnlock j # p) \<longleftrightarrow> i = j \<and> flat p"
| "flat (PLock i # Wait # PUnlock j # p) \<longleftrightarrow> i = j \<and> flat p"
| "flat _ \<longleftrightarrow> False"

lemma flat_append: "flat p \<Longrightarrow> flat q \<Longrightarrow> flat (p @ q)"
  by (induction p rule: flat.induct) simp_all

lemma flat_concat: "\<forall>p \<in> set ps. flat p \<Longrightarrow> flat (concat ps)"
  by (induction ps) (simp_all add: flat_append)

lemma flat_ops: "flat StartUMC_locks" "flat (StopUMC_locks i)" "flat (StatusUMC_locks i)" "flat (Shutdown_locks is)"
    "flat (RestartUMC_locks found i)" "flat SetRestartPolicy_locks" "flat (monitorUMC_locks j n late)"
proof -
  show stop: "flat (StopUMC_locks i)" for i by (cases i) simp_all
  show "flat (StatusUMC_locks i)" by (cases i) simp_all
  show "flat (RestartUMC_locks found i)" by (cases found; cases i) (simp_all add: StartUMC_locks_def)
  show "flat (Shutdown_locks is)" unfolding Shutdown_locks_def using stop
    by (intro flat_append flat_concat) simp_all
qed (auto simp: StartUMC_locks_def SetRestartPolicy_locks_def monitorUMC_locks_def intro!: flat_concat flat_append)

text \<open>Whether the next unlock of a goroutine is \<open>x\<close>, possibly after a wait: it is inside that section.\<close>

definition inside :: "lock_op \<Rightarrow> lock_op list \<Rightarrow> nat" where
  "inside x p = (case p of
     [] \<Rightarrow> 0 | y # q \<Rightarrow> if y = x then 1 else if y = Wait \<and> q \<noteq> [] \<and> hd q = x then 1 else 0)"

definition is_unlock :: "lock_op \<Rightarrow> bool" where
  "is_unlock x \<longleftrightarrow> x = RUnlock \<or> x = Unlock \<or> (\<exists>j. x = PUnlock j)"

definition prog_ok :: "lock_op list \<Rightarrow> bool" where
  "prog_ok p \<longleftrightarrow> flat p \<or>
     (\<exists>q. flat q \<and> (p = RUnlock # q \<or> p = Unlock # q \<or> (\<exists>j. p = PUnlock j # q \<or> p = Wait # PUnlock j # q)))"

definition count_in :: "lock_op \<Rightarrow> lock_state \<Rightarrow> nat" where
  "count_in x s = sum_list (map (inside x) (lk_progs s))"

text \<open>The locks are held exactly by the goroutines inside a section of their kind.\<close>

definition lock_ok :: "lock_state \<Rightarrow> bool" where
  "lock_ok s \<longleftrightarrow> (\<forall>p \<in> set (lk_progs s). prog_ok p) \<and> lk_readers s = count_in RUnlock s \<and>
     (if lk_writer s then 1 else 0) = count_in Unlock s \<and>
     (\<forall>j. (if j \<in> lk_held s then 1 else 0) = count_in (PUnlock j) s) \<and>
     (\<forall>i \<in> lk_pending s. i < length (lk_progs s) \<and> (\<exists>q. lk_progs s ! i = Lock # q))"

lemma count_update: "i < length ps \<Longrightarrow>
    sum_list (map (inside x) (ps[i := p])) + inside x (ps ! i) = sum_list (map (inside x) ps) + inside x p"
proof -
  assume i: "i < length ps"
  then have "inside x (ps ! i) \<le> sum_list (map (inside x) ps)"
    by (metis elem_le_sum_list length_map nth_map)
  then show ?thesis using i by (simp add: map_update sum_list_update)
qed

lemma flat_Cons: "flat (x # q) \<Longrightarrow>
    x = RLock \<and> (\<exists>p. q = RUnlock # p \<and> flat p) \<or> x = Lock \<and> (\<exists>p. q = Unlock # p \<and> flat p) \<or>
    x = Wait \<and> flat q \<or> (\<exists>j p. x = PLock j \<and> (q = PUnlock j # p \<or> q = Wait # PUnlock j # p) \<and> flat p)"
  by (cases "x # q" rule: flat.cases) auto

lemma inside_flat: "flat q \<Longrightarrow> is_unlock x \<Longrightarrow> inside x q = 0"
  by (cases q rule: flat.cases) (auto simp: inside_def is_unlock_def neq_Nil_conv dest: flat_Cons)

text \<open>What the next operation of a goroutine does to the sections it is inside.\<close>

lemma prog_ok_Cons:
  assumes "prog_ok (x # q)"
  shows "prog_ok q" and "is_unlock y \<Longrightarrow> inside y q + (if x = y then 1 else 0) = inside y (x # q) +
    (if x = RLock \<and> y = RUnlock \<or> x = Lock \<and> y = Unlock \<or> (\<exists>j. x = PLock j \<and> y = PUnlock j) then 1 else 0)"
proof -
  have c: "flat (x # q) \<or> x = RUnlock \<and> flat q \<or> x = Unlock \<and> flat q \<or> (\<exists>j. x = PUnlock j \<and> flat q) \<or>
      (x = Wait \<and> (\<exists>j p. q = PUnlock j # p \<and> flat p))"
    using assms unfolding prog_ok_def by auto
  then show "prog_ok q" unfolding prog_ok_def using flat_Cons [of x q] by blast
  assume y: "is_unlock y"
  from c show "inside y q + (if x = y then 1 else 0) = inside y (x # q) +
    (if x = RLock \<and> y = RUnlock \<or> x = Lock \<and> y = Unlock \<or> (\<exists>j. x = PLock j \<and> y = PUnlock j) then 1 else 0)"
  proof (elim disjE)
    assume "flat (x # q)"
    then show ?thesis using flat_Cons [of x q] inside_flat [OF _ y] y inside_flat [of "x # q", OF _ y]
      by (auto simp: inside_def is_unlock_def)
  qed (use y inside_flat [OF _ y] in \<open>auto simp: inside_def is_unlock_def\<close>)
qed

lemma count_next:
  assumes "i < length (lk_progs s)" and "lk_progs s ! i = x # q" and "prog_ok (x # q)" and "is_unlock y"
  shows "sum_list (map (inside y) ((lk_progs s)[i := q])) + (if x = y then 1 else 0) = count_in y s +
    (if x = RLock \<and> y = RUnlock \<or> x = Lock \<and> y = Unlock \<or> (\<exists>j. x = PLock j \<and> y = PUnlock j) then 1 else 0)"
  using count_update [OF assms(1), of y q, unfolded assms(2)] prog_ok_Cons(2) [OF assms(3,4)]
  unfolding count_in_def by linarith

lemma is_unlock_simps [simp]: "is_unlock RUnlock" "is_unlock Unlock" "is_unlock (PUnlock j)"
  by (simp_all add: is_unlock_def)

lemma lock_step_ok:
  assumes "lock_step s s'" and "lock_ok s"
  shows "lock_ok s'"
proof -
  have ps: "prog_ok (x # q)" if "lk_progs s ! i = x # q" "i < length (lk_progs s)" for i x q
    using assms(2) that nth_mem [of i "lk_progs s"] by (simp add: lock_ok_def)
  have upd: "\<forall>p \<in> set ((lk_progs s)[i := q]). prog_ok p" if "lk_progs s ! i = x # q" "i < length (lk_progs s)" for i x q
    using assms(2) prog_ok_Cons(1) [OF ps [OF that]]
    by (auto simp: lock_ok_def dest!: set_update_subset_insert [THEN subsetD])
  have pend: "(\<forall>k \<in> P. k < length ((lk_progs s)[i := q]) \<and> (\<exists>p. (lk_progs s)[i := q] ! k = Lock # p))"
    if "P \<subseteq> lk_pending s" "i \<notin> P" for P i q
  proof
    fix k assume "k \<in> P"
    with that have "k \<in> lk_pending s" "k \<noteq> i" by auto
    then show "k < length ((lk_progs s)[i := q]) \<and> (\<exists>p. (lk_progs s)[i := q] ! k = Lock # p)"
      using assms(2) by (simp add: lock_ok_def)
  qed
  have own: "i \<notin> lk_pending s" if "lk_progs s ! i = x # q" "x \<noteq> Lock" for i x q
    using assms(2) that by (auto simp: lock_ok_def)
  have held: "count_in (PUnlock k) s = (if k \<in> lk_held s then 1 else 0)" for k
    using assms(2) by (simp add: lock_ok_def)
  note n = count_next [OF _ _ ps]
  from assms(1) show ?thesis
  proof (cases rule: lock_step.cases)
    case (rlock i q)
    then show ?thesis using assms(2) upd [OF rlock(3,2)] n [OF rlock(2,3,3,2), of RUnlock] n [OF rlock(2,3,3,2), of Unlock]
        n [OF rlock(2,3,3,2), of "PUnlock j" for j] pend [of "lk_pending s" i q] own [OF rlock(3)]
      by (simp add: lock_ok_def count_in_def)
  next
    case (runlock i q)
    then show ?thesis using assms(2) upd [OF runlock(3,2)] n [OF runlock(2,3,3,2), of RUnlock]
        n [OF runlock(2,3,3,2), of Unlock] n [OF runlock(2,3,3,2), of "PUnlock j" for j]
        pend [of "lk_pending s" i q] own [OF runlock(3)]
      by (auto simp: lock_ok_def count_in_def)
  next
    case (announce i q)
    then show ?thesis using assms(2) by (auto simp: lock_ok_def count_in_def)
  next
    case (acquire i q)
    then show ?thesis using assms(2) upd [OF acquire(3,2)] n [OF acquire(2,3,3,2), of RUnlock]
        n [OF acquire(2,3,3,2), of Unlock] n [OF acquire(2,3,3,2), of "PUnlock j" for j] pend [of "lk_pending s - {i}" i q]
      by (auto simp: lock_ok_def count_in_def)
  next
    case (unlock i q)
    then show ?thesis using assms(2) upd [OF unlock(3,2)] n [OF unlock(2,3,3,2), of RUnlock]
        n [OF unlock(2,3,3,2), of Unlock] n [OF unlock(2,3,3,2), of "PUnlock j" for j]
        pend [of "lk_pending s" i q] own [OF unlock(3)]
      by (auto simp: lock_ok_def count_in_def split: if_splits)
  next
    case (plock i j q)
    have "count_in (PUnlock k) s' = (if k \<in> lk_held s' then 1 else 0)" for k
      using n [OF plock(2,3,3,2), of "PUnlock k"] held [of k] plock(4)
      by (cases "j = k") (simp_all add: plock(1) count_in_def)
    then show ?thesis using assms(2) plock(1,4) upd [OF plock(3,2)] n [OF plock(2,3,3,2), of RUnlock]
        n [OF plock(2,3,3,2), of Unlock] pend [of "lk_pending s" i q] own [OF plock(3)]
      by (auto simp: lock_ok_def count_in_def)
  next
    case (punlock i j q)
    have "count_in (PUnlock k) s' = (if k \<in> lk_held s' then 1 else 0)" for k
      using n [OF punlock(2,3,3,2), of "PUnlock k"] held [of k]
      by (cases "j = k"; cases "k \<in> lk_held s") (simp_all add: punlock(1) count_in_def del: sum_list_eq_0_iff)
    then show ?thesis using assms(2) punlock(1) upd [OF punlock(3,2)] n [OF punlock(2,3,3,2), of RUnlock]
        n [OF punlock(2,3,3,2), of Unlock] pend [of "lk_pending s" i q] own [OF punlock(3)]
      by (auto simp: lock_ok_def count_in_def)
  next
    case (wait i q)
    then show ?thesis using assms(2) upd [OF wait(3,2)] n [OF wait(2,3,3,2), of RUnlock]
        n [OF wait(2,3,3,2), of Unlock] n [OF wait(2,3,3,2), of "PUnlock j" for j]
        pend [of "lk_pending s" i q] own [OF wait(3)]
      by (auto simp: lock_ok_def count_in_def)
  qed
qed

lemma count_pos: "0 < count_in x s \<Longrightarrow> \<exists>i q. i < length (lk_progs s) \<and> (lk_progs s ! i = x # q \<or> lk_progs s ! i = Wait # x # q)"
proof -
  assume "0 < count_in x s"
  then have "\<not> (\<forall>p \<in> set (lk_progs s). inside x p = 0)"
    by (metis (no_types, lifting) count_in_def gr_implies_not0 map_idI sum_list_eq_0_iff imageE list.set_map)
  then obtain p where p: "p \<in> set (lk_progs s)" "inside x p \<noteq> 0" by blast
  then have "\<exists>q. p = x # q \<or> p = Wait # x # q"
    by (auto simp: inside_def neq_Nil_conv split: list.splits if_splits)
  then show ?thesis using p(1) by (metis in_set_conv_nth)
qed

lemma lock_progress:
  assumes "lock_ok s" and "\<not> finished s"
  shows "\<exists>s'. lock_step s s'"
proof -
  have unlocks: "\<exists>s'. lock_step s s'" if "0 < count_in x s" "is_unlock x" for x
    using count_pos [OF that(1)] that(2) lock_step.runlock lock_step.unlock lock_step.punlock lock_step.wait
    unfolding is_unlock_def by metis
  consider (writing) "lk_writer s" | (reading) "0 < lk_readers s" | (held) j where "j \<in> lk_held s"
    | (free) "\<not> lk_writer s" "lk_readers s = 0" "lk_held s = {}" by blast
  then show ?thesis
  proof cases
    case writing
    then show ?thesis using assms(1) by (intro unlocks [of Unlock]) (simp_all add: lock_ok_def)
  next
    case reading
    then show ?thesis using assms(1) by (intro unlocks [of RUnlock]) (simp_all add: lock_ok_def)
  next
    case (held j)
    then have "1 = count_in (PUnlock j) s" using assms(1) unfolding lock_ok_def by (metis (full_types))
    then show ?thesis by (intro unlocks [of "PUnlock j"]) simp_all
  next
    case free
    show ?thesis
    proof (cases "lk_pending s = {}")
      case False
      then obtain i q where "i \<in> lk_pending s" "i < length (lk_progs s)" "lk_progs s ! i = Lock # q"
        using assms(1) unfolding lock_ok_def by blast
      then show ?thesis using lock_step.acquire free by blast
    next
      case True
      obtain p where "p \<in> set (lk_progs s)" "p \<noteq> []" using assms(2) by (auto simp: finished_def)
      then obtain i x q where i: "i < length (lk_progs s)" "lk_progs s ! i = x # q"
        by (metis in_set_conv_nth list.exhaust)
      show ?thesis
        using lock_step.rlock [OF i(1)] lock_step.runlock [OF i(1)] lock_step.announce [OF i(1)] lock_step.unlock [OF i(1)]
          lock_step.plock [OF i(1)] lock_step.punlock [OF i(1)] lock_step.wait [OF i(1)] i(2) free True
        by (cases x) blast+
    qed
  qed
qed

lemma lock_init_ok: "\<forall>p \<in> set progs. flat p \<Longrightarrow> lock_ok (lock_init progs)"
proof -
  assume f: "\<forall>p \<in> set progs. flat p"
  then have "map (inside x) progs = map (\<lambda>p. 0) progs" if "is_unlock x" for x
    using that inside_flat by (auto intro!: map_cong)
  then show ?thesis using f by (simp add: lock_ok_def lock_init_def count_in_def prog_ok_def)
qed

text \<open>How long a run can be: each lock call takes one step, and \<open>Lock\<close> one more to announce itself.\<close>

definition ops_left :: "lock_state \<Rightarrow> nat" where
  "ops_left s = sum_list (map length (lk_progs s))"

lemma ops_next: "i < length (lk_progs s) \<Longrightarrow> lk_progs s ! i = x # q \<Longrightarrow>
    Suc (sum_list (map length ((lk_progs s)[i := q]))) = ops_left s"
proof -
  assume i: "i < length (lk_progs s)" "lk_progs s ! i = x # q"
  then have "length (x # q) \<le> sum_list (map length (lk_progs s))"
    by (metis elem_le_sum_list length_map nth_map)
  then show ?thesis using i by (simp add: map_update sum_list_update ops_left_def)
qed

lemma pending_le: "lock_ok s \<Longrightarrow> card (lk_pending s) \<le> ops_left s \<and> finite (lk_pending s)"
proof -
  assume ok: "lock_ok s"
  then have sub: "lk_pending s \<subseteq> {i. i < length (lk_progs s) \<and> lk_progs s ! i \<noteq> []}"
    by (auto simp: lock_ok_def)
  have fin: "finite (lk_pending s)" by (rule finite_subset [OF sub]) simp
  have "card (lk_pending s) = (\<Sum>i \<in> lk_pending s. 1)" by simp
  also have "\<dots> \<le> (\<Sum>i \<in> lk_pending s. length (lk_progs s ! i))"
    using sub by (intro sum_mono) (auto simp: Suc_le_eq)
  also have "\<dots> \<le> (\<Sum>i \<in> {0..<length (lk_progs s)}. length (lk_progs s ! i))"
    using sub by (intro sum_mono2) auto
  also have "\<dots> = ops_left s" by (simp add: ops_left_def sum_list_sum_nth)
  finally show ?thesis using fin by simp
qed

lemma step_cost:
  assumes "lock_step s s'" and "lock_ok s"
  shows "Suc (2 * ops_left s' + card (lk_pending s)) \<le> 2 * ops_left s + card (lk_pending s')"
  using assms(1)
proof (cases rule: lock_step.cases)
  case (announce i q)
  then show ?thesis using pending_le [OF assms(2)] by (simp add: ops_left_def)
next
  case (acquire i q)
  have "ops_left s' = sum_list (map length ((lk_progs s)[i := q]))" "lk_pending s' = lk_pending s - {i}"
    by (simp_all add: acquire(1) ops_left_def)
  then show ?thesis using ops_next [OF acquire(2,3)] pending_le [OF assms(2)]
      card_Suc_Diff1 [of "lk_pending s" i] acquire(4) by simp
next
  case (rlock i q)
  then show ?thesis using ops_next [OF rlock(2,3)] by (simp add: ops_left_def)
next
  case (runlock i q)
  then show ?thesis using ops_next [OF runlock(2,3)] by (simp add: ops_left_def)
next
  case (unlock i q)
  then show ?thesis using ops_next [OF unlock(2,3)] by (simp add: ops_left_def)
next
  case (plock i j q)
  then show ?thesis using ops_next [OF plock(2,3)] by (simp add: ops_left_def)
next
  case (punlock i j q)
  then show ?thesis using ops_next [OF punlock(2,3)] by (simp add: ops_left_def)
next
  case (wait i q)
  then show ?thesis using ops_next [OF wait(2,3)] by (simp add: ops_left_def)
qed

lemma run_cost:
  assumes "(lock_step ^^ n) s s'" and "lock_ok s"
  shows "n + 2 * ops_left s' + card (lk_pending s) \<le> 2 * ops_left s + card (lk_pending s') \<and> lock_ok s'"
  using assms
proof (induction n arbitrary: s')
  case (Suc n)
  then obtain t where t: "(lock_step ^^ n) s t" "lock_step t s'" by auto
  have IH: "n + 2 * ops_left t + card (lk_pending s) \<le> 2 * ops_left s + card (lk_pending t)" "lock_ok t"
    using Suc.IH [OF t(1) Suc.prems(2)] by simp_all
  show ?case using IH step_cost [OF t(2) IH(2)] lock_step_ok [OF t(2) IH(2)] by linarith
qed simp

text \<open>
  C22. Any number of concurrent starts, stops, restarts, status and policy requests and shutdowns,
  refused ones included, and of monitors that restart their processes any number of times, never
  block each other for good, neither on the lock of the table nor on the mutexes of the processes,
  provided that every wait between their lock calls ends (for a child process, a timeout, a health
  request or a pause): whatever the interleaving, in every state they reach all have finished or
  one can go on, and no run has more than two steps for each of their calls, so every run ends with
  all finished. The list request is not among them.
\<close>
theorem no_deadlock_without_list:
  assumes "set progs \<subseteq> {StartUMC_locks, SetRestartPolicy_locks} \<union> range StopUMC_locks \<union> range StatusUMC_locks \<union>
      range (case_prod RestartUMC_locks) \<union> range Shutdown_locks \<union> {monitorUMC_locks i n late | i n late. True}"
    and "(lock_step ^^ k) (lock_init progs) s"
  shows "(finished s \<or> (\<exists>s'. lock_step s s')) \<and> k \<le> 2 * length (concat progs)"
proof -
  have "flat p" if "p \<in> set progs" for p
    using subsetD [OF assms(1) that] flat_ops by auto
  then have "lock_ok (lock_init progs)" by (intro lock_init_ok) simp
  moreover have "ops_left (lock_init progs) = length (concat progs)" "lk_pending (lock_init progs) = {}"
    by (simp_all add: ops_left_def lock_init_def length_concat)
  ultimately have ok: "lock_ok s" and k: "k + 2 * ops_left s \<le> 2 * length (concat progs) + card (lk_pending s)"
    using run_cost [OF assms(2)] by simp_all
  then have "k \<le> 2 * length (concat progs)" using pending_le [OF ok] by linarith
  then show ?thesis using lock_progress [OF ok] by blast
qed

theorem no_deadlock_without_list_witness:
  "\<exists>s'. lock_step (lock_init [StopUMC_locks (Some 0), StatusUMC_locks (Some 0),
    monitorUMC_locks 0 2 True, Shutdown_locks [Some 0, None]]) s'"
proof -
  let ?ps = "[StopUMC_locks (Some 0), StatusUMC_locks (Some 0),
    monitorUMC_locks 0 2 True, Shutdown_locks [Some 0, None]]"
  have "set ?ps \<subseteq> {StartUMC_locks, SetRestartPolicy_locks} \<union> range StopUMC_locks \<union> range StatusUMC_locks \<union>
      range (case_prod RestartUMC_locks) \<union> range Shutdown_locks \<union> {monitorUMC_locks i n late | i n late. True}"
    unfolding set_simps insert_subset by blast
  moreover have "(lock_step ^^ 0) (lock_init ?ps) (lock_init ?ps)" by simp
  ultimately show ?thesis using no_deadlock_without_list [of ?ps 0]
    by (fastforce simp: finished_def lock_init_def)
qed

text \<open>
  C23. The list request can block the supervisor for good: if a start comes between its two read
  locks, the start waits for the list and the list for the start. It happens for any table with
  a component in it.
\<close>
theorem list_deadlocks:
  "\<exists>s. lock_step\<^sup>*\<^sup>* (lock_init [ListUMCs_locks (i # is), StartUMC_locks]) s \<and> \<not> finished s \<and> (\<nexists>s'. lock_step s s')"
proof -
  let ?rest = "StatusUMC_locks (Some i) @ concat (map (\<lambda>i. StatusUMC_locks (Some i)) is) @ [RUnlock]"
  let ?s1 = "\<lparr>lk_readers = 1, lk_writer = False, lk_pending = {}, lk_held = {}, lk_progs = [?rest, StartUMC_locks]\<rparr>"
  let ?s2 = "\<lparr>lk_readers = 1, lk_writer = False, lk_pending = {1}, lk_held = {}, lk_progs = [?rest, StartUMC_locks]\<rparr>"
  have "lock_step (lock_init [ListUMCs_locks (i # is), StartUMC_locks]) ?s1"
    using lock_step.rlock [of 0 "lock_init [ListUMCs_locks (i # is), StartUMC_locks]" ?rest]
    by (simp add: lock_init_def ListUMCs_locks_def)
  moreover have "lock_step ?s1 ?s2"
    using lock_step.announce [of 1 ?s1 "[Unlock]"] by (simp add: StartUMC_locks_def)
  moreover have "\<not> lock_step ?s2 s'" for s'
    by (auto elim!: lock_stepE simp: StartUMC_locks_def less_Suc_eq)
  moreover have "\<not> finished ?s2" by (simp add: finished_def)
  ultimately show ?thesis by (intro exI [of _ ?s2]) (auto intro: converse_rtranclp_into_rtranclp)
qed

end
