(* ===== verification/Supervisor_Stops.thy ===== *)
theory Supervisor_Stops
  imports Supervisor
begin

text \<open>
  The supervisor with the steps inside its operations (\<open>internal/supervisor/supervisor.go\<close>). A stop
  is three steps: the lookup, the signal under the mutex of its process, and the end after the
  wait; between them everything else may happen that the mutex does not exclude, and the end may
  never come: \<open>StopUMC\<close> calls \<open>Wait\<close> beside the monitor's call of it and again after the kill,
  which \<open>os/exec\<close> does not promise to return. A monitor's restart is two steps, the launch and,
  under the mutex, the record of the new process. The invariant of the reachable states, and with
  it the safety of what is started, holds for this finer interleaving too.
\<close>

datatype stopper = Looked nat | Stopping nat

record fine =
  fi_sup :: supervisor
  fi_stops :: "stopper list" \<comment> \<open>the goroutines inside \<open>StopUMC\<close>\<close>
  fi_launched :: "(nat \<times> command \<times> int) list" \<comment> \<open>started by a monitor and not yet recorded\<close>

definition fine_init :: "supervisor \<Rightarrow> fine" where
  "fine_init S = \<lparr>fi_sup = S, fi_stops = [], fi_launched = []\<rparr>"

text \<open>The mutex of a process is held while a stop waits for it.\<close>

definition unlocked :: "nat \<Rightarrow> fine \<Rightarrow> bool" where
  "unlocked i F \<longleftrightarrow> Stopping i \<notin> set (fi_stops F)"

definition idle :: "nat \<Rightarrow> fine \<Rightarrow> bool" where
  "idle i F \<longleftrightarrow> i \<notin> fst ` set (fi_launched F)"

text \<open>The launch of \<open>monitorUMC\<close> after the backoff, and the critical section that records it.\<close>

definition monitor_launch :: "umc_host \<Rightarrow> nat \<Rightarrow> fine \<Rightarrow> fine" where
  "monitor_launch U i F =
     (let S = fi_sup F;
          exePath = findExecutable U (up_Name (su_heap S ! i)) (su_fs S);
          env = sanitizedEnv U (su_KernelSocket S) (su_LogLevel S);
          S1 = log_call (ProcStart exePath env) S
      in if exePath = [] then F\<lparr>fi_sup := set_monitor i MDone S\<rparr>
         else
           (case uh_start U (su_calls S) exePath env of
              Inl e \<Rightarrow> F\<lparr>fi_sup := set_monitor i MDone S1\<rparr>
            | Inr pid \<Rightarrow> F\<lparr>fi_sup := S1, fi_launched := (i, \<lparr>cd_Path = exePath, cd_Env = env,
                cd_Context = None\<rparr>, pid) # fi_launched F\<rparr>))"

definition monitor_record :: "nat \<times> command \<times> int \<Rightarrow> fine \<Rightarrow> fine" where
  "monitor_record l F =
     (case l of (i, cmd, pid) \<Rightarrow>
        F\<lparr>fi_sup := set_monitor i MTop (set_proc i ((su_heap (fi_sup F) ! i)
            \<lparr>up_Command := cmd, up_PID := pid, up_Running := True\<rparr>) (fi_sup F)),
          fi_launched := remove1 l (fi_launched F)\<rparr>)"

inductive fine_step :: "umc_host \<Rightarrow> fine \<Rightarrow> fine \<Rightarrow> bool" for U :: umc_host where
  look: "stop_look name (fi_sup F) = Inr i \<Longrightarrow> fine_step U F (F\<lparr>fi_stops := Looked i # fi_stops F\<rparr>)"
| signal: "Looked i \<in> set (fi_stops F) \<Longrightarrow> unlocked i F \<Longrightarrow>
    fine_step U F (F\<lparr>fi_sup := stop_signal i (fi_sup F), fi_stops := Stopping i # remove1 (Looked i) (fi_stops F)\<rparr>)"
| finish: "Stopping i \<in> set (fi_stops F) \<Longrightarrow>
    fine_step U F (F\<lparr>fi_sup := stop_finish in_time i (fi_sup F), fi_stops := remove1 (Stopping i) (fi_stops F)\<rparr>)"
| start: "StartUMC U ctx name port (fi_sup F) = (r, S') \<Longrightarrow> fine_step U F (F\<lparr>fi_sup := S'\<rparr>)"
| status: "StatusUMC U name (fi_sup F) = (st, S') \<Longrightarrow>
    (\<And>i. map_of (su_processes (fi_sup F)) name = Some i \<Longrightarrow> unlocked i F) \<Longrightarrow> fine_step U F (F\<lparr>fi_sup := S'\<rparr>)"
| policy: "SetRestartPolicy name p (fi_sup F) = (r, S') \<Longrightarrow> fine_step U F (F\<lparr>fi_sup := S'\<rparr>)"
| install: "Install U name url checksum (fi_sup F) = (r, S') \<Longrightarrow> fine_step U F (F\<lparr>fi_sup := S'\<rparr>)"
| elsewhere: "(\<And>exe env. c \<noteq> ProcStart exe env) \<Longrightarrow> fine_step U F (F\<lparr>fi_sup := log_call c (fi_sup F)\<rparr>)"
| close: "fine_step U F (F\<lparr>fi_sup := fi_sup F\<lparr>su_stopped := True\<rparr>\<rparr>)"
| top: "i < length (su_monitors (fi_sup F)) \<Longrightarrow> su_monitors (fi_sup F) ! i = MTop \<Longrightarrow>
    fine_step U F (F\<lparr>fi_sup := monitor_top i (fi_sup F)\<rparr>)"
| exit: "i < length (su_monitors (fi_sup F)) \<Longrightarrow> su_monitors (fi_sup F) ! i = MWait \<Longrightarrow> unlocked i F \<Longrightarrow>
    fine_step U F (F\<lparr>fi_sup := monitor_exit U w i (fi_sup F)\<rparr>)"
| launch: "i < length (su_monitors (fi_sup F)) \<Longrightarrow> su_monitors (fi_sup F) ! i = MBackoff d \<Longrightarrow> idle i F \<Longrightarrow>
    fine_step U F (monitor_launch U i F)"
| recorded: "l \<in> set (fi_launched F) \<Longrightarrow> unlocked (fst l) F \<Longrightarrow> fine_step U F (monitor_record l F)"
| over_stop: "i < length (su_monitors (fi_sup F)) \<Longrightarrow> su_monitors (fi_sup F) ! i = MBackoff d \<Longrightarrow> idle i F \<Longrightarrow>
    su_stopped (fi_sup F) \<Longrightarrow> fine_step U F (F\<lparr>fi_sup := set_monitor i MDone (fi_sup F)\<rparr>)"

section \<open>The phases in a row\<close>

text \<open>Without interruption the phases are the operation, and launch and record the restart.\<close>

lemma stop_phases:
  assumes "StopUMC U name (fi_sup F) = (None, S')" and "fi_stops F = []"
  shows "(fine_step U)\<^sup>*\<^sup>* F (F\<lparr>fi_sup := S'\<rparr>)"
proof -
  from assms(1) obtain i in_time where i: "stop_look name (fi_sup F) = Inr i"
      "S' = stop_finish in_time i (stop_signal i (fi_sup F))"
    by (auto simp: StopUMC_def Let_def split: sum.splits)
  let ?F1 = "F\<lparr>fi_stops := [Looked i]\<rparr>"
  let ?F2 = "?F1\<lparr>fi_sup := stop_signal i (fi_sup F), fi_stops := [Stopping i]\<rparr>"
  have "fine_step U F ?F1" using fine_step.look [OF i(1)] assms(2) by simp
  moreover have "fine_step U ?F1 ?F2" using fine_step.signal [of i ?F1 U] by (simp add: unlocked_def)
  moreover have "fine_step U ?F2 (F\<lparr>fi_sup := S'\<rparr>)"
    using fine_step.finish [of i ?F2 U in_time] i(2) assms(2) by (cases F) simp
  ultimately show ?thesis by (meson converse_rtranclp_into_rtranclp r_into_rtranclp)
qed

lemma monitor_phases:
  assumes "fi_launched F = []"
  shows "fi_sup (case fi_launched (monitor_launch U i F) of [] \<Rightarrow> monitor_launch U i F
    | l # ls \<Rightarrow> monitor_record l (monitor_launch U i F)) = monitor_over U i (fi_sup F)"
  using assms by (simp add: monitor_launch_def monitor_record_def monitor_over_def Let_def split: sum.split)

section \<open>The invariant\<close>

text \<open>At most one stop holds the mutex of a process, and what was launched will be recorded rightly.\<close>

definition fine_ok :: "umc_host \<Rightarrow> fine \<Rightarrow> bool" where
  "fine_ok U F \<longleftrightarrow> sup_ok U (fi_sup F) \<and> distinct (filter (\<lambda>s. \<exists>i. s = Stopping i) (fi_stops F)) \<and>
     (\<forall>l \<in> set (fi_launched F). start_ok U (fi_sup F) (cd_Path (fst (snd l))) (cd_Env (fst (snd l))))"

lemma stop_phases_keep_ok:
  assumes "sup_ok U S"
  shows "sup_ok U (stop_signal i S)" and "sup_ok U (stop_finish in_time i S)"
proof -
  show "sup_ok U (stop_signal i S)" using assms by (simp add: stop_signal_def sup_ok_log call_ok_def)
  have log: "sup_ok U (log_call (ProcKill pid) S)" for pid using assms by (simp add: sup_ok_log call_ok_def)
  show "sup_ok U (stop_finish in_time i S)"
  proof (cases "i < length (su_heap S)")
    case True
    then have "proc_ok U S ((su_heap S ! i)\<lparr>up_Running := False\<rparr>)"
      using assms nth_mem [OF True] by (auto simp: sup_ok_def proc_ok_def)
    then show ?thesis using assms log unfolding stop_finish_def Let_def
      by (auto intro!: sup_ok_set_proc)
  next
    case False
    then have "set_proc i p S1 = S1" if "su_heap S1 = su_heap S" for p S1
      using that by (cases S1) (simp add: set_proc_def list_update_beyond)
    then show ?thesis using assms log by (simp add: stop_finish_def Let_def)
  qed
qed

lemma fine_ok_sup: "fine_ok U F \<Longrightarrow> sup_ok U S \<Longrightarrow> su_KernelSocket S = su_KernelSocket (fi_sup F) \<Longrightarrow>
    su_LogLevel S = su_LogLevel (fi_sup F) \<Longrightarrow> fine_ok U (F\<lparr>fi_sup := S\<rparr>)"
  using same_config [of S "fi_sup F" U] by (simp add: fine_ok_def)

text \<open>The operations leave the configuration alone.\<close>

lemma sup_step_config: "sup_step U S S' \<Longrightarrow> su_KernelSocket S' = su_KernelSocket S \<and> su_LogLevel S' = su_LogLevel S"
  using config_kept by blast

lemma fine_ok_step: "fine_ok U F \<Longrightarrow> sup_step U (fi_sup F) S \<Longrightarrow> fine_ok U (F\<lparr>fi_sup := S\<rparr>)"
  using step_keeps_ok sup_step_config by (intro fine_ok_sup) (auto simp: fine_ok_def)

lemma launch_keeps_ok:
  assumes "fine_ok U F" and "i < length (su_monitors (fi_sup F))"
  shows "fine_ok U (monitor_launch U i F)"
proof -
  let ?S = "fi_sup F" and ?p = "su_heap (fi_sup F) ! i"
  let ?exe = "findExecutable U (up_Name ?p) (su_fs ?S)"
  let ?env = "sanitizedEnv U (su_KernelSocket ?S) (su_LogLevel ?S)"
  have ok: "sup_ok U ?S" using assms(1) by (simp add: fine_ok_def)
  have s: "start_ok U ?S ?exe ?env" if "?exe \<noteq> []"
    using sup_ok_monitored [OF ok assms(2)] that by (intro start_ok_found) (simp_all add: proc_ok_def)
  have l: "sup_ok U (log_call (ProcStart ?exe ?env) ?S)" if "?exe \<noteq> []"
    using ok s [OF that] by (intro sup_ok_log) (simp_all add: call_ok_def)
  have ended: "fine_ok U (F\<lparr>fi_sup := set_monitor i MDone S\<rparr>)"
    if "sup_ok U S" "su_KernelSocket S = su_KernelSocket ?S" "su_LogLevel S = su_LogLevel ?S" for S
    using that by (intro fine_ok_sup [OF assms(1)]) (simp_all add: sup_ok_set_monitor)
  show ?thesis
  proof (cases "?exe = []")
    case True
    then show ?thesis using ended [OF ok] by (simp add: monitor_launch_def Let_def)
  next
    case False
    then show ?thesis using ended [OF l [OF False]] l [OF False] s [OF False] assms(1)
      by (auto simp: monitor_launch_def Let_def fine_ok_def split: sum.split)
  qed
qed

lemma record_keeps_ok:
  assumes "fine_ok U F" and "l \<in> set (fi_launched F)"
  shows "fine_ok U (monitor_record l F)"
proof -
  obtain i cmd pid where l: "l = (i, cmd, pid)" by (cases l)
  let ?S = "fi_sup F"
  let ?p = "(su_heap ?S ! i)\<lparr>up_Command := cmd, up_PID := pid, up_Running := True\<rparr>"
  have ok: "sup_ok U ?S" and s: "start_ok U ?S (cd_Path cmd) (cd_Env cmd)"
    using assms l by (auto simp: fine_ok_def)
  have "sup_ok U (set_proc i ?p ?S)"
  proof (cases "i < length (su_heap ?S)")
    case True
    then have "proc_ok U ?S ?p" using ok s nth_mem [OF True] by (auto simp: sup_ok_def proc_ok_def)
    then show ?thesis using ok by (intro sup_ok_set_proc) simp_all
  next
    case False
    then have "set_proc i ?p ?S = ?S" by (cases ?S) (simp add: set_proc_def list_update_beyond)
    then show ?thesis using ok by simp
  qed
  then have "sup_ok U (set_monitor i MTop (set_proc i ?p ?S))" by (rule sup_ok_set_monitor) simp
  then show ?thesis using assms(1) l
    by (auto simp: monitor_record_def fine_ok_def dest: notin_set_remove1 set_remove1_subset [THEN subsetD])
qed

lemma fine_step_ok: "fine_step U F F' \<Longrightarrow> fine_ok U F \<Longrightarrow> fine_ok U F'"
proof (induction rule: fine_step.induct)
  case (look name F i)
  then show ?case by (simp add: fine_ok_def)
next
  case (signal i F)
  have "Stopping i \<notin> set (fi_stops F)" using signal(2) by (simp add: unlocked_def)
  then show ?case using signal(3) stop_phases_keep_ok(1) [of U "fi_sup F" i]
    by (auto simp: fine_ok_def filter_remove1 stop_signal_def dest: notin_set_remove1 set_remove1_subset [THEN subsetD])
next
  case (finish i F in_time)
  then show ?case using stop_phases_keep_ok(2) [of U "fi_sup F" in_time i]
      same_config [of "stop_finish in_time i (fi_sup F)" "fi_sup F" U]
    by (auto simp: fine_ok_def filter_remove1 stop_finish_def Let_def)
next
  case (launch i F d)
  then show ?case by (simp add: launch_keeps_ok)
next
  case (recorded l F)
  then show ?case by (simp add: record_keeps_ok)
qed (blast intro: fine_ok_step sup_step.intros)+

lemma fine_reachable_ok: "(fine_step U)\<^sup>*\<^sup>* (fine_init (NewSupervisor ks ll ht gs fs)) F \<Longrightarrow> fine_ok U F"
proof (induction rule: rtranclp_induct)
  case base
  show ?case using reachable_ok [of U ks ll ht gs fs] by (simp add: fine_ok_def fine_init_def)
qed (rule fine_step_ok)

lemma fine_config: "(fine_step U)\<^sup>*\<^sup>* F F' \<Longrightarrow>
    su_KernelSocket (fi_sup F') = su_KernelSocket (fi_sup F) \<and> su_LogLevel (fi_sup F') = su_LogLevel (fi_sup F)"
proof (induction rule: rtranclp_induct)
  case (step F1 F2)
  from step(2) have "su_KernelSocket (fi_sup F2) = su_KernelSocket (fi_sup F1) \<and>
      su_LogLevel (fi_sup F2) = su_LogLevel (fi_sup F1)"
    by (induction rule: fine_step.induct)
       (auto simp: stop_signal_def stop_finish_def monitor_launch_def monitor_record_def Let_def
         split: sum.splits dest: sup_step_config [OF sup_step.start] sup_step_config [OF sup_step.status]
         sup_step_config [OF sup_step.policy] sup_step_config [OF sup_step.install]
         simp: sup_step_config [OF sup_step.top] sup_step_config [OF sup_step.exit])
  then show ?case using step.IH by simp
qed simp

section \<open>Safety of the finer interleaving\<close>

text \<open>
  However the steps inside the operations interleave, and whether or not the stops return: what is
  started is the executable of a valid name in its clean environment, ports and backoffs stay in
  their bounds, and no two stops wait for one process at the same time.
\<close>

theorem fine_safe:
  assumes "(fine_step U)\<^sup>*\<^sup>* (fine_init (NewSupervisor ks ll ht gs fs)) F"
  shows "ProcStart exe env \<in> set (su_calls (fi_sup F)) \<Longrightarrow>
      env = sanitizedEnv U ks ll \<and> (\<exists>name. validateUMCName name = None \<and> exe \<in> set (search_paths U name))"
    and "p \<in> set (su_heap (fi_sup F)) \<Longrightarrow> up_BackoffSeconds p \<in> {1..60} \<and> up_Port p \<in> {1..65535}"
    and "MBackoff d \<in> set (su_monitors (fi_sup F)) \<Longrightarrow> d \<in> {second..60 * second}"
    and "k < l \<Longrightarrow> l < length (fi_stops F) \<Longrightarrow> fi_stops F ! k = Stopping i \<Longrightarrow> fi_stops F ! l \<noteq> Stopping i"
proof -
  have ok: "sup_ok U (fi_sup F)" and d: "distinct (filter (\<lambda>s. \<exists>i. s = Stopping i) (fi_stops F))"
    using fine_reachable_ok [OF assms] by (simp_all add: fine_ok_def)
  have c: "su_KernelSocket (fi_sup F) = ks" "su_LogLevel (fi_sup F) = ll"
    using fine_config [OF assms] by (simp_all add: fine_init_def NewSupervisor_def)
  show "env = sanitizedEnv U ks ll \<and> (\<exists>name. validateUMCName name = None \<and> exe \<in> set (search_paths U name))"
    if "ProcStart exe env \<in> set (su_calls (fi_sup F))"
    using ok that c by (auto simp: sup_ok_def call_ok_def start_ok_def)
  show "up_BackoffSeconds p \<in> {1..60} \<and> up_Port p \<in> {1..65535}" if "p \<in> set (su_heap (fi_sup F))"
    using ok that by (auto simp: sup_ok_def proc_ok_def)
  show "d \<in> {second..60 * second}" if "MBackoff d \<in> set (su_monitors (fi_sup F))"
    using ok that by (auto simp: sup_ok_def monitor_ok_def)
  show "fi_stops F ! l \<noteq> Stopping i" if "k < l" "l < length (fi_stops F)" "fi_stops F ! k = Stopping i"
  proof
    assume l: "fi_stops F ! l = Stopping i"
    have s: "fi_stops F = take l (fi_stops F) @ fi_stops F ! l # drop (Suc l) (fi_stops F)"
      using that(2) by (simp add: Cons_nth_drop_Suc)
    have "Stopping i \<in> set (take l (fi_stops F))"
      using that l by (metis in_set_conv_nth length_take less_trans min_less_iff_conj nth_take)
    then show False using d l by (subst (asm) s) auto
  qed
qed

end
