(* ===== verification/Spec2Isabelle.thy ===== *)
theory Spec2Isabelle
  imports Event_Subscriber Api Startup Recipe Supervisor_Locks Supervisor_Stops
begin

text \<open>
  The deployment engine: a verification library for the Go program under \<open>src/\<close>.

  \<^bold>\<open>The program.\<close> The engine runs deployments of containers on one host for a kernel it talks to
  over gRPC. An apply request arrives as an event (\<open>cmd/serve/main.go\<close>), is compiled to a graph with
  its secrets resolved (\<open>internal/compiler\<close>), executed with Docker (\<open>internal/runner\<close>), and answered
  with a result event. \<open>internal/deployment\<close> stores and announces deployments, \<open>internal/syscall\<close> is
  the kernel client. Beside this the engine supervises sibling processes (\<open>internal/supervisor\<close>),
  started from a manifest (\<open>internal/manifest\<close>) or through an HTTP API (\<open>internal/api\<close>).

  \<^bold>\<open>How it is modelled.\<close> A call that leaves the process is an element of the type \<open>call\<close>; an operation
  takes the history of calls so far and returns its result with the longer history, so that order
  and repetition of effects are visible in the theorems. The answers are functions of the history,
  gathered in records (\<open>kernel\<close>, \<open>docker\<close>, \<open>network\<close>, \<open>host\<close>, \<open>umc_host\<close>), and may differ from call to
  call in any way. Errors are values: an error datatype per component, with the texts the program
  shows. A Go map is an association list with distinct keys, and each loop over one visits the
  entries in an arbitrary order (\<open>iter_order\<close>; \<open>fair_order\<close> says every key once). Strings are lists
  of bytes. File modes are 32-bit words. Byte counters, ports and durations are integers: the
  extraction limit keeps the counters far below the range of a 64-bit integer (\<open>extract_bounded\<close>), ports are checked, and the
  backoff stays within 60 seconds (\<open>backoff_bounded\<close>), so nothing wraps around.

  \<^bold>\<open>Theories.\<close>
  \<^item> \<open>Prelude\<close>: Go maps, string functions, UTF-8, decimal rendering. \<open>World\<close>: calls, loops over
    effects (locale \<open>logged_op\<close>), retries (locale \<open>emitter\<close>), interpreted on the kernel client.
  \<^item> \<open>Syscall_Client\<close>: \<open>internal/syscall/client.go\<close>, every wrapper.
  \<^item> \<open>Deployment\<close>: \<open>internal/deployment/handler.go\<close>: \<open>Deploy\<close>, \<open>Delete\<close>, \<open>GetStatus\<close>, the JSON of a
    specification. What was stored is read back (\<open>Deploy_GetStatus\<close>).
  \<^item> \<open>Secrets\<close> and \<open>Compiler\<close>: \<open>internal/compiler/compiler.go\<close>. The regular expression is matched by
    \<open>match_secret\<close>; the loop over its matches refines a declarative substitution. Compilation is
    described field by field, with its errors, and the graph check by a declarative verdict.
  \<^item> \<open>Go_Path\<close>, \<open>File_System\<close>: the path functions, and a POSIX file tree with symbolic links, path
    resolution with the kernel's limit of 40 links (the fuel \<open>max_links\<close>; beyond it the answer is
    \<open>ELOOP\<close>, as the kernel gives it), the system calls used, and confinement to a directory.
  \<^item> \<open>Archive\<close>: \<open>extractTarGzStripped\<close> and \<open>tarDirectory\<close> of \<open>internal/runner/runner.go\<close>.
  \<^item> \<open>Runner\<close>: \<open>buildImage\<close>, \<open>Execute\<close>, \<open>Stop\<close>, \<open>ReconcileContainers\<close>: what is sent to Docker, how the
    containers are hardened, which errors stop an execution, what a build leaves behind.
  \<^item> \<open>Event_Subscriber\<close>: the handlers and the subscription loop of \<open>cmd/serve/main.go\<close>. The loop is the
    step relation \<open>loop_step\<close>, in which the goroutine can be blocked in \<open>Subscribe\<close> and in \<open>Recv\<close> while
    the stop channel is closed; an apply request is followed from its event to its result.
  \<^item> \<open>Manifest\<close>: \<open>internal/manifest/manifest.go\<close>; \<open>Startup\<close>: the supervisor component of
    \<open>cmd/serve/main.go\<close>, which composes manifest, file tree and supervisor.
  \<^item> \<open>Umc_Binaries\<close>, \<open>Supervisor\<close>, \<open>Supervisor_Locks\<close>, \<open>Supervisor_Stops\<close>:
    \<open>internal/supervisor/supervisor.go\<close>. Names, search and installation of binaries; the table of processes with a heap for the pointers the
    monitor goroutines keep; the step relation \<open>sup_step\<close> that interleaves operations and
    monitors; the invariant \<open>sup_ok\<close> of its reachable states; the locale \<open>umc_table\<close>, the contract
    clients rely on, interpreted on the operations; the calls on the table lock and on the mutexes
    of the processes under \<open>sync.RWMutex\<close> and \<open>sync.Mutex\<close>; and the finer relation \<open>fine_step\<close>, in which
    the phases of \<open>StopUMC\<close> and of a monitor's restart interleave and a stop need not return. The
    invariant holds there too (\<open>fine_safe\<close>).
  \<^item> \<open>Api\<close>: \<open>internal/api/handler.go\<close>, every handler; a request is a sequence of supervisor steps.
  \<^item> \<open>Recipe\<close>: \<open>internal/recipe/reconciler.go\<close>.

  \<^bold>\<open>Bounds and loops.\<close> The retry loops run 3 and 5 times as in the code. Loops over lists are
  structural recursions; the regular expression, the path walk and \<open>MkdirAll\<close> have termination
  measures. The two loops that may run for ever, subscription and monitor, are step relations.

  \<^bold>\<open>Parameters.\<close> Code that is not in the repository is an argument: the gRPC services and
  \<open>structpb\<close>, the Docker client, the HTTP transport, YAML, JSON encoding and decoding (with the round
  trip of \<open>encoding/json\<close> as a hypothesis where a theorem needs it), gzip and tar framing, SHA-256,
  child processes, the clock. Of \<open>url.Parse\<close> the scheme is modelled and the other checks are a
  parameter. The \<open>middleware\<close>, \<open>lifecycle\<close> and \<open>transport\<close> packages are not in the repository.

  \<^bold>\<open>Not modelled.\<close> \<open>main\<close>, \<open>dialKernelSyscallServer\<close> and the HTTP server component only wire and
  start these parameters. Logging has no effect here. An operation of the supervisor is one step
  of \<open>sup_step\<close>; theorems about its result are about a run of it that returns with nothing in
  between, as the Go code makes when no other request or monitor acts on the same process.
  \<open>fine_step\<close> has the steps inside; there the two critical sections of a monitor after the end of
  its process are still one step, and the unprotected reads of \<open>Running\<close> are taken as atomic.
  The scheduling of concurrent apply handlers against each other is left out.

  \<^bold>\<open>This theory\<close> composes the components: an apply request is followed from its event through
  compiler and runner to the containers, their images and their environments.

  \<^bold>\<open>Plan.\<close> Next: concurrent handlers on one Docker daemon.
\<close>

section \<open>From the event to the container\<close>

text \<open>
  C1. From the event to the container: if the handler of an apply request sends the kernel a result
  that reports success, then for every service of the request (the last one of its name) its image
  has been pulled, or built from the source of the request under its tag, and the daemon accepted
  that; then, with nothing in between, the old container has been removed, and the new one created
  with this image and with exactly the variables of the request, the secrets in their values
  replaced by what the kernel answered; it was started under the ID its creation returned, the
  daemon accepted both, and three seconds later did not report it as ended.
\<close>
theorem apply_end_to_end:
  assumes "processDeployment E payload h fs = (h @ cs, fs')" and "en_decode E payload = Inr ep"
    and "dep = ev_Deployment ep" and "dep_wf dep" and "fair_order (en_order E)"
    and "KEmitEvent q \<in> set cs" and "EventType q = ''deployments.result''"
    and "map_of (Payload q) ''success'' = Some (VBool True)"
    and "List.find (\<lambda>s. sp_Name s = sp_Name svc) (rev (dp_Services dep)) = Some svc"
  shows "\<exists>pre img up post cfg i env. cs = pre @ img @ up @ post \<and>
    up = [DContainerRemove (dp_Slug dep @ ''-'' @ sp_Name svc) True, DContainerCreate cfg, DContainerStart i,
      Sleep (3 * second), DContainerInspect i] \<and>
    co_Name cfg = dp_Slug dep @ ''-'' @ sp_Name svc \<and>
    image_ready (en_docker E) (h @ pre) (dp_Slug dep) (sp_Name svc) (sp_Image svc) (sp_Build svc) (dp_Source dep)
      img (co_Image cfg) \<and>
    d_container_create (en_docker E) (h @ pre @ img @ take 1 up) cfg = Inr i \<and>
    d_container_start (en_docker E) (h @ pre @ img @ take 2 up) i = None \<and>
    (\<nexists>code. d_container_inspect (en_docker E) (h @ pre @ img @ take 4 up) i = Inr (Some (False, code))) \<and>
    env_resolved (en_kernel E) (sp_Environment svc) env \<and>
    mset (co_Env cfg) = mset (map (\<lambda>(k, v). k @ ''='' @ v) env)"
proof -
  obtain success msg h1 n where r: "run_deployment E (ev_JobID ep) dep h fs = ((success, msg), h1, fs')"
    and n: "h @ cs = h1 @ result_attempts (en_kernel E) (deployment_event ''deployments.result'' (dp_ID dep)
       (result_payload (ev_JobID ep) (dp_ID dep) (dp_Version dep) success msg [])) n" (is "_ = h1 @ ?results")
    using assms(1,2) unfolding assms(3) by (rule processDeployment_obtain) blast
  obtain pre where p: "h1 = h @ pre" "reported E dep success msg h pre"
    using run_deployment_reported [OF r assms(5,4)] by blast
  have cs: "cs = pre @ ?results" using n p(1) by simp
  have "KEmitEvent q \<notin> set pre" using p(2) assms(7) unfolding reported_def result_call_def by blast
  then have "KEmitEvent q \<in> set ?results" using assms(6) unfolding cs by simp
  then have "Payload q = result_payload (ev_JobID ep) (dp_ID dep) (dp_Version dep) success msg []"
    by (auto simp: deployment_event_def dest!: set_result_attempts)
  then have success using assms(8) by (simp add: result_payload_def)
  then have "service_up (en_docker E) (en_kernel E) dep svc (h @ []) pre"
    using p(2) assms(9) unfolding reported_def by simp
  from service_up_append [OF this, of ?results]
  have "service_up (en_docker E) (en_kernel E) dep svc h cs" unfolding cs by simp
  then obtain pre img up post cfg i env where
    u: "cs = pre @ img @ up @ post" "co_Name cfg = dp_Slug dep @ ''-'' @ sp_Name svc"
      "image_ready (en_docker E) (h @ pre) (dp_Slug dep) (sp_Name svc) (sp_Image svc) (sp_Build svc) (dp_Source dep)
         img (co_Image cfg)"
      "container_up (en_docker E) (h @ pre @ img) cfg i up" "env_resolved (en_kernel E) (sp_Environment svc) env"
      "mset (co_Env cfg) = mset (map (\<lambda>(k, v). k @ ''='' @ v) env)"
    unfolding service_up_def by blast
  note c = u(4) [unfolded container_up_def append_assoc u(2)]
  show ?thesis
    by (rule exI [of _ pre], rule exI [of _ img], rule exI [of _ up], rule exI [of _ post], rule exI [of _ cfg],
        rule exI [of _ i], rule exI [of _ env])
       (use u(1-3,5,6) c in blast)
qed

definition secret_payload :: deploymentFromPayload where
  "secret_payload = web_payload\<lparr>dp_Services := [hd (dp_Services web_payload)
     \<lparr>sp_Environment := [(''DB'', ''u:${secret:db/pass}@h'')]\<rparr>]\<rparr>"

definition secret_engine :: engine where
  "secret_engine = sample_engine\<lparr>en_decode := \<lambda>s. Inr \<lparr>ev_JobID = ''j3'', ev_Deployment = secret_payload\<rparr>\<rparr>"

definition reports_success :: "call \<Rightarrow> bool" where
  "reports_success c \<longleftrightarrow> (case c of KEmitEvent q \<Rightarrow> EventType q = ''deployments.result'' \<and>
     map_of (Payload q) ''success'' = Some (VBool True) | _ \<Rightarrow> False)"

lemma success_reported: "reports_success c \<Longrightarrow> \<exists>q. c = KEmitEvent q \<and> EventType q = ''deployments.result'' \<and>
    map_of (Payload q) ''success'' = Some (VBool True)"
  unfolding reports_success_def by (cases c) simp_all

lemma secret_run_succeeds: "list_ex reports_success
  (fst (processDeployment secret_engine [] [] sample_fs))"
  by code_simp

theorem apply_end_to_end_witness:
  "\<exists>pre post cfg i. fst (processDeployment secret_engine [] [] sample_fs) =
     pre @ [DContainerRemove ''shop-web'' True, DContainerCreate cfg, DContainerStart i, Sleep (3 * second),
       DContainerInspect i] @ post \<and> co_Image cfg = ''nginx''"
proof -
  let ?r = "processDeployment secret_engine [] [] sample_fs" and ?svc = "hd (dp_Services secret_payload)"
  have r: "?r = ([] @ fst ?r, snd ?r)" by simp
  obtain q where q: "KEmitEvent q \<in> set (fst ?r)" "EventType q = ''deployments.result''"
      "map_of (Payload q) ''success'' = Some (VBool True)"
    using secret_run_succeeds unfolding list_ex_iff by (metis success_reported)
  have d: "en_decode secret_engine [] = Inr \<lparr>ev_JobID = ''j3'', ev_Deployment = secret_payload\<rparr>"
    "secret_payload = ev_Deployment \<lparr>ev_JobID = ''j3'', ev_Deployment = secret_payload\<rparr>"
    "fair_order (en_order secret_engine)"
    by (simp_all add: secret_engine_def sample_engine_facts)
  have w: "dep_wf secret_payload" by (simp add: secret_payload_def dep_wf_def web_payload_def gm_wf_def)
  have s: "List.find (\<lambda>s. sp_Name s = sp_Name ?svc) (rev (dp_Services secret_payload)) = Some ?svc"
    "dp_Slug secret_payload @ ''-'' @ sp_Name ?svc = ''shop-web''" "sp_Build ?svc = None" "sp_Image ?svc = ''nginx''"
    by (simp_all add: secret_payload_def web_payload_def)
  obtain pre img post cfg i where u: "fst ?r = pre @ img @ [DContainerRemove ''shop-web'' True, DContainerCreate cfg,
      DContainerStart i, Sleep (3 * second), DContainerInspect i] @ post" "co_Image cfg = ''nginx''"
    using apply_end_to_end [OF r d(1,2) w d(3) q s(1)] unfolding s(2-4) image_ready_def option.case by metis
  show ?thesis
    by (rule exI [of _ "pre @ img"], rule exI [of _ post], rule exI [of _ cfg], rule exI [of _ i])
       (use u in simp)
qed

end
